(* ===== verification/Pipette_Prelude.thy ===== *)
theory Pipette_Prelude
  imports Main "HOL-Library.Sublist"
begin

text \<open>
  Shared vocabulary of the development: the parts of the Rust language and standard library that
  the modelled crates use, and the generic lemmas about them.

  \<^item> \<open>Duration\<close> and \<open>Instant\<close> are numbers of nanoseconds; the saturating operations clamp at
    \<open>Duration::MAX\<close>. \<open>u64\<close> values that only meet saturating operations are natural numbers with
    the clamp written out.
  \<^item> \<open>&str\<close> and \<open>String\<close> are lists of UTF-8 bytes (\<^typ>\<open>string\<close>). \<open>str::trim\<close> and
    \<open>split_whitespace\<close> know the UTF-8 encodings of all the characters with the Unicode property
    \<open>White_Space\<close>.
  \<^item> A callback the source receives (\<open>&dyn Fn\<close>, \<open>impl FnMut\<close>) is a function on a world
    \<open>'w\<close> that is threaded through the calls: it may read and change what it captured.
  \<^item> \<open>Result<T, E>\<close> is \<open>'e + 't\<close> with \<open>Inl\<close> the error; \<open>ControlFlow\<close> is a datatype.
\<close>

named_theorems sat_simps \<open>the saturating operations\<close>
named_theorems str_defs \<open>definitions of the string routines\<close>

section \<open>Durations and saturating integers\<close>

type_synonym duration = nat
type_synonym instant = nat

definition u32_max :: nat where "u32_max = 2 ^ 32 - 1"
definition u64_max :: nat where "u64_max = 2 ^ 64 - 1"

definition DURATION_MAX :: duration where
  "DURATION_MAX = 2 ^ 64 * 1000000000 - 1"

definition from_secs :: "nat \<Rightarrow> duration" where "from_secs s = s * 1000000000"
definition from_millis :: "nat \<Rightarrow> duration" where "from_millis m = m * 1000000"
definition as_secs :: "duration \<Rightarrow> nat" where "as_secs d = d div 1000000000"
definition as_millis :: "duration \<Rightarrow> nat" where "as_millis d = d div 1000000"

definition dur_sat_add :: "duration \<Rightarrow> duration \<Rightarrow> duration" where
  "dur_sat_add a b = min (a + b) DURATION_MAX"

definition dur_sat_mul :: "duration \<Rightarrow> nat \<Rightarrow> duration" where
  "dur_sat_mul a k = min (a * k) DURATION_MAX"

text \<open>\<open>saturating_sub\<close> stops at zero, which is what subtraction on \<^typ>\<open>nat\<close> does.\<close>

definition sat_add64 :: "nat \<Rightarrow> nat \<Rightarrow> nat" where
  "sat_add64 a b = min (a + b) u64_max"

definition sat_mul64 :: "nat \<Rightarrow> nat \<Rightarrow> nat" where
  "sat_mul64 a b = min (a * b) u64_max"

lemmas [sat_simps] = sat_add64_def sat_mul64_def dur_sat_add_def dur_sat_mul_def

lemma sat_add64_le [simp]: "sat_add64 a b \<le> u64_max"
  by (simp add: sat_simps)

lemma sat_add64_exact: "a + b \<le> u64_max \<Longrightarrow> sat_add64 a b = a + b"
  by (simp add: sat_simps)

lemma sat_add64_assoc: "sat_add64 (sat_add64 a b) c = sat_add64 a (sat_add64 b c)"
  by (auto simp: sat_simps min_def)

lemma fold_sat_add64:
  "a \<le> u64_max \<Longrightarrow> fold (\<lambda>x t. sat_add64 t (f x)) xs a = min (a + sum_list (map f xs)) u64_max"
proof (induction xs arbitrary: a)
  case Nil
  then show ?case by simp
next
  case (Cons x xs)
  have "fold (\<lambda>x t. sat_add64 t (f x)) xs (sat_add64 a (f x))
      = min (sat_add64 a (f x) + sum_list (map f xs)) u64_max"
    by (rule Cons.IH) simp
  then show ?case by (simp add: sat_simps min_def)
qed

section \<open>Control flow and results\<close>

datatype ('b, 'c) control_flow = Break 'b | Continue 'c

fun is_break :: "('b, 'c) control_flow \<Rightarrow> bool" where
  "is_break (Break _) = True"
| "is_break (Continue _) = False"

type_synonym ('w, 'a) action = "'w \<Rightarrow> 'a \<times> 'w"

text \<open>The \<open>?\<close> operator.\<close>

definition bind_result :: "'e + 'a \<Rightarrow> ('a \<Rightarrow> 'e + 'b) \<Rightarrow> 'e + 'b" where
  "bind_result r f = (case r of Inl e \<Rightarrow> Inl e | Inr x \<Rightarrow> f x)"

lemma bind_result_simps [simp]:
  "bind_result (Inl e) f = Inl e"
  "bind_result (Inr x) f = f x"
  by (simp_all add: bind_result_def)

lemma bind_result_Inr: "bind_result r f = Inr y \<longleftrightarrow> (\<exists>x. r = Inr x \<and> f x = Inr y)"
  by (cases r) auto

definition ok_or :: "'e \<Rightarrow> 'a option \<Rightarrow> 'e + 'a" where
  "ok_or e x = (case x of None \<Rightarrow> Inl e | Some v \<Rightarrow> Inr v)"

lemma ok_or_simps [simp]: "ok_or e None = Inl e" "ok_or e (Some v) = Inr v"
  by (simp_all add: ok_or_def)

text \<open>A path is the list of its components.\<close>

type_synonym fs_path = "string list"

section \<open>Strings\<close>

definition bytes :: "nat list \<Rightarrow> string" where
  "bytes ns = map char_of ns"

text \<open>The UTF-8 encodings of the characters that \<open>char::is_whitespace\<close> accepts.\<close>

definition ws_chars :: "string list" where
  "ws_chars =
     map (\<lambda>n. bytes [n]) [9, 10, 11, 12, 13, 32] @
     [bytes [0xC2, 0x85], bytes [0xC2, 0xA0], bytes [0xE1, 0x9A, 0x80]] @
     map (\<lambda>n. bytes [0xE2, 0x80, n])
       [0x80, 0x81, 0x82, 0x83, 0x84, 0x85, 0x86, 0x87, 0x88, 0x89, 0x8A, 0xA8, 0xA9, 0xAF] @
     [bytes [0xE2, 0x81, 0x9F], bytes [0xE3, 0x80, 0x80]]"

lemma ws_chars_nonempty: "p \<in> set ws_chars \<Longrightarrow> p \<noteq> []"
  by (auto simp: ws_chars_def bytes_def)

definition leading_ws :: "string \<Rightarrow> string option" where
  "leading_ws s = find (\<lambda>p. prefix p s) ws_chars"

definition trailing_ws :: "string \<Rightarrow> string option" where
  "trailing_ws s = find (\<lambda>p. suffix p s) ws_chars"

lemma leading_ws_Some:
  "leading_ws s = Some p \<Longrightarrow> p \<noteq> [] \<and> prefix p s \<and> s \<noteq> []"
  unfolding leading_ws_def find_Some_iff
  using ws_chars_nonempty nth_mem prefix_Nil by metis

lemma trailing_ws_Some:
  "trailing_ws s = Some p \<Longrightarrow> p \<noteq> [] \<and> suffix p s \<and> s \<noteq> []"
  unfolding trailing_ws_def find_Some_iff
  using ws_chars_nonempty nth_mem suffix_bot.extremum_unique by metis

function trim_start :: "string \<Rightarrow> string" where
  "trim_start s = (case leading_ws s of None \<Rightarrow> s | Some p \<Rightarrow> trim_start (drop (length p) s))"
  by pat_completeness auto
termination
  by (relation "measure length") (auto dest: leading_ws_Some)

function trim_end :: "string \<Rightarrow> string" where
  "trim_end s =
     (case trailing_ws s of None \<Rightarrow> s | Some p \<Rightarrow> trim_end (take (length s - length p) s))"
  by pat_completeness auto
termination
  by (relation "measure length") (auto dest: trailing_ws_Some)

declare trim_start.simps [simp del] trim_end.simps [simp del]

definition trim :: "string \<Rightarrow> string" where
  "trim s = trim_end (trim_start s)"

lemma length_trim_start: "length (trim_start s) \<le> length s"
proof (induction s rule: trim_start.induct)
  case (1 s)
  then show ?case
    by (subst trim_start.simps) (fastforce split: option.splits)
qed

lemma length_trim_end: "length (trim_end s) \<le> length s"
proof (induction s rule: trim_end.induct)
  case (1 s)
  then show ?case
    by (subst trim_end.simps) (fastforce split: option.splits)
qed

text \<open>A string that starts and ends with a visible ASCII character is already trimmed.\<close>

definition visible :: "char \<Rightarrow> bool" where
  "visible c \<longleftrightarrow> 32 < (of_char c :: nat) \<and> (of_char c :: nat) < 128"

lemma ws_chars_invisible: "p \<in> set ws_chars \<Longrightarrow> \<not> visible (hd p) \<and> \<not> visible (last p)"
  unfolding ws_chars_def bytes_def visible_def by auto

lemma trim_visible:
  assumes "s \<noteq> []" "visible (hd s)" "visible (last s)"
  shows "trim s = s"
proof -
  have "\<not> prefix p s" "\<not> suffix p s" if "p \<in> set ws_chars" for p
  proof -
    have "hd p \<noteq> hd s" "last p \<noteq> last s" using ws_chars_invisible [OF that] assms by auto
    then show "\<not> prefix p s" "\<not> suffix p s"
      using ws_chars_nonempty [OF that] by (auto simp: prefix_def suffix_def)
  qed
  then have "leading_ws s = None" "trailing_ws s = None"
    by (auto simp: leading_ws_def trailing_ws_def find_None_iff)
  then show ?thesis
    unfolding trim_def by (subst trim_start.simps, simp, subst trim_end.simps, simp)
qed

fun strip_prefix :: "string \<Rightarrow> string \<Rightarrow> string option" where
  "strip_prefix [] s = Some s"
| "strip_prefix (p # ps) [] = None"
| "strip_prefix (p # ps) (c # cs) = (if p = c then strip_prefix ps cs else None)"

lemma strip_prefix_Some: "strip_prefix p s = Some r \<longleftrightarrow> s = p @ r"
  by (induction p s rule: strip_prefix.induct) auto

lemma strip_prefix_append [simp]: "strip_prefix p (p @ r) = Some r"
  by (simp add: strip_prefix_Some)

definition strip_suffix :: "string \<Rightarrow> string \<Rightarrow> string option" where
  "strip_suffix p s = map_option rev (strip_prefix (rev p) (rev s))"

lemma strip_suffix_Some: "strip_suffix p s = Some r \<longleftrightarrow> s = r @ p"
proof
  assume "strip_suffix p s = Some r"
  then show "s = r @ p"
    by (auto simp: strip_suffix_def strip_prefix_Some rev_swap)
qed (simp add: strip_suffix_def)

text \<open>\<open>str::split_once\<close> at a single byte: the parts before and after its first occurrence.\<close>

fun split_once :: "char \<Rightarrow> string \<Rightarrow> (string \<times> string) option" where
  "split_once d [] = None"
| "split_once d (c # cs) =
     (if c = d then Some ([], cs)
      else map_option (\<lambda>(a, b). (c # a, b)) (split_once d cs))"

lemma split_once_Some: "split_once d s = Some (a, b) \<longleftrightarrow> s = a @ d # b \<and> d \<notin> set a"
proof (induction s arbitrary: a b)
  case Nil
  then show ?case by simp
next
  case (Cons c s)
  show ?case
  proof (cases a)
    case Nil
    then show ?thesis using Cons.IH by (auto split: option.splits)
  next
    case (Cons x xs)
    then show ?thesis using Cons.IH[of xs b] by auto
  qed
qed

text \<open>\<open>str::split_whitespace\<close>: the non-empty runs between whitespace characters.\<close>

function split_ws_from :: "string \<Rightarrow> string \<Rightarrow> string list" where
  "split_ws_from acc s =
     (case s of
        [] \<Rightarrow> (if acc = [] then [] else [rev acc])
      | c # cs \<Rightarrow>
          (case leading_ws s of
             None \<Rightarrow> split_ws_from (c # acc) cs
           | Some p \<Rightarrow>
               (if acc = [] then [] else [rev acc]) @ split_ws_from [] (drop (length p) s)))"
  by pat_completeness auto
termination
  by (relation "measure (\<lambda>(acc, s). length s)") (auto dest: leading_ws_Some)

declare split_ws_from.simps [simp del]

definition split_whitespace :: "string \<Rightarrow> string list" where
  "split_whitespace s = split_ws_from [] s"

lemma split_ws_from_nonempty: "w \<in> set (split_ws_from acc s) \<Longrightarrow> w \<noteq> []"
proof (induction acc s rule: split_ws_from.induct)
  case (1 acc s)
  then show ?case
    by (subst (asm) split_ws_from.simps) (auto split: list.splits option.splits if_splits)
qed

text \<open>\<open>str::lines\<close>: the parts ended by a newline (or by the end), a carriage return before the
  newline dropped.\<close>

definition strip_cr :: "string \<Rightarrow> string" where
  "strip_cr s = (if s \<noteq> [] \<and> last s = CHR 0x0D then butlast s else s)"

fun lines_from :: "string \<Rightarrow> string \<Rightarrow> string list" where
  "lines_from acc [] = (if acc = [] then [] else [rev acc])"
| "lines_from acc (c # cs) =
     (if c = CHR 0x0A then strip_cr (rev acc) # lines_from [] cs else lines_from (c # acc) cs)"

definition str_lines :: "string \<Rightarrow> string list" where
  "str_lines s = lines_from [] s"

definition ascii_lower :: "char \<Rightarrow> char" where
  "ascii_lower c = (if 65 \<le> (of_char c :: nat) \<and> (of_char c :: nat) \<le> 90 then char_of ((of_char c :: nat) + 32) else c)"

definition to_ascii_lowercase :: "string \<Rightarrow> string" where
  "to_ascii_lowercase s = map ascii_lower s"

definition str_contains :: "string \<Rightarrow> string \<Rightarrow> bool" where
  "str_contains s p = list_ex (\<lambda>t. prefix p t) (suffixes s)"

lemma str_contains_iff: "str_contains s p \<longleftrightarrow> (\<exists>a b. s = a @ p @ b)"
proof
  assume "str_contains s p"
  then obtain t where "suffix t s" and "prefix p t"
    by (auto simp: str_contains_def list_ex_iff)
  then show "\<exists>a b. s = a @ p @ b"
    unfolding prefix_def suffix_def by metis
next
  assume "\<exists>a b. s = a @ p @ b"
  then obtain a b where s: "s = a @ p @ b" by blast
  have "suffix (p @ b) s" by (auto simp: s suffix_def)
  then show "str_contains s p"
    unfolding str_contains_def list_ex_iff by (auto intro: bexI [of _ "p @ b"])
qed

text \<open>\<open>s.chars().take(n)\<close>: a byte that is no UTF-8 continuation byte starts a character.\<close>

definition starts_char :: "char \<Rightarrow> bool" where
  "starts_char c \<longleftrightarrow> \<not> (0x80 \<le> (of_char c :: nat) \<and> (of_char c :: nat) < 0xC0)"

fun take_chars :: "nat \<Rightarrow> string \<Rightarrow> string" where
  "take_chars n [] = []"
| "take_chars n (c # cs) =
     (if starts_char c then (case n of 0 \<Rightarrow> [] | Suc m \<Rightarrow> c # take_chars m cs) else c # take_chars n cs)"

definition join_str :: "string \<Rightarrow> string list \<Rightarrow> string" where
  "join_str sep xs = (case xs of [] \<Rightarrow> [] | y # ys \<Rightarrow> y @ concat (map (\<lambda>s. sep @ s) ys))"

section \<open>Parsing unsigned integers\<close>

definition digit_of :: "char \<Rightarrow> nat option" where
  "digit_of c = (let n = of_char c in if 48 \<le> n \<and> n \<le> 57 then Some (n - 48) else None)"

fun digits_value :: "nat \<Rightarrow> nat \<Rightarrow> string \<Rightarrow> nat option" where
  "digits_value bound acc [] = Some acc"
| "digits_value bound acc (c # cs) =
     (case digit_of c of
        None \<Rightarrow> None
      | Some d \<Rightarrow>
          (if acc * 10 + d \<le> bound then digits_value bound (acc * 10 + d) cs else None))"

text \<open>\<open>str::parse::<u64>()\<close> and its \<open>u32\<close> twin: an optional plus sign, then one digit or more,
  with no overflow on the way.\<close>

definition parse_uint :: "nat \<Rightarrow> string \<Rightarrow> nat option" where
  "parse_uint bound s =
     (let t = (case s of c # cs \<Rightarrow> (if c = CHR ''+'' then cs else s) | [] \<Rightarrow> [])
      in if t = [] then None else digits_value bound 0 t)"

abbreviation parse_u64 :: "string \<Rightarrow> nat option" where
  "parse_u64 \<equiv> parse_uint u64_max"

abbreviation parse_u32 :: "string \<Rightarrow> nat option" where
  "parse_u32 \<equiv> parse_uint u32_max"

lemma digits_value_le: "digits_value bound acc s = Some n \<Longrightarrow> acc \<le> bound \<Longrightarrow> n \<le> bound"
  by (induction bound acc s rule: digits_value.induct) (auto split: option.splits if_splits)

lemma parse_uint_le: "parse_uint bound s = Some n \<Longrightarrow> n \<le> bound"
  by (auto simp: parse_uint_def Let_def split: if_splits dest: digits_value_le)

text \<open>\<open>Display\<close> of an unsigned integer.\<close>

function decimal :: "nat \<Rightarrow> string" where
  "decimal n =
     (if n < 10 then [char_of (48 + n)] else decimal (n div 10) @ [char_of (48 + n mod 10)])"
  by pat_completeness auto
termination by (relation "measure id") auto

declare decimal.simps [simp del]

end
