(* ===== verification/Wait.thy ===== *)
theory Wait
  imports Pipette_Prelude
begin

text \<open>
  The crate \<open>pipette-wait\<close>: what a caller hands a blocking wait (status, poll, cancel and sleep
  callbacks) and the cancellable sleep between two polls. A callback works on a world \<open>'w\<close>.
  The locale at the end is the contract the poll loops rely on, and the crate's own sleep is
  shown to meet it.
\<close>

section \<open>Definitions\<close>

definition CANCEL_CHECK_INTERVAL :: duration where
  "CANCEL_CHECK_INTERVAL = from_secs 1"

lemma CANCEL_CHECK_INTERVAL_pos [simp]: "0 < CANCEL_CHECK_INTERVAL"
  by (simp add: CANCEL_CHECK_INTERVAL_def from_secs_def)

definition never_cancelled :: "'w \<Rightarrow> bool \<times> 'w" where
  "never_cancelled w = (False, w)"

record ('w, 's) wait_callbacks =
  cb_on_status :: "('s \<Rightarrow> 'w \<Rightarrow> 'w) option"
  cb_on_poll :: "('w \<Rightarrow> 'w) option"
  cb_cancelled :: "'w \<Rightarrow> bool \<times> 'w"
  cb_sleep :: "duration \<Rightarrow> 'w \<Rightarrow> 'w"

text \<open>\<open>std::thread::sleep\<close> is the argument: what sleeping does to the world is not the crate's.\<close>

definition default_callbacks :: "(duration \<Rightarrow> 'w \<Rightarrow> 'w) \<Rightarrow> ('w, 's) wait_callbacks" where
  "default_callbacks thread_sleep =
     \<lparr>cb_on_status = None, cb_on_poll = None, cb_cancelled = never_cancelled,
      cb_sleep = thread_sleep\<rparr>"

definition with_status ::
  "('w, 's) wait_callbacks \<Rightarrow> ('s \<Rightarrow> 'w \<Rightarrow> 'w) \<Rightarrow> ('w, 's) wait_callbacks" where
  "with_status cb on_status = cb\<lparr>cb_on_status := Some on_status\<rparr>"

definition with_poll ::
  "('w, 's) wait_callbacks \<Rightarrow> ('w \<Rightarrow> 'w) \<Rightarrow> ('w, 's) wait_callbacks" where
  "with_poll cb on_poll = cb\<lparr>cb_on_poll := Some on_poll\<rparr>"

definition with_cancel ::
  "('w, 's) wait_callbacks \<Rightarrow> ('w \<Rightarrow> bool \<times> 'w) \<Rightarrow> ('w, 's) wait_callbacks" where
  "with_cancel cb cancelled = cb\<lparr>cb_cancelled := cancelled\<rparr>"

definition with_sleep ::
  "('w, 's) wait_callbacks \<Rightarrow> (duration \<Rightarrow> 'w \<Rightarrow> 'w) \<Rightarrow> ('w, 's) wait_callbacks" where
  "with_sleep cb sleep = cb\<lparr>cb_sleep := sleep\<rparr>"

definition polled :: "('w, 's) wait_callbacks \<Rightarrow> 'w \<Rightarrow> 'w" where
  "polled cb w = (case cb_on_poll cb of None \<Rightarrow> w | Some on_poll \<Rightarrow> on_poll w)"

definition is_cancelled :: "('w, 's) wait_callbacks \<Rightarrow> 'w \<Rightarrow> bool \<times> 'w" where
  "is_cancelled cb w = cb_cancelled cb w"

definition report ::
  "('s \<Rightarrow> 'w \<Rightarrow> 'w) \<Rightarrow> ('w, 's) wait_callbacks \<Rightarrow> 's \<Rightarrow> 'w \<Rightarrow> 'w" where
  "report report_default cb status w =
     (case cb_on_status cb of
        Some on_status \<Rightarrow> on_status status w
      | None \<Rightarrow> report_default status w)"

definition clamp_to_deadline :: "instant \<Rightarrow> duration \<Rightarrow> instant \<Rightarrow> duration" where
  "clamp_to_deadline now interval deadline = min interval (deadline - now)"

fun sleep_cancellably ::
  "duration \<Rightarrow> ('w \<Rightarrow> bool \<times> 'w) \<Rightarrow> (duration \<Rightarrow> 'w \<Rightarrow> 'w) \<Rightarrow> 'w
     \<Rightarrow> (unit, unit) control_flow \<times> 'w" where
  "sleep_cancellably remaining cancelled sleep w =
     (if 0 < remaining
      then (let (c, w1) = cancelled w in
            if c then (Break (), w1)
            else (let chunk = min remaining CANCEL_CHECK_INTERVAL;
                      w2 = sleep chunk w1
                  in sleep_cancellably (remaining - chunk) cancelled sleep w2))
      else (let (c, w1) = cancelled w in
            if c then (Break (), w1) else (Continue (), w1)))"

declare sleep_cancellably.simps [simp del]

definition cb_sleep_cancellably ::
  "('w, 's) wait_callbacks \<Rightarrow> duration \<Rightarrow> 'w \<Rightarrow> (unit, unit) control_flow \<times> 'w" where
  "cb_sleep_cancellably cb tot w = sleep_cancellably tot (cb_cancelled cb) (cb_sleep cb) w"

definition sleep_cancellably_until ::
  "('w \<Rightarrow> instant) \<Rightarrow> ('w, 's) wait_callbacks \<Rightarrow> instant \<Rightarrow> duration \<Rightarrow> 'w
     \<Rightarrow> (unit, unit) control_flow \<times> 'w" where
  "sleep_cancellably_until now cb deadline interval w =
     cb_sleep_cancellably cb (clamp_to_deadline (now w) interval deadline) w"

section \<open>The pieces of a sleep\<close>

text \<open>
  The reference: a sleep of \<open>tot\<close> is cut into whole intervals and one shorter rest. A scripted
  world answers the \<open>n\<close>-th reading of the flag with \<open>flag n\<close> and records the sleeps.
\<close>

definition sleep_pieces :: "duration \<Rightarrow> duration list" where
  "sleep_pieces tot =
     replicate (tot div CANCEL_CHECK_INTERVAL) CANCEL_CHECK_INTERVAL @
     (if tot mod CANCEL_CHECK_INTERVAL = 0 then [] else [tot mod CANCEL_CHECK_INTERVAL])"

record scripted =
  flag :: "nat \<Rightarrow> bool"
  reads :: nat
  slept :: "duration list"

definition script_cancelled :: "scripted \<Rightarrow> bool \<times> scripted" where
  "script_cancelled w = (flag w (reads w), w\<lparr>reads := Suc (reads w)\<rparr>)"

definition script_sleep :: "duration \<Rightarrow> scripted \<Rightarrow> scripted" where
  "script_sleep d w = w\<lparr>slept := slept w @ [d]\<rparr>"

lemmas script_defs = script_cancelled_def script_sleep_def

lemma sleep_pieces_0 [simp]: "sleep_pieces 0 = []"
  by (simp add: sleep_pieces_def)

lemma sleep_pieces_step:
  assumes "0 < tot"
  shows "sleep_pieces tot =
    min tot CANCEL_CHECK_INTERVAL # sleep_pieces (tot - min tot CANCEL_CHECK_INTERVAL)"
proof (cases "tot < CANCEL_CHECK_INTERVAL")
  case True
  with assms show ?thesis by (simp add: sleep_pieces_def)
next
  case False
  then have "tot div CANCEL_CHECK_INTERVAL = Suc ((tot - CANCEL_CHECK_INTERVAL) div CANCEL_CHECK_INTERVAL)"
    by (simp add: not_less le_div_geq)
  with False show ?thesis
    by (simp add: sleep_pieces_def not_less min_def le_mod_geq)
qed

lemma sum_sleep_pieces: "sum_list (sleep_pieces tot) = tot"
proof -
  have "tot div CANCEL_CHECK_INTERVAL * CANCEL_CHECK_INTERVAL + tot mod CANCEL_CHECK_INTERVAL = tot"
    by (rule div_mult_mod_eq)
  then show ?thesis by (auto simp: sleep_pieces_def sum_list_replicate simp del: div_mult_mod_eq)
qed

lemma sleep_pieces_bounded:
  "d \<in> set (sleep_pieces tot) \<Longrightarrow> 0 < d \<and> d \<le> CANCEL_CHECK_INTERVAL"
  by (auto simp: sleep_pieces_def less_imp_le split: if_splits)

text \<open>What the sleep does in the scripted world, when the flag first reads true at reading \<open>k\<close>.\<close>

lemma sleep_cancellably_stops:
  assumes "flag w (reads w + k)" and "\<forall>i<k. \<not> flag w (reads w + i)"
    and "k \<le> length (sleep_pieces tot)"
  shows "sleep_cancellably tot script_cancelled script_sleep w =
    (Break (), w\<lparr>reads := reads w + Suc k, slept := slept w @ take k (sleep_pieces tot)\<rparr>)"
  using assms
proof (induction k arbitrary: tot w)
  case 0
  then show ?case
    by (subst sleep_cancellably.simps) (simp add: script_defs)
next
  case (Suc k)
  then have pos: "0 < tot" by (cases "tot = 0") auto
  let ?c = "min tot CANCEL_CHECK_INTERVAL"
  let ?w = "w\<lparr>reads := Suc (reads w), slept := slept w @ [?c]\<rparr>"
  have "\<not> flag w (reads w)" using Suc.prems(2) by force
  with pos have "sleep_cancellably tot script_cancelled script_sleep w =
      sleep_cancellably (tot - ?c) script_cancelled script_sleep ?w"
    by (subst sleep_cancellably.simps) (simp add: script_defs Let_def)
  moreover have "sleep_cancellably (tot - ?c) script_cancelled script_sleep ?w =
     (Break (), ?w\<lparr>reads := reads ?w + Suc k, slept := slept ?w @ take k (sleep_pieces (tot - ?c))\<rparr>)"
  proof (rule Suc.IH)
    show "flag ?w (reads ?w + k)" using Suc.prems(1) by simp
    show "\<forall>i<k. \<not> flag ?w (reads ?w + i)"
      using Suc.prems(2) by (metis Suc_less_eq add_Suc_shift scripted.select_convs(1)
          scripted.select_convs(2) scripted.surjective scripted.update_convs(2) scripted.update_convs(3))
    show "k \<le> length (sleep_pieces (tot - ?c))"
      using Suc.prems(3) sleep_pieces_step [OF pos] by simp
  qed
  ultimately show ?case by (simp add: sleep_pieces_step [OF pos])
qed

lemma sleep_cancellably_completes:
  assumes "\<forall>i \<le> length (sleep_pieces tot). \<not> flag w (reads w + i)"
  shows "sleep_cancellably tot script_cancelled script_sleep w =
    (Continue (), w\<lparr>reads := reads w + Suc (length (sleep_pieces tot)),
                    slept := slept w @ sleep_pieces tot\<rparr>)"
  using assms
proof (induction "length (sleep_pieces tot)" arbitrary: tot w)
  case 0
  then have "tot = 0" using sleep_pieces_step [of tot] by (cases "tot = 0") auto
  with 0 show ?case
    by (subst sleep_cancellably.simps) (simp add: script_defs)
next
  case (Suc n)
  then have pos: "0 < tot" by (cases "tot = 0") auto
  let ?c = "min tot CANCEL_CHECK_INTERVAL"
  let ?w = "w\<lparr>reads := Suc (reads w), slept := slept w @ [?c]\<rparr>"
  have "\<not> flag w (reads w)" using Suc.prems by force
  with pos have "sleep_cancellably tot script_cancelled script_sleep w =
      sleep_cancellably (tot - ?c) script_cancelled script_sleep ?w"
    by (subst sleep_cancellably.simps) (simp add: script_defs Let_def)
  moreover have "sleep_cancellably (tot - ?c) script_cancelled script_sleep ?w =
     (Continue (), ?w\<lparr>reads := reads ?w + Suc (length (sleep_pieces (tot - ?c))),
        slept := slept ?w @ sleep_pieces (tot - ?c)\<rparr>)"
  proof (rule Suc.hyps(1))
    show "n = length (sleep_pieces (tot - ?c))"
      using Suc.hyps(2) sleep_pieces_step [OF pos] by simp
    show "\<forall>i\<le>length (sleep_pieces (tot - ?c)). \<not> flag ?w (reads ?w + i)"
      using Suc.prems sleep_pieces_step [OF pos] by (auto dest: spec [of _ "Suc _"])
  qed
  ultimately show ?case by (simp add: sleep_pieces_step [OF pos])
qed

section \<open>The contract of an interruptible sleep\<close>

text \<open>
  What a poll loop relies on, for a sleep \<open>slp\<close> that answers whether it ran in full: on any clock
  that no reading of the flag turns back and that a sleep of \<open>d\<close> moves by \<open>d\<close> or more, a sleep in
  full takes its duration and an interrupted one does not turn the clock back either.
\<close>

definition clock_laws ::
  "('w \<Rightarrow> instant) \<Rightarrow> ('w \<Rightarrow> bool \<times> 'w) \<Rightarrow> (duration \<Rightarrow> 'w \<Rightarrow> 'w) \<Rightarrow> bool" where
  "clock_laws now cancelled sleep \<longleftrightarrow>
     (\<forall>w. now w \<le> now (snd (cancelled w))) \<and> (\<forall>d w. now w + d \<le> now (sleep d w))"

lemma clock_lawsD:
  assumes "clock_laws now cancelled sleep"
  shows "now w \<le> now (snd (cancelled w))" and "now w + d \<le> now (sleep d w)"
  using assms by (auto simp: clock_laws_def)

locale interruptible_sleep =
  fixes slp :: "duration \<Rightarrow> ('w \<Rightarrow> bool \<times> 'w) \<Rightarrow> (duration \<Rightarrow> 'w \<Rightarrow> 'w) \<Rightarrow> 'w \<Rightarrow> bool \<times> 'w"
  assumes slp_full: "clock_laws now c s \<Longrightarrow> slp d c s w = (True, w') \<Longrightarrow> now w + d \<le> now w'"
    and slp_mono: "clock_laws now c s \<Longrightarrow> slp d c s w = (b, w') \<Longrightarrow> now w \<le> now w'"
begin

text \<open>A sleep clamped to a deadline that ran in full ends at the deadline, or an interval later.\<close>

lemma until_deadline:
  assumes "clock_laws now c s"
    and "slp (clamp_to_deadline (now w) interval deadline) c s w = (True, w')"
  shows "deadline \<le> now w' \<or> now w + interval \<le> now w'"
proof -
  have "now w + clamp_to_deadline (now w) interval deadline \<le> now w'"
    by (rule slp_full [OF assms])
  then show ?thesis by (auto simp: clamp_to_deadline_def min_def split: if_splits)
qed

end

lemma sleep_cancellably_mono:
  "clock_laws now c s \<Longrightarrow> sleep_cancellably d c s w = (r, w') \<Longrightarrow>
     now w \<le> now w' \<and> (\<not> is_break r \<longrightarrow> now w + d \<le> now w')"
proof (induction d c s w rule: sleep_cancellably.induct)
  case (1 d c s w)
  obtain x w1 where cw: "c w = (x, w1)" by (cases "c w")
  have le: "now w \<le> now w1" using clock_lawsD(1) [OF "1.prems"(1), of w] by (simp add: cw)
  show ?case
  proof (cases "0 < d \<and> \<not> x")
    case True
    let ?k = "min d CANCEL_CHECK_INTERVAL"
    have rec: "sleep_cancellably (d - ?k) c s (s ?k w1) = (r, w')"
      using "1.prems"(2) True by (subst (asm) sleep_cancellably.simps) (simp add: cw Let_def)
    have "now (s ?k w1) \<le> now w' \<and> (\<not> is_break r \<longrightarrow> now (s ?k w1) + (d - ?k) \<le> now w')"
      using "1.IH" cw True rec "1.prems"(1) by auto
    moreover have "now w1 + ?k \<le> now (s ?k w1)" using clock_lawsD(2) [OF "1.prems"(1)] .
    ultimately show ?thesis using le by (auto simp: min_def split: if_splits)
  next
    case False
    with "1.prems"(2) le show ?thesis
      by (subst (asm) sleep_cancellably.simps) (auto simp: cw split: if_splits)
  qed
qed

interpretation sc: interruptible_sleep
  "\<lambda>d c s w. (case sleep_cancellably d c s w of (r, w') \<Rightarrow> (\<not> is_break r, w'))"
  by unfold_locales (auto split: prod.splits dest: sleep_cancellably_mono)

section \<open>Properties\<close>

text \<open>C16. A cancellable sleep of any length, over a flag that answers its readings by any script:
  it reads the flag before each piece and once at the end; if the \<open>k\<close>-th reading is the first
  true one it stops right there, having slept exactly the first \<open>k\<close> pieces and reporting the
  cancel; otherwise it sleeps all the pieces. The pieces add up to the requested duration and each
  is positive and at most one second, so a cancel is honoured within a second.\<close>

theorem sleep_cancellably_exact:
  "sleep_cancellably tot script_cancelled script_sleep w =
     (case find (\<lambda>k. flag w (reads w + k)) [0..<Suc (length (sleep_pieces tot))] of
        Some k \<Rightarrow> (Break (), w\<lparr>reads := reads w + Suc k, slept := slept w @ take k (sleep_pieces tot)\<rparr>)
      | None \<Rightarrow> (Continue (), w\<lparr>reads := reads w + Suc (length (sleep_pieces tot)),
                                slept := slept w @ sleep_pieces tot\<rparr>))
   \<and> sum_list (sleep_pieces tot) = tot
   \<and> list_all (\<lambda>d. 0 < d \<and> d \<le> CANCEL_CHECK_INTERVAL) (sleep_pieces tot)"
proof (intro conjI)
  let ?ks = "[0..<Suc (length (sleep_pieces tot))]"
  let ?p = "\<lambda>k. flag w (reads w + k)"
  show "sleep_cancellably tot script_cancelled script_sleep w =
     (case find ?p ?ks of
        Some k \<Rightarrow> (Break (), w\<lparr>reads := reads w + Suc k, slept := slept w @ take k (sleep_pieces tot)\<rparr>)
      | None \<Rightarrow> (Continue (), w\<lparr>reads := reads w + Suc (length (sleep_pieces tot)),
                                slept := slept w @ sleep_pieces tot\<rparr>))"
  proof (cases "find ?p ?ks")
    case None
    then have "\<forall>i \<le> length (sleep_pieces tot). \<not> flag w (reads w + i)"
      by (simp del: upt_Suc add: find_None_iff less_Suc_eq_le)
    with None show ?thesis by (simp del: upt_Suc add: sleep_cancellably_completes)
  next
    case (Some k)
    then have "k \<le> length (sleep_pieces tot)" "flag w (reads w + k)" "\<forall>i<k. \<not> flag w (reads w + i)"
      by (auto simp del: upt_Suc simp: find_Some_iff)
    with Some show ?thesis by (simp del: upt_Suc add: sleep_cancellably_stops)
  qed
qed (simp_all add: sum_sleep_pieces list_all_iff sleep_pieces_bounded)

end
