(* ===== verification/Retry.thy ===== *)
theory Retry
  imports Pipette_Prelude
begin

text \<open>
  \<open>pipette-http/src/retry.rs\<close>: the retry policy of a download, the backoff schedule, the jitter and
  the retry loop; and \<open>range.rs\<close>: the two response headers a resumed download reads.
  The locale states what the retry loops of the other crates rely on in a schedule.
\<close>

section \<open>Definitions\<close>

record retry_policy =
  rp_attempts :: nat
  rp_first :: duration
  rp_cap :: duration
  rp_retry_after_limit :: duration

definition DOWNLOAD :: retry_policy where
  "DOWNLOAD = \<lparr>rp_attempts = 5, rp_first = from_secs 1, rp_cap = from_secs 30,
               rp_retry_after_limit = from_secs 120\<rparr>"

definition IMMEDIATE :: retry_policy where
  "IMMEDIATE = DOWNLOAD\<lparr>rp_first := 0, rp_cap := 0\<rparr>"

datatype disposition = Permanent | Transient "duration option"

definition TRANSIENT :: disposition where
  "TRANSIENT = Transient None"

definition exponential_backoff :: "nat \<Rightarrow> duration \<Rightarrow> duration \<Rightarrow> duration" where
  "exponential_backoff attempt fst_wait cap =
     (let doublings = min (attempt - 1) 31
      in min (dur_sat_mul fst_wait (2 ^ doublings)) cap)"

definition full_jitter :: "duration \<Rightarrow> nat \<Rightarrow> duration" where
  "full_jitter wait roll =
     (let mx = min (as_millis wait) u64_max
      in from_millis (roll mod (sat_add64 mx 1)))"

text \<open>\<open>random_u64\<close> is the world's: the operating system's generator, or the clock.\<close>

definition jittered :: "('w \<Rightarrow> nat \<times> 'w) \<Rightarrow> duration \<Rightarrow> 'w \<Rightarrow> duration \<times> 'w" where
  "jittered random_u64 wait w = (let (roll, w1) = random_u64 w in (full_jitter wait roll, w1))"

text \<open>An error is the list of its own message and those of its sources.\<close>

definition error_chain :: "string list \<Rightarrow> string" where
  "error_chain messages = join_str '': '' messages"

text \<open>The wait before the next attempt, or the decision to give up with the error.\<close>

definition retry_in ::
  "retry_policy \<Rightarrow> (duration \<Rightarrow> 'w \<Rightarrow> duration \<times> 'w) \<Rightarrow> nat \<Rightarrow> disposition \<Rightarrow> 'w
     \<Rightarrow> (duration \<times> 'w) option" where
  "retry_in policy jitter n disp w =
     (case disp of
        Permanent \<Rightarrow> None
      | Transient asked \<Rightarrow>
          (if rp_attempts policy \<le> n then None
           else (case asked of
                   Some d \<Rightarrow> (if rp_retry_after_limit policy < d then None else Some (d, w))
                 | None \<Rightarrow> Some (jitter (exponential_backoff n (rp_first policy) (rp_cap policy)) w))))"

function with_retries_from ::
  "retry_policy \<Rightarrow> (nat \<Rightarrow> 'w \<Rightarrow> ('e + 'a) \<times> 'w) \<Rightarrow> ('e \<Rightarrow> disposition)
     \<Rightarrow> (duration \<Rightarrow> 'w \<Rightarrow> duration \<times> 'w) \<Rightarrow> (duration \<Rightarrow> 'w \<Rightarrow> 'w) \<Rightarrow> nat \<Rightarrow> 'w
     \<Rightarrow> ('e + 'a) \<times> 'w" where
  "with_retries_from policy attempt classify jitter sleep n w =
     (let (r, w1) = attempt n w in
      case r of
        Inr x \<Rightarrow> (Inr x, w1)
      | Inl err \<Rightarrow>
          (case retry_in policy jitter n (classify err) w1 of
             None \<Rightarrow> (Inl err, w1)
           | Some (d, w2) \<Rightarrow>
               with_retries_from policy attempt classify jitter sleep (n + 1) (sleep d w2)))"
  by pat_completeness auto
termination
  by (relation "measure (\<lambda>(policy, attempt, classify, jitter, sleep, n, w). rp_attempts policy - n)")
    (auto simp: retry_in_def split: disposition.splits if_splits)

declare with_retries_from.simps [simp del]

definition with_retries ::
  "retry_policy \<Rightarrow> (nat \<Rightarrow> 'w \<Rightarrow> ('e + 'a) \<times> 'w) \<Rightarrow> ('e \<Rightarrow> disposition)
     \<Rightarrow> (duration \<Rightarrow> 'w \<Rightarrow> duration \<times> 'w) \<Rightarrow> (duration \<Rightarrow> 'w \<Rightarrow> 'w) \<Rightarrow> 'w \<Rightarrow> ('e + 'a) \<times> 'w" where
  "with_retries policy attempt classify jitter sleep w =
     with_retries_from policy attempt classify jitter sleep 1 w"

definition retrying ::
  "('w \<Rightarrow> nat \<times> 'w) \<Rightarrow> (duration \<Rightarrow> 'w \<Rightarrow> 'w) \<Rightarrow> retry_policy
     \<Rightarrow> (nat \<Rightarrow> 'w \<Rightarrow> ('e + 'a) \<times> 'w) \<Rightarrow> ('e \<Rightarrow> disposition) \<Rightarrow> 'w \<Rightarrow> ('e + 'a) \<times> 'w" where
  "retrying random_u64 thread_sleep policy attempt classify w =
     with_retries policy attempt classify (jittered random_u64) thread_sleep w"

subsection \<open>The headers of a \<open>206\<close>\<close>

text \<open>A header's text, \<open>None\<close> when it is absent or not visible ASCII (\<open>to_str\<close>).\<close>

definition strong_etag :: "string option \<Rightarrow> string option" where
  "strong_etag header =
     (case header of
        None \<Rightarrow> None
      | Some raw \<Rightarrow> (let v = trim raw in if prefix ''W/'' v then None else Some v))"

record content_range =
  cr_first :: nat
  cr_last :: nat
  cr_total :: "nat option"

definition content_range_from_header :: "string option \<Rightarrow> content_range option" where
  "content_range_from_header header =
     Option.bind header (\<lambda>v.
     Option.bind (strip_prefix ''bytes '' v) (\<lambda>rest.
     Option.bind (split_once (CHR ''/'') rest) (\<lambda>(range, tot).
     Option.bind (split_once (CHR ''-'') range) (\<lambda>(a, b).
     Option.bind (parse_u64 (trim a)) (\<lambda>first.
     Option.bind (parse_u64 (trim b)) (\<lambda>lst.
       if first \<le> lst
       then Some \<lparr>cr_first = first, cr_last = lst, cr_total = parse_u64 (trim tot)\<rparr>
       else None))))))"

section \<open>The schedule\<close>

lemma exponential_backoff_closed:
  assumes "cap \<le> DURATION_MAX"
  shows "exponential_backoff n f cap = min (f * 2 ^ min (n - 1) 31) cap"
  using assms by (auto simp: exponential_backoff_def dur_sat_mul_def Let_def min_def)

lemma exponential_backoff_le_cap: "exponential_backoff n f cap \<le> cap"
  by (simp add: exponential_backoff_def Let_def)

lemma exponential_backoff_mono: "n \<le> m \<Longrightarrow> exponential_backoff n f cap \<le> exponential_backoff m f cap"
proof -
  assume "n \<le> m"
  then have "(2::nat) ^ min (n - 1) 31 \<le> 2 ^ min (m - 1) 31"
    by (intro power_increasing) auto
  then have "f * 2 ^ min (n - 1) 31 \<le> f * 2 ^ min (m - 1) 31"
    by (rule mult_le_mono2)
  then show ?thesis
    unfolding exponential_backoff_def dur_sat_mul_def Let_def by (intro min.mono order_refl)
qed

lemma exponential_backoff_first: "f \<le> DURATION_MAX \<Longrightarrow> exponential_backoff 1 f cap = min f cap"
  by (simp add: exponential_backoff_def dur_sat_mul_def)

text \<open>What the retry loops rely on in a schedule of waits: the first wait, a cap, and waits that
  never shrink. The waits of \<open>k\<close> failures then take at most \<open>k\<close> caps in total.\<close>

locale backoff_schedule =
  fixes wait_after :: "nat \<Rightarrow> duration" and fst_wait :: duration and cap :: duration
  assumes wait_first: "wait_after 1 = min fst_wait cap"
    and wait_le_cap: "wait_after n \<le> cap"
    and wait_mono: "n \<le> m \<Longrightarrow> wait_after n \<le> wait_after m"
begin

lemma wait_ge_first: "1 \<le> n \<Longrightarrow> min fst_wait cap \<le> wait_after n"
  using wait_mono [of 1 n] unfolding wait_first .

lemma sum_waits_le: "sum_list (map wait_after ns) \<le> length ns * cap"
  by (induction ns) (auto intro: add_mono wait_le_cap)

lemma sum_waits_ge: "(\<forall>n\<in>set ns. 1 \<le> n) \<Longrightarrow> length ns * min fst_wait cap \<le> sum_list (map wait_after ns)"
proof (induction ns)
  case (Cons n ns)
  then have "min fst_wait cap \<le> wait_after n" by (intro wait_ge_first) simp
  with Cons show ?case by (simp add: add_mono)
qed simp

end

interpretation eb: backoff_schedule "\<lambda>n. exponential_backoff n f cap" "min f DURATION_MAX" cap
  by unfold_locales
    (auto simp: exponential_backoff_le_cap exponential_backoff_mono,
     simp add: exponential_backoff_def dur_sat_mul_def)

section \<open>The jitter\<close>


lemma full_jitter_reaches:
  assumes "as_millis wait < u64_max" and "m \<le> as_millis wait"
  shows "full_jitter wait m = from_millis m"
  using assms by (simp add: full_jitter_def sat_simps Let_def)

section \<open>The loop over a scripted server\<close>

text \<open>
  The world records the attempts made and the waits slept; the server's answer to attempt \<open>n\<close> is
  \<open>script n\<close>, and \<open>j\<close> is any jitter. \<open>final_attempt\<close> is the first attempt the loop does not retry.
\<close>

record retry_log =
  calls :: "nat list"
  waits :: "duration list"

definition log_attempt :: "(nat \<Rightarrow> 'e + 'a) \<Rightarrow> nat \<Rightarrow> retry_log \<Rightarrow> ('e + 'a) \<times> retry_log" where
  "log_attempt script n w = (script n, w\<lparr>calls := calls w @ [n]\<rparr>)"

definition log_sleep :: "duration \<Rightarrow> retry_log \<Rightarrow> retry_log" where
  "log_sleep d w = w\<lparr>waits := waits w @ [d]\<rparr>"

definition pure_jitter :: "(duration \<Rightarrow> duration) \<Rightarrow> duration \<Rightarrow> 'w \<Rightarrow> duration \<times> 'w" where
  "pure_jitter j d w = (j d, w)"

definition gives_up :: "retry_policy \<Rightarrow> ('e \<Rightarrow> disposition) \<Rightarrow> (nat \<Rightarrow> 'e + 'a) \<Rightarrow> nat \<Rightarrow> bool" where
  "gives_up policy classify script n =
     (case script n of
        Inr _ \<Rightarrow> True
      | Inl err \<Rightarrow>
          (case classify err of
             Permanent \<Rightarrow> True
           | Transient None \<Rightarrow> rp_attempts policy \<le> n
           | Transient (Some d) \<Rightarrow> rp_attempts policy \<le> n \<or> rp_retry_after_limit policy < d))"

definition final_attempt :: "retry_policy \<Rightarrow> ('e \<Rightarrow> disposition) \<Rightarrow> (nat \<Rightarrow> 'e + 'a) \<Rightarrow> nat" where
  "final_attempt policy classify script =
     hd (filter (gives_up policy classify script) [1..<Suc (max 1 (rp_attempts policy))])"

definition wait_before_next ::
  "retry_policy \<Rightarrow> (duration \<Rightarrow> duration) \<Rightarrow> ('e \<Rightarrow> disposition) \<Rightarrow> (nat \<Rightarrow> 'e + 'a) \<Rightarrow> nat \<Rightarrow> duration" where
  "wait_before_next policy j classify script n =
     (case script n of
        Inl err \<Rightarrow>
          (case classify err of
             Transient (Some d) \<Rightarrow> d
           | _ \<Rightarrow> j (exponential_backoff n (rp_first policy) (rp_cap policy)))
      | Inr _ \<Rightarrow> 0)"

text \<open>What every attempt keeps of the world, and what a successful one leaves, the loop does too.\<close>

lemma with_retries_invariant:
  assumes "with_retries policy attempt classify jitter sleep w = (r, w')" "I w"
    and attempt: "\<And>n w r w'. I w \<Longrightarrow> attempt n w = (r, w') \<Longrightarrow> I w' \<and> (\<forall>x. r = Inr x \<longrightarrow> Q x w')"
    and jitter: "\<And>d w. I w \<Longrightarrow> I (snd (jitter d w))" and sleep: "\<And>d w. I w \<Longrightarrow> I (sleep d w)"
  shows "I w' \<and> (\<forall>x. r = Inr x \<longrightarrow> Q x w')"
proof -
  have "I w' \<and> (\<forall>x. r = Inr x \<longrightarrow> Q x w')"
    if "with_retries_from policy attempt classify jitter sleep n w = (r, w')" "I w" for n w
    using that attempt jitter sleep
  proof (induction policy attempt classify jitter sleep n w rule: with_retries_from.induct)
    case (1 policy attempt classify jitter sleep n w)
    obtain x w1 where a: "attempt n w = (x, w1)" by fastforce
    have keep: "I w1" "\<forall>y. x = Inr y \<longrightarrow> Q y w1" using "1.prems"(3) [OF "1.prems"(2) a] by simp_all
    show ?case
    proof (cases x)
      case (Inr y)
      then show ?thesis using "1.prems"(1) a keep by (simp add: with_retries_from.simps [of policy])
    next
      case (Inl e)
      show ?thesis
      proof (cases "retry_in policy jitter n (classify e) w1")
        case None
        then show ?thesis using "1.prems"(1) a keep Inl by (simp add: with_retries_from.simps [of policy])
      next
        case (Some dw)
        obtain d w2 where dw: "dw = (d, w2)" by fastforce
        have "I w2"
          using Some dw keep(1) "1.prems"(4) [OF keep(1)]
          by (auto simp: retry_in_def split: disposition.splits option.splits if_splits) (metis snd_conv)+
        then have "I (sleep d w2)" by (rule "1.prems"(5))
        moreover have "with_retries_from policy attempt classify jitter sleep (n + 1) (sleep d w2) = (r, w')"
          using "1.prems"(1) a Inl Some dw by (simp add: with_retries_from.simps [of policy attempt classify jitter sleep n w])
        ultimately show ?thesis
          using "1.IH" [OF a [symmetric] refl Inl] Some dw "1.prems"(3-5) by blast
      qed
    qed
  qed
  from this [OF assms(1) [unfolded with_retries_def] assms(2)] show ?thesis .
qed

lemma with_retries_step_stop:
  assumes "gives_up policy classify script n"
  shows "with_retries_from policy (log_attempt script) classify (pure_jitter j) log_sleep n w =
    (script n, w\<lparr>calls := calls w @ [n]\<rparr>)"
  using assms
  by (subst with_retries_from.simps)
    (auto simp: log_attempt_def gives_up_def retry_in_def split: sum.splits disposition.splits option.splits)

lemma with_retries_step_retry:
  assumes "\<not> gives_up policy classify script n"
  shows "with_retries_from policy (log_attempt script) classify (pure_jitter j) log_sleep n w =
    with_retries_from policy (log_attempt script) classify (pure_jitter j) log_sleep (Suc n)
      (w\<lparr>calls := calls w @ [n], waits := waits w @ [wait_before_next policy j classify script n]\<rparr>)"
  using assms
  by (subst with_retries_from.simps)
    (auto simp: log_attempt_def log_sleep_def pure_jitter_def gives_up_def retry_in_def wait_before_next_def
      split: sum.splits disposition.splits option.splits)

lemma with_retries_from_run:
  assumes "n \<le> k" and "gives_up policy classify script k"
    and "\<forall>i. n \<le> i \<and> i < k \<longrightarrow> \<not> gives_up policy classify script i"
  shows "with_retries_from policy (log_attempt script) classify (pure_jitter j) log_sleep n w =
    (script k, w\<lparr>calls := calls w @ [n..<Suc k],
                  waits := waits w @ map (wait_before_next policy j classify script) [n..<k]\<rparr>)"
  using assms
proof (induction "k - n" arbitrary: n w)
  case 0
  then show ?case by (simp add: with_retries_step_stop)
next
  case (Suc d)
  then have "\<not> gives_up policy classify script n" by simp
  moreover have "n < k" using Suc.hyps(2) by simp
  ultimately show ?case
    using Suc.hyps(1) [of "Suc n"] Suc.hyps(2) Suc.prems
    by (simp add: with_retries_step_retry upt_conv_Cons del: upt_Suc)
qed

lemma gives_up_at_last: "rp_attempts policy \<le> n \<Longrightarrow> gives_up policy classify script n"
  by (auto simp: gives_up_def split: sum.splits disposition.splits option.splits)

lemma hd_filter_upt:
  assumes "P b" and "(a::nat) \<le> b"
  shows "P (hd (filter P [a..<Suc b])) \<and> a \<le> hd (filter P [a..<Suc b]) \<and> hd (filter P [a..<Suc b]) \<le> b \<and>
    (\<forall>i. a \<le> i \<and> i < hd (filter P [a..<Suc b]) \<longrightarrow> \<not> P i)"
  using assms
proof (induction "b - a" arbitrary: a)
  case 0
  then show ?case by auto
next
  case (Suc d)
  then have ab: "a < b" by simp
  show ?case
  proof (cases "P a")
    case True
    with ab show ?thesis by (auto simp: upt_conv_Cons simp del: upt_Suc)
  next
    case False
    define h where "h = hd (filter P [Suc a..<Suc b])"
    have eq: "hd (filter P [a..<Suc b]) = h"
      using ab False by (simp add: h_def upt_conv_Cons del: upt_Suc)
    have ih: "P h \<and> Suc a \<le> h \<and> h \<le> b \<and> (\<forall>i. Suc a \<le> i \<and> i < h \<longrightarrow> \<not> P i)"
      unfolding h_def by (rule Suc.hyps(1)) (use Suc.hyps(2) Suc.prems(1) ab in simp_all)
    have "\<not> P i" if "a \<le> i" "i < h" for i
      using ih False that by (cases "i = a") simp_all
    with ih show ?thesis unfolding eq by simp
  qed
qed

lemma final_attempt_props:
  fixes policy classify script
  defines "k \<equiv> final_attempt policy classify script"
  shows "gives_up policy classify script k" and "1 \<le> k" and "k \<le> max 1 (rp_attempts policy)"
    and "\<forall>i. 1 \<le> i \<and> i < k \<longrightarrow> \<not> gives_up policy classify script i"
proof -
  have "gives_up policy classify script (max 1 (rp_attempts policy))"
    by (rule gives_up_at_last) simp
  note h = hd_filter_upt [where P = "gives_up policy classify script", OF this max.cobounded1,
      folded final_attempt_def k_def]
  show "gives_up policy classify script k" and "1 \<le> k" and "k \<le> max 1 (rp_attempts policy)"
    and "\<forall>i. 1 \<le> i \<and> i < k \<longrightarrow> \<not> gives_up policy classify script i"
    using h by blast+
qed

lemma with_retries_run:
  "with_retries policy (log_attempt script) classify (pure_jitter j) log_sleep w =
     (script (final_attempt policy classify script),
      w\<lparr>calls := calls w @ [1..<Suc (final_attempt policy classify script)],
        waits := waits w @ map (wait_before_next policy j classify script)
                               [1..<final_attempt policy classify script]\<rparr>)"
  unfolding with_retries_def
  by (rule with_retries_from_run) (use final_attempt_props [of policy classify script] in blast)+


section \<open>Properties\<close>

text \<open>C17. The retry loop of a download, against a server that answers attempt \<open>n\<close> by any script
  and for any jitter: it makes exactly the attempts 1 to \<open>k\<close>, where \<open>k\<close> is the first attempt that
  succeeds, fails permanently, was the last one allowed or met a too long Retry-After; it returns the
  answer of attempt \<open>k\<close> unchanged; between two attempts it sleeps the server's Retry-After or
  else the jittered backoff; and \<open>k\<close> never exceeds the policy's attempts (but is at least 1).\<close>

theorem with_retries_exact:
  "with_retries policy (log_attempt script) classify (pure_jitter j) log_sleep w =
     (script (final_attempt policy classify script),
      w\<lparr>calls := calls w @ [1..<Suc (final_attempt policy classify script)],
        waits := waits w @ map (wait_before_next policy j classify script)
                               [1..<final_attempt policy classify script]\<rparr>)
   \<and> 1 \<le> final_attempt policy classify script
   \<and> final_attempt policy classify script \<le> max 1 (rp_attempts policy)"
  using with_retries_run final_attempt_props(2,3) by blast


text \<open>The backoff schedule doubles from the first wait up to the cap: for every attempt up to
  the 32nd the wait is exactly the first wait times two to the number of earlier failures, or the
  cap where that is smaller, and it stays at its value of the 32nd attempt afterwards.\<close>

theorem exponential_backoff_doubles:
  assumes "cap \<le> DURATION_MAX" and "1 \<le> n"
  shows "exponential_backoff n f cap =
    (if n \<le> 32 then min (f * 2 ^ (n - 1)) cap else exponential_backoff 32 f cap)"
  using assms by (auto simp: exponential_backoff_closed min_def)

theorem exponential_backoff_doubles_witness:
  "from_secs 30 \<le> DURATION_MAX \<and> exponential_backoff 4 (from_secs 1) (from_secs 30) = from_secs 8"
proof -
  have c: "from_secs 30 \<le> DURATION_MAX" by (simp add: from_secs_def DURATION_MAX_def)
  show ?thesis
    using c exponential_backoff_doubles [OF c, of 4 "from_secs 1"] by (simp add: from_secs_def)
qed

end
