(* ===== verification/Worker_Timing.thy ===== *)
theory Worker_Timing
  imports Retry Wait
begin

text \<open>
  Claim-loop timing: \<open>pipette-cli/src/client/worker/timing.rs\<close> and its port in the iOS proxy,
  \<open>tools/pipette-ios-proxy/src/timing.rs\<close>. The lease window is parsed by the same code in both.
\<close>

section \<open>Definitions\<close>

subsection \<open>The lease window\<close>

record iso_state =
  total_secs :: nat
  num :: nat
  saw_digit :: bool

definition iso_unit :: "nat \<Rightarrow> iso_state \<Rightarrow> iso_state" where
  "iso_unit secs s =
     \<lparr>total_secs = sat_add64 (total_secs s) (sat_mul64 (num s) secs), num = 0, saw_digit = False\<rparr>"

text \<open>One turn of the loop over the characters: \<open>None\<close> is the early return.\<close>

definition iso_char :: "char \<Rightarrow> iso_state \<Rightarrow> iso_state option" where
  "iso_char ch s =
     (case digit_of ch of
        Some d \<Rightarrow> Some (s\<lparr>saw_digit := True, num := sat_add64 (sat_mul64 (num s) 10) d\<rparr>)
      | None \<Rightarrow>
          (if ch \<in> {CHR ''H'', CHR ''h''} \<and> saw_digit s then Some (iso_unit 3600 s)
           else if ch \<in> {CHR ''M'', CHR ''m''} \<and> saw_digit s then Some (iso_unit 60 s)
           else if ch \<in> {CHR ''S'', CHR ''s''} \<and> saw_digit s then Some (iso_unit 1 s)
           else None))"

fun iso_chars :: "string \<Rightarrow> iso_state \<Rightarrow> iso_state option" where
  "iso_chars [] s = Some s"
| "iso_chars (c # cs) s = Option.bind (iso_char c s) (iso_chars cs)"

definition parse_iso8601_duration :: "string \<Rightarrow> duration option" where
  "parse_iso8601_duration raw =
     (let s = trim raw in
      case (case strip_prefix ''PT'' s of Some r \<Rightarrow> Some r | None \<Rightarrow> strip_prefix ''pt'' s) of
        None \<Rightarrow> None
      | Some rest \<Rightarrow>
          (if rest = [] then None
           else (case iso_chars rest \<lparr>total_secs = 0, num = 0, saw_digit = False\<rparr> of
                   None \<Rightarrow> None
                 | Some st \<Rightarrow> (if saw_digit st then None else Some (from_secs (total_secs st))))))"

definition resolve_heartbeat_interval :: "string \<Rightarrow> nat option \<Rightarrow> duration" where
  "resolve_heartbeat_interval time_window override_secs =
     (let window = (case parse_iso8601_duration time_window of
                      Some d \<Rightarrow> d | None \<Rightarrow> from_secs (10 * 60));
          half = (let h = window div 2 in if h = 0 then from_secs 1 else h)
      in case override_secs of Some secs \<Rightarrow> from_secs (max secs 1) | None \<Rightarrow> half)"

subsection \<open>Idle waits and retries\<close>

definition DEFAULT_IDLE_WAIT :: duration where "DEFAULT_IDLE_WAIT = from_secs (5 * 60)"
definition DEFAULT_IDLE_JITTER :: duration where "DEFAULT_IDLE_JITTER = from_secs 60"

text \<open>\<open>Duration + Duration\<close> panics past \<open>Duration::MAX\<close>: \<open>None\<close>.\<close>

definition idle_wait_with_jitter ::
  "('w \<Rightarrow> nat \<times> 'w) \<Rightarrow> duration \<Rightarrow> duration \<Rightarrow> 'w \<Rightarrow> duration option \<times> 'w" where
  "idle_wait_with_jitter random_u64 base jitter w =
     (let (j, w1) = jittered random_u64 jitter w
      in (if base + j \<le> DURATION_MAX then Some (base + j) else None, w1))"

fun retry_with_backoff ::
  "nat list \<Rightarrow> duration \<Rightarrow> duration \<Rightarrow> (nat \<Rightarrow> 'w \<Rightarrow> ('a, unit) control_flow \<times> 'w)
     \<Rightarrow> (duration \<Rightarrow> 'w \<Rightarrow> (unit, unit) control_flow \<times> 'w) \<Rightarrow> 'w \<Rightarrow> 'a option \<times> 'w" where
  "retry_with_backoff [] fst_wait cap attempt sleep w = (None, w)"
| "retry_with_backoff (n # ns) fst_wait cap attempt sleep w =
     (let (r, w1) = attempt n w in
      case r of
        Break answer \<Rightarrow> (Some answer, w1)
      | Continue _ \<Rightarrow>
          (let (c, w2) = sleep (exponential_backoff n fst_wait cap) w1 in
           if is_break c then (None, w2)
           else retry_with_backoff ns fst_wait cap attempt sleep w2))"

subsection \<open>The iOS proxy's own waits\<close>

text \<open>\<open>offset\<close> is what \<open>fastrand\<close> drew from \<open>0..=2 * jitter_secs\<close>.\<close>

definition ios_idle_wait_with_jitter ::
  "(nat \<Rightarrow> 'w \<Rightarrow> nat \<times> 'w) \<Rightarrow> duration \<Rightarrow> duration \<Rightarrow> 'w \<Rightarrow> duration \<times> 'w" where
  "ios_idle_wait_with_jitter fastrand base jitter w =
     (let jitter_secs = as_secs jitter in
      if jitter_secs = 0 then (base, w)
      else (let (offset, w1) = fastrand (sat_mul64 jitter_secs 2) w
            in (dur_sat_add base (from_secs offset) - from_secs jitter_secs, w1)))"

definition next_backoff :: "duration \<Rightarrow> duration \<Rightarrow> duration" where
  "next_backoff current cap = (let doubled = dur_sat_mul current 2 in if cap < doubled then cap else doubled)"

definition SLEEP_SLICE :: duration where "SLEEP_SLICE = from_secs 1"

lemma SLEEP_SLICE_pos [simp]: "0 < SLEEP_SLICE"
  by (simp add: SLEEP_SLICE_def from_secs_def)

fun sleep_interruptible ::
  "duration \<Rightarrow> ('w \<Rightarrow> bool \<times> 'w) \<Rightarrow> (duration \<Rightarrow> 'w \<Rightarrow> 'w) \<Rightarrow> 'w \<Rightarrow> bool \<times> 'w" where
  "sleep_interruptible left stop sleep w =
     (if left \<noteq> 0
      then (let (s, w1) = stop w in
            if s then (False, w1)
            else (let slice = (if SLEEP_SLICE < left then SLEEP_SLICE else left)
                  in sleep_interruptible (left - slice) stop sleep (sleep slice w1)))
      else (let (s, w1) = stop w in (\<not> s, w1)))"

declare sleep_interruptible.simps [simp del]

section \<open>The two sleeps agree\<close>

text \<open>The proxy's sleep and the \<open>pipette-wait\<close> sleep are the same routine, so the proxy's also
  meets the contract of an interruptible sleep.\<close>

lemma sleep_interruptible_eq:
  "sleep_interruptible d stop sleep w =
     (case sleep_cancellably d stop sleep w of (r, w') \<Rightarrow> (\<not> is_break r, w'))"
proof (induction d stop sleep w rule: sleep_interruptible.induct)
  case (1 d stop sleep w)
  have slice: "(if SLEEP_SLICE < d then SLEEP_SLICE else d) = min d CANCEL_CHECK_INTERVAL"
    by (simp add: SLEEP_SLICE_def CANCEL_CHECK_INTERVAL_def min_def)
  obtain x w1 where st: "stop w = (x, w1)" by (cases "stop w")
  show ?case
  proof (cases "d \<noteq> 0 \<and> \<not> x")
    case True
    let ?k = "min d CANCEL_CHECK_INTERVAL"
    have "sleep_interruptible d stop sleep w = sleep_interruptible (d - ?k) stop sleep (sleep ?k w1)"
      using True by (subst sleep_interruptible.simps) (simp only: st slice Let_def, simp)
    also have "\<dots> = (case sleep_cancellably (d - ?k) stop sleep (sleep ?k w1) of (r, w') \<Rightarrow> (\<not> is_break r, w'))"
      by (rule "1.IH" [unfolded slice]) (use True st in auto)
    also have "sleep_cancellably (d - ?k) stop sleep (sleep ?k w1) = sleep_cancellably d stop sleep w"
      using True by (subst (2) sleep_cancellably.simps) (simp add: st Let_def)
    finally show ?thesis .
  next
    case False
    then show ?thesis
      by (subst sleep_interruptible.simps, subst sleep_cancellably.simps) (auto simp: st)
  qed
qed

interpretation si: interruptible_sleep sleep_interruptible
  by unfold_locales
    (auto simp: sleep_interruptible_eq split: prod.splits dest: sleep_cancellably_mono)

section \<open>The proxy's doubling backoff is a schedule\<close>

definition backoff_after :: "duration \<Rightarrow> duration \<Rightarrow> nat \<Rightarrow> duration" where
  "backoff_after f cap n = ((\<lambda>d. next_backoff d cap) ^^ (n - 1)) (min f cap)"

lemma next_backoff_alt: "next_backoff d cap = min (dur_sat_mul d 2) cap"
  by (simp add: next_backoff_def Let_def min_def)

lemma next_backoff_grows: "d \<le> cap \<Longrightarrow> cap \<le> DURATION_MAX \<Longrightarrow> d \<le> next_backoff d cap"
  by (simp add: next_backoff_alt dur_sat_mul_def)

lemma backoff_after_step:
  "1 \<le> n \<Longrightarrow> backoff_after f cap (Suc n) = next_backoff (backoff_after f cap n) cap"
  by (cases n) (simp_all add: backoff_after_def)

lemma backoff_after_le: "backoff_after f cap n \<le> cap"
proof (cases "n - 1")
  case 0
  then show ?thesis by (simp add: backoff_after_def)
next
  case (Suc m)
  then show ?thesis by (simp add: backoff_after_def next_backoff_alt)
qed

lemma backoff_after_exponential:
  assumes "cap \<le> DURATION_MAX" and "1 \<le> n" and "n \<le> 32"
  shows "backoff_after f cap n = exponential_backoff n f cap"
  using assms(2,3)
proof (induction n rule: nat_induct_at_least)
  case base
  then show ?case using assms(1) by (simp add: backoff_after_def exponential_backoff_closed)
next
  case (Suc n)
  then have "backoff_after f cap (Suc n) = next_backoff (exponential_backoff n f cap) cap"
    by (simp add: backoff_after_step)
  moreover obtain m where "n = Suc m" using Suc.hyps by (cases n) auto
  ultimately show ?case using Suc.prems assms(1)
    by (auto simp: exponential_backoff_closed next_backoff_alt dur_sat_mul_def min_def)
qed

lemma backoff_after_mono:
  assumes "cap \<le> DURATION_MAX"
  shows "n \<le> m \<Longrightarrow> backoff_after f cap n \<le> backoff_after f cap m"
proof (induction m)
  case 0
  then show ?case by simp
next
  case (Suc m)
  show ?case
  proof (cases "n = Suc m \<or> m = 0")
    case True
    then show ?thesis using Suc.prems by (auto simp: backoff_after_def le_Suc_eq)
  next
    case False
    with Suc have "backoff_after f cap n \<le> backoff_after f cap m" by simp
    also have "\<dots> \<le> next_backoff (backoff_after f cap m) cap"
      by (rule next_backoff_grows [OF backoff_after_le assms])
    finally show ?thesis using False by (simp add: backoff_after_step)
  qed
qed

interpretation ib: backoff_schedule "backoff_after f (min cap DURATION_MAX)" f "min cap DURATION_MAX"
proof unfold_locales
  show "backoff_after f (min cap DURATION_MAX) 1 = min f (min cap DURATION_MAX)"
    by (simp add: backoff_after_def)
  show "backoff_after f (min cap DURATION_MAX) n \<le> min cap DURATION_MAX" for n
    by (rule backoff_after_le)
  show "n \<le> m \<Longrightarrow> backoff_after f (min cap DURATION_MAX) n \<le> backoff_after f (min cap DURATION_MAX) m" for n m
    by (rule backoff_after_mono) simp_all
qed

section \<open>The grammar of the lease window\<close>

text \<open>A segment is a run of digits and its unit; the reference value is exact arithmetic, clamped
  to \<open>u64\<close> once at the end.\<close>

type_synonym iso_seg = "string \<times> char"

definition unit_secs :: "char \<Rightarrow> nat option" where
  "unit_secs u =
     (if u \<in> {CHR ''H'', CHR ''h''} then Some 3600
      else if u \<in> {CHR ''M'', CHR ''m''} then Some 60
      else if u \<in> {CHR ''S'', CHR ''s''} then Some 1 else None)"

definition is_digit :: "char \<Rightarrow> bool" where
  "is_digit c \<longleftrightarrow> digit_of c \<noteq> None"

definition digits_num :: "nat \<Rightarrow> string \<Rightarrow> nat" where
  "digits_num acc ds = fold (\<lambda>c n. n * 10 + the (digit_of c)) ds acc"

fun seg_ok :: "iso_seg \<Rightarrow> bool" where
  "seg_ok (ds, u) = (ds \<noteq> [] \<and> list_all is_digit ds \<and> unit_secs u \<noteq> None)"

fun seg_text :: "iso_seg \<Rightarrow> string" where
  "seg_text (ds, u) = ds @ [u]"

fun seg_secs :: "iso_seg \<Rightarrow> nat" where
  "seg_secs (ds, u) = digits_num 0 ds * the (unit_secs u)"

lemma unit_letters_not_digits:
  "list_all (\<lambda>c. digit_of c = None) ''HhMmSs''"
  by (simp add: digit_of_def Let_def)

lemma unit_not_digit: "unit_secs u = Some k \<Longrightarrow> digit_of u = None \<and> 1 \<le> k"
  using unit_letters_not_digits by (auto simp: unit_secs_def split: if_split_asm)

lemma iso_char_unit:
  "unit_secs u = Some k \<Longrightarrow> iso_char u s = (if saw_digit s then Some (iso_unit k s) else None)"
  using unit_not_digit [of u k]
  by (auto simp: iso_char_def unit_secs_def split: if_splits)

lemma iso_char_other:
  "digit_of c = None \<Longrightarrow> unit_secs c = None \<Longrightarrow> iso_char c s = None"
  by (auto simp: iso_char_def unit_secs_def split: if_splits)

lemma sat_num: "sat_add64 (sat_mul64 (min a u64_max) 10) d = min (a * 10 + d) u64_max"
proof (cases "a \<le> u64_max")
  case True
  then show ?thesis unfolding sat_simps by simp
next
  case False
  then have "u64_max \<le> a * 10 + d" "u64_max \<le> u64_max * 10" by linarith+
  with False show ?thesis unfolding sat_simps by simp
qed

lemma sat_secs: "1 \<le> k \<Longrightarrow> sat_add64 (min t u64_max) (sat_mul64 (min a u64_max) k) = min (t + a * k) u64_max"
proof -
  assume k: "1 \<le> k"
  have "min (min a u64_max * k) u64_max = min (a * k) u64_max"
  proof (cases "a \<le> u64_max")
    case False
    have "u64_max * 1 \<le> u64_max * k" and "u64_max * 1 \<le> a * k"
      using k False by (intro mult_le_mono; simp)+
    with False show ?thesis by simp
  qed simp
  then have "sat_mul64 (min a u64_max) k = min (a * k) u64_max" by (simp add: sat_mul64_def)
  then show ?thesis by (auto simp: sat_add64_def)
qed

lemma iso_chars_digits:
  "list_all is_digit ds \<Longrightarrow>
   iso_chars (ds @ r) (s\<lparr>num := min a u64_max\<rparr>) =
   iso_chars r (s\<lparr>num := min (digits_num a ds) u64_max, saw_digit := saw_digit s \<or> ds \<noteq> []\<rparr>)"
proof (induction ds arbitrary: s a)
  case Nil
  then show ?case by (simp add: digits_num_def)
next
  case (Cons c ds)
  then obtain d where d: "digit_of c = Some d" by (auto simp: is_digit_def)
  have "iso_chars ((c # ds) @ r) (s\<lparr>num := min a u64_max\<rparr>) =
      iso_chars (ds @ r) ((s\<lparr>saw_digit := True\<rparr>)\<lparr>num := min (a * 10 + d) u64_max\<rparr>)"
    by (simp add: iso_char_def d sat_num)
  also have "\<dots> = iso_chars r ((s\<lparr>saw_digit := True\<rparr>)\<lparr>num := min (digits_num (a * 10 + d) ds) u64_max,
      saw_digit := saw_digit (s\<lparr>saw_digit := True\<rparr>) \<or> ds \<noteq> []\<rparr>)"
    by (rule Cons.IH) (use Cons.prems in simp)
  finally show ?case by (simp add: digits_num_def d)
qed

lemma iso_chars_segs:
  "list_all seg_ok segs \<Longrightarrow>
   iso_chars (concat (map seg_text segs)) \<lparr>total_secs = min t u64_max, num = 0, saw_digit = False\<rparr> =
   Some \<lparr>total_secs = min (t + sum_list (map seg_secs segs)) u64_max, num = 0, saw_digit = False\<rparr>"
proof (induction segs arbitrary: t)
  case Nil
  then show ?case by simp
next
  case (Cons seg segs)
  obtain ds u where seg: "seg = (ds, u)" by (cases seg)
  with Cons.prems obtain k where k: "unit_secs u = Some k" "ds \<noteq> []" "list_all is_digit ds" by auto
  let ?s = "\<lparr>total_secs = min t u64_max, num = 0, saw_digit = False\<rparr>"
  have "iso_chars (ds @ u # concat (map seg_text segs)) (?s\<lparr>num := min 0 u64_max\<rparr>) =
      iso_chars (concat (map seg_text segs))
        \<lparr>total_secs = min (t + digits_num 0 ds * k) u64_max, num = 0, saw_digit = False\<rparr>"
    by (simp only: iso_chars_digits [OF k(3)])
      (simp add: iso_char_unit [OF k(1)] k(2) iso_unit_def
        sat_secs [OF unit_not_digit [OF k(1), THEN conjunct2]])
  with Cons seg k show ?case by (simp add: add.assoc)
qed

lemma iso_chars_split:
  "iso_chars cs s = Some st \<Longrightarrow> \<not> saw_digit st \<Longrightarrow>
   if saw_digit s
   then \<exists>ds u segs. cs = ds @ u # concat (map seg_text segs) \<and> list_all is_digit ds \<and>
          unit_secs u \<noteq> None \<and> list_all seg_ok segs
   else \<exists>segs. cs = concat (map seg_text segs) \<and> list_all seg_ok segs"
proof (induction cs arbitrary: s)
  case Nil
  then show ?case by (auto intro: exI [of _ "[]"])
next
  case (Cons c cs)
  from Cons.prems(1) obtain s' where s': "iso_char c s = Some s'" "iso_chars cs s' = Some st"
    by (auto simp: bind_eq_Some_conv)
  note ih = Cons.IH [OF s'(2) Cons.prems(2)]
  show ?case
  proof (cases "digit_of c")
    case (Some d)
    then have "saw_digit s'" using s'(1) by (auto simp: iso_char_def)
    with ih obtain ds u segs where
      cs: "cs = ds @ u # concat (map seg_text segs)" "list_all is_digit ds" "unit_secs u \<noteq> None"
        "list_all seg_ok segs" by auto
    have open_seg: "c # cs = (c # ds) @ u # concat (map seg_text segs)" "list_all is_digit (c # ds)"
      using cs Some by (auto simp: is_digit_def)
    have new_seg: "c # cs = concat (map seg_text ((c # ds, u) # segs))" "list_all seg_ok ((c # ds, u) # segs)"
      using cs Some by (auto simp: is_digit_def)
    show ?thesis
    proof (cases "saw_digit s")
      case True
      show ?thesis unfolding if_P [OF True]
        by (intro exI [of _ "c # ds"] exI [of _ u] exI [of _ segs] conjI open_seg cs(3) cs(4))
    next
      case False
      show ?thesis unfolding if_not_P [OF False]
        by (intro exI [of _ "(c # ds, u) # segs"] conjI new_seg)
    qed
  next
    case None
    then obtain k where k: "unit_secs c = Some k" using s'(1) iso_char_other [of c s] by fastforce
    with s'(1) have "saw_digit s" "\<not> saw_digit s'"
      by (auto simp: iso_char_unit iso_unit_def split: if_splits)
    with ih obtain segs where "cs = concat (map seg_text segs)" "list_all seg_ok segs" by auto
    with k \<open>saw_digit s\<close> show ?thesis
      by (auto intro!: exI [of _ "[]"] exI [of _ c] exI [of _ segs])
  qed
qed

lemma iso_body_Some:
  "(case strip_prefix ''PT'' s of Some r \<Rightarrow> Some r | None \<Rightarrow> strip_prefix ''pt'' s) = Some rest
   \<longleftrightarrow> s = ''PT'' @ rest \<or> s = ''pt'' @ rest" (is "?l = _ \<longleftrightarrow> _")
proof (cases "strip_prefix ''PT'' s")
  case None
  then have "s \<noteq> ''PT'' @ rest" using strip_prefix_Some by fastforce
  then show ?thesis using None by (simp add: strip_prefix_Some)
next
  case (Some r)
  then have s: "s = ''PT'' @ r" by (simp add: strip_prefix_Some)
  show ?thesis unfolding Some s by auto
qed

lemma parse_iso_Some:
  "parse_iso8601_duration raw = Some d \<longleftrightarrow>
     (\<exists>rest st. (trim raw = ''PT'' @ rest \<or> trim raw = ''pt'' @ rest) \<and> rest \<noteq> []
        \<and> iso_chars rest \<lparr>total_secs = 0, num = 0, saw_digit = False\<rparr> = Some st
        \<and> \<not> saw_digit st \<and> d = from_secs (total_secs st))"
proof -
  define body where
    "body = (case strip_prefix ''PT'' (trim raw) of Some r \<Rightarrow> Some r | None \<Rightarrow> strip_prefix ''pt'' (trim raw))"
  show ?thesis
    unfolding parse_iso8601_duration_def Let_def iso_body_Some [symmetric] body_def [symmetric]
    by (auto split: option.splits)
qed

text \<open>The text of a lease window made of the segments.\<close>

definition window_text :: "string \<Rightarrow> iso_seg list \<Rightarrow> bool" where
  "window_text s segs \<longleftrightarrow>
     s = ''PT'' @ concat (map seg_text segs) \<or> s = ''pt'' @ concat (map seg_text segs)"

lemma parse_iso_segs:
  assumes "parse_iso8601_duration raw = Some d"
  obtains segs where "segs \<noteq> []" "list_all seg_ok segs" "window_text (trim raw) segs"
    "d = from_secs (min (sum_list (map seg_secs segs)) u64_max)"
proof -
  let ?init = "\<lparr>total_secs = 0, num = 0, saw_digit = False\<rparr>"
  from assms obtain rest st where
    rest: "trim raw = ''PT'' @ rest \<or> trim raw = ''pt'' @ rest" "rest \<noteq> []"
    and st: "iso_chars rest ?init = Some st" "\<not> saw_digit st" "d = from_secs (total_secs st)"
    unfolding parse_iso_Some by blast
  from iso_chars_split [OF st(1,2)] obtain segs where
    segs: "rest = concat (map seg_text segs)" "list_all seg_ok segs"
    by (auto simp only: iso_state.simps if_False)
  have total: "total_secs st = min (sum_list (map seg_secs segs)) u64_max"
    using iso_chars_segs [OF segs(2), of 0] st(1) segs(1) by force
  have "segs \<noteq> []" using segs(1) rest(2) by auto
  then show ?thesis
    using segs(2) rest(1) [unfolded segs(1), folded window_text_def] st(3) [unfolded total]
    by (rule that)
qed

lemma segs_parse_iso:
  assumes "segs \<noteq> []" and ok: "list_all seg_ok segs" and wt: "window_text (trim raw) segs"
  shows "parse_iso8601_duration raw = Some (from_secs (min (sum_list (map seg_secs segs)) u64_max))"
proof -
  define st where "st = \<lparr>total_secs = min (sum_list (map seg_secs segs)) u64_max, num = 0, saw_digit = False\<rparr>"
  have "iso_chars (concat (map seg_text segs)) \<lparr>total_secs = 0, num = 0, saw_digit = False\<rparr> = Some st"
    using iso_chars_segs [OF ok, of 0] by (simp add: st_def)
  moreover have "concat (map seg_text segs) \<noteq> []" using assms(1) by (cases segs) auto
  moreover have "\<not> saw_digit st" "total_secs st = min (sum_list (map seg_secs segs)) u64_max"
    by (simp_all add: st_def)
  ultimately show ?thesis
    unfolding parse_iso_Some using wt [unfolded window_text_def] by metis
qed

section \<open>Properties\<close>

text \<open>C19. The lease-window parser accepts exactly its grammar: after trimming, \<open>PT\<close> or \<open>pt\<close>
  and one segment or more, each a run of digits followed by H, M or S in either case (so a trailing
  unitless number, an empty body or a repeated unit letter is refused); and the window is the exact
  sum of the segments in seconds, clamped to the largest \<open>u64\<close>.\<close>

theorem parse_iso8601_duration_grammar:
  "parse_iso8601_duration raw = Some d \<longleftrightarrow>
     (\<exists>segs. segs \<noteq> [] \<and> list_all seg_ok segs \<and> window_text (trim raw) segs
        \<and> d = from_secs (min (sum_list (map seg_secs segs)) u64_max))"
proof
  assume "parse_iso8601_duration raw = Some d"
  then show "\<exists>segs. segs \<noteq> [] \<and> list_all seg_ok segs \<and> window_text (trim raw) segs
      \<and> d = from_secs (min (sum_list (map seg_secs segs)) u64_max)"
    by (rule parse_iso_segs) blast
qed (auto simp only: segs_parse_iso)

lemma half_window_twice:
  assumes "parse_iso8601_duration time_window = Some window" "window \<noteq> 0"
  shows "2 * resolve_heartbeat_interval time_window None \<le> window"
proof -
  have "1000000000 dvd window"
    using assms(1) by (auto simp only: parse_iso_Some from_secs_def dvd_triv_right)
  then have "2 \<le> window" using assms(2) by (auto dest: dvd_imp_le)
  then show ?thesis
    using assms(1) by (auto simp: resolve_heartbeat_interval_def Let_def from_secs_def)
qed

text \<open>The heartbeat period is never zero, and a worker without an override beats at least
  twice within any lease window that is longer than zero.\<close>

theorem heartbeat_twice_per_window:
  "0 < resolve_heartbeat_interval time_window override_secs
   \<and> (case parse_iso8601_duration time_window of
        Some window \<Rightarrow> window = 0 \<or> 2 * resolve_heartbeat_interval time_window None \<le> window
      | None \<Rightarrow> resolve_heartbeat_interval time_window None = from_secs 300)"
proof
  show "0 < resolve_heartbeat_interval time_window override_secs"
    by (auto simp: resolve_heartbeat_interval_def Let_def from_secs_def split: option.splits)
  show "case parse_iso8601_duration time_window of
        Some window \<Rightarrow> window = 0 \<or> 2 * resolve_heartbeat_interval time_window None \<le> window
      | None \<Rightarrow> resolve_heartbeat_interval time_window None = from_secs 300"
  proof (cases "parse_iso8601_duration time_window")
    case None
    then show ?thesis by (simp add: resolve_heartbeat_interval_def from_secs_def)
  next
    case (Some window)
    then show ?thesis using half_window_twice by auto
  qed
qed

text \<open>The iOS proxy's interruptible sleep and the doubling of its backoff are the routines
  the host worker uses: the sleep gives the same answer and leaves the same world as
  \<open>pipette_wait::sleep_cancellably\<close>, and the \<open>n\<close>-th wait of the doubling is
  \<open>exponential_backoff\<close> of \<open>n\<close> for all 32 attempts a submit may take.\<close>

theorem ios_timing_agrees:
  assumes "cap \<le> DURATION_MAX" and "1 \<le> n" and "n \<le> 32"
  shows "backoff_after f cap n = exponential_backoff n f cap
    \<and> sleep_interruptible d stop sleep w =
        (case sleep_cancellably d stop sleep w of (r, w') \<Rightarrow> (\<not> is_break r, w'))"
  by (intro conjI backoff_after_exponential [OF assms] sleep_interruptible_eq)

theorem ios_timing_agrees_witness:
  "backoff_after (from_secs 1) (from_secs 30) 6 = from_secs 30
   \<and> fst (sleep_interruptible (from_secs 2) script_cancelled script_sleep
            \<lparr>flag = (\<lambda>n. n = 1), reads = 0, slept = []\<rparr>) = False"
proof -
  define w where "w = \<lparr>flag = (\<lambda>n. n = Suc 0), reads = 0, slept = []\<rparr>"
  have pos: "0 < from_secs 2" by (simp add: from_secs_def)
  have "fst (sleep_cancellably (from_secs 2) script_cancelled script_sleep w) = Break ()"
    by (subst sleep_cancellably_stops [where k = 1])
      (simp_all add: w_def sleep_pieces_step [OF pos])
  moreover have cap: "from_secs 30 \<le> DURATION_MAX" by (simp add: DURATION_MAX_def from_secs_def)
  moreover have "exponential_backoff 6 (from_secs 1) (from_secs 30) = from_secs 30"
    unfolding exponential_backoff_closed [OF cap] by (simp add: from_secs_def)
  ultimately show ?thesis
    using ios_timing_agrees [OF cap, of 6 "from_secs 1" "from_secs 2" script_cancelled script_sleep w]
    by (simp add: w_def split: prod.splits)
qed

end
