(* ===== verification/Quota.thy ===== *)
theory Quota
  imports Pipette_Prelude "HOL-Library.Product_Lexorder" "HOL-Library.Option_ord" "HOL-Library.Multiset"
begin

text \<open>
  The storage quota, \<open>pipette-artifacts/src/quota.rs\<close>: what an entry is, the survey in sweep
  order, the never-evict set, the eviction plan, and the sweep loop. The survey and the removal of
  an entry are operations on a world here (\<open>Store_Scan\<close> gives them on a file system). A time stamp
  is an integer, a storage key and a path are the types of their own values.
\<close>

section \<open>Definitions\<close>

subsection \<open>Entries and the survey\<close>

type_synonym storage_key = string

datatype quota_error = Oversize string nat nat

datatype entry_kind =
  Garbage string
| Model storage_key int int
| Runtime storage_key int int bool

fun last_used_at :: "entry_kind \<Rightarrow> int option" where
  "last_used_at (Garbage _) = None"
| "last_used_at (Model _ used _) = Some used"
| "last_used_at (Runtime _ used _ _) = Some used"

fun fetched_at :: "entry_kind \<Rightarrow> int option" where
  "fetched_at (Garbage _) = None"
| "fetched_at (Model _ _ fetched) = Some fetched"
| "fetched_at (Runtime _ _ fetched _) = Some fetched"

fun rank :: "entry_kind \<Rightarrow> nat" where
  "rank (Garbage _) = 0"
| "rank (Model _ _ _) = 1"
| "rank (Runtime _ _ _ _) = 2"

record storage_entry =
  entry_path :: fs_path
  label :: string
  size_bytes :: nat
  kind :: entry_kind

record storage_survey =
  entries :: "storage_entry list"
  used_bytes :: nat

definition sweep_key :: "storage_entry \<Rightarrow> nat \<times> int option \<times> int option" where
  "sweep_key e = (rank (kind e), last_used_at (kind e), fetched_at (kind e))"

definition survey_new :: "storage_entry list \<Rightarrow> storage_survey" where
  "survey_new es =
     (let sorted_es = sort_key sweep_key es
      in \<lparr>entries = sorted_es, used_bytes = fold (\<lambda>e total. sat_add64 total (size_bytes e)) sorted_es 0\<rparr>)"

subsection \<open>Pins, plan and report\<close>

record sweep_pins =
  pin_models :: "storage_key set"
  pin_runtimes :: "storage_key set"

definition no_pins :: sweep_pins where "no_pins = \<lparr>pin_models = {}, pin_runtimes = {}\<rparr>"

text \<open>\<open>ModelStorageKey::of\<close> of the declared model, \<open>None\<close> when it has no key.\<close>

definition with_model :: "storage_key option \<Rightarrow> sweep_pins \<Rightarrow> sweep_pins" where
  "with_model key pins = (case key of None \<Rightarrow> pins | Some k \<Rightarrow> pins\<lparr>pin_models := insert k (pin_models pins)\<rparr>)"

definition with_runtime :: "storage_key option \<Rightarrow> sweep_pins \<Rightarrow> sweep_pins" where
  "with_runtime key pins = (case key of None \<Rightarrow> pins | Some k \<Rightarrow> pins\<lparr>pin_runtimes := insert k (pin_runtimes pins)\<rparr>)"

definition for_cell :: "storage_key option \<Rightarrow> storage_key option \<Rightarrow> sweep_pins" where
  "for_cell model runtime = with_runtime runtime (with_model model no_pins)"

definition merge_pins :: "sweep_pins \<Rightarrow> sweep_pins \<Rightarrow> sweep_pins" where
  "merge_pins pins other =
     \<lparr>pin_models = pin_models pins \<union> pin_models other, pin_runtimes = pin_runtimes pins \<union> pin_runtimes other\<rparr>"

record sweep_plan =
  evictions :: "storage_entry list"
  plan_freed :: nat
  still_over_by_bytes :: "nat option"

record sweep_report =
  removed :: "storage_entry list"
  failed :: "(storage_entry \<times> string) list"
  freed_bytes :: nat

definition empty_report :: sweep_report where
  "empty_report = \<lparr>removed = [], failed = [], freed_bytes = 0\<rparr>"

fun is_garbage :: "entry_kind \<Rightarrow> bool" where
  "is_garbage (Garbage _) = True"
| "is_garbage _ = False"

definition is_candidate :: "storage_entry \<Rightarrow> sweep_pins \<Rightarrow> bool" where
  "is_candidate e pins =
     (case kind e of
        Garbage _ \<Rightarrow> True
      | Model key _ _ \<Rightarrow> key \<notin> pin_models pins
      | Runtime key _ _ evictable \<Rightarrow> evictable \<and> key \<notin> pin_runtimes pins)"

fun plan_loop ::
  "nat \<Rightarrow> nat \<Rightarrow> sweep_pins \<Rightarrow> storage_entry list \<Rightarrow> nat \<Rightarrow> storage_entry list \<Rightarrow> nat \<times> storage_entry list" where
  "plan_loop used quota pins [] freed evs = (freed, evs)"
| "plan_loop used quota pins (e # es) freed evs =
     (let over_quota = quota < used - freed
      in if \<not> over_quota \<and> \<not> is_garbage (kind e) then (freed, evs)
         else if \<not> is_candidate e pins then plan_loop used quota pins es freed evs
         else plan_loop used quota pins es (sat_add64 freed (size_bytes e)) (evs @ [e]))"

definition plan :: "storage_survey \<Rightarrow> nat \<Rightarrow> sweep_pins \<Rightarrow> sweep_plan" where
  "plan survey quota pins =
     (let (freed, evs) = plan_loop (used_bytes survey) quota pins (entries survey) 0 [];
          remaining = used_bytes survey - freed
      in \<lparr>evictions = evs, plan_freed = freed,
          still_over_by_bytes = (if quota < remaining then Some (remaining - quota) else None)\<rparr>)"

definition refuse_if_oversize :: "string \<Rightarrow> nat option \<Rightarrow> nat \<Rightarrow> quota_error + unit" where
  "refuse_if_oversize artifact declared quota =
     (case declared of
        Some needed \<Rightarrow> (if quota < needed then Inl (Oversize artifact needed quota) else Inr ())
      | None \<Rightarrow> Inr ())"

subsection \<open>Applying a plan and the sweep loop\<close>

type_synonym 'w remover = "fs_path \<Rightarrow> 'w \<Rightarrow> (string + unit) \<times> 'w"

definition apply_step ::
  "'w remover \<Rightarrow> storage_entry \<Rightarrow> sweep_report \<times> 'w \<Rightarrow> sweep_report \<times> 'w" where
  "apply_step remove e = (\<lambda>(report, w).
     case remove (entry_path e) w of
       (Inr _, w1) \<Rightarrow> (report\<lparr>freed_bytes := sat_add64 (freed_bytes report) (size_bytes e),
                              removed := removed report @ [e]\<rparr>, w1)
     | (Inl source, w1) \<Rightarrow> (report\<lparr>failed := failed report @ [(e, source)]\<rparr>, w1))"

definition apply_sweep :: "'w remover \<Rightarrow> sweep_plan \<Rightarrow> 'w \<Rightarrow> sweep_report \<times> 'w" where
  "apply_sweep remove p w = fold (apply_step remove) (evictions p) (empty_report, w)"

definition pin_one :: "storage_entry \<times> string \<Rightarrow> bool \<times> sweep_pins \<Rightarrow> bool \<times> sweep_pins" where
  "pin_one f = (\<lambda>(pinned, pins).
     case kind (fst f) of
       Model key _ _ \<Rightarrow>
         (pinned \<or> key \<notin> pin_models pins, pins\<lparr>pin_models := insert key (pin_models pins)\<rparr>)
     | Runtime key _ _ _ \<Rightarrow>
         (pinned \<or> key \<notin> pin_runtimes pins, pins\<lparr>pin_runtimes := insert key (pin_runtimes pins)\<rparr>)
     | Garbage _ \<Rightarrow> (pinned, pins))"

definition pin_failed :: "sweep_report \<Rightarrow> sweep_pins \<Rightarrow> bool \<times> sweep_pins" where
  "pin_failed report pins = fold pin_one (failed report) (False, pins)"

definition extend_done :: "sweep_report \<Rightarrow> sweep_report \<Rightarrow> sweep_report" where
  "extend_done done_so_far report =
     \<lparr>removed = removed done_so_far @ removed report,
      failed = failed done_so_far @
        filter (\<lambda>f. \<not> list_ex (\<lambda>k. entry_path (fst k) = entry_path (fst f)) (failed done_so_far)) (failed report),
      freed_bytes = sat_add64 (freed_bytes done_so_far) (freed_bytes report)\<rparr>"

partial_function (option) sweep_loop ::
  "('w \<Rightarrow> storage_survey) \<Rightarrow> 'w remover \<Rightarrow> nat \<Rightarrow> sweep_pins \<Rightarrow> sweep_report \<Rightarrow> 'w
     \<Rightarrow> ((sweep_plan \<times> sweep_report) \<times> 'w) option" where
  "sweep_loop survey_of remove quota pins done_so_far w =
     (let p = plan (survey_of w) quota pins;
          (report, w1) = apply_sweep remove p w;
          (again, pins1) = pin_failed report pins;
          done1 = extend_done done_so_far report
      in if \<not> again then Some ((p, done1), w1)
         else sweep_loop survey_of remove quota pins1 done1 w1)"

definition sweep ::
  "('w \<Rightarrow> storage_survey) \<Rightarrow> 'w remover \<Rightarrow> nat \<Rightarrow> sweep_pins \<Rightarrow> 'w
     \<Rightarrow> ((sweep_plan \<times> sweep_report) \<times> 'w) option" where
  "sweep survey_of remove quota pins w = sweep_loop survey_of remove quota pins empty_report w"

section \<open>The sweep order\<close>

lemma is_garbage_rank: "is_garbage k \<longleftrightarrow> rank k = 0"
  by (cases k) auto

lemma garbage_key: "is_garbage (kind e) \<longleftrightarrow> sweep_key e = (0, None, None)"
  by (cases "kind e") (auto simp: sweep_key_def)

lemma sorted_key_split:
  fixes f :: "'a \<Rightarrow> 'b :: linorder"
  assumes "sorted (map f xs)" and "\<And>x y. P x \<Longrightarrow> \<not> P y \<Longrightarrow> f x < f y"
  shows "xs = filter P xs @ filter (\<lambda>x. \<not> P x) xs"
  using assms(1)
proof (induction xs)
  case (Cons x xs)
  show ?case
  proof (cases "P x")
    case True
    then show ?thesis using Cons by simp
  next
    case False
    have "\<not> P y" if "y \<in> set xs" for y
      using that Cons.prems assms(2) [of y x] False by (fastforce simp: not_less)
    then show ?thesis using False by (simp add: filter_empty_conv filter_id_conv)
  qed
qed simp

definition live_entries :: "storage_entry list \<Rightarrow> storage_entry list" where
  "live_entries es = filter (\<lambda>e. \<not> is_garbage (kind e)) (sort_key sweep_key es)"

text \<open>The survey lists the garbage in discovery order, then the live entries.\<close>

lemma survey_new_split:
  "entries (survey_new es) = filter (\<lambda>e. is_garbage (kind e)) es @ live_entries es"
proof -
  let ?s = "sort_key sweep_key es"
  have "?s = filter (\<lambda>e. is_garbage (kind e)) ?s @ filter (\<lambda>e. \<not> is_garbage (kind e)) ?s"
  proof (rule sorted_key_split)
    fix x y :: storage_entry assume "is_garbage (kind x)" "\<not> is_garbage (kind y)"
    then show "sweep_key x < sweep_key y"
      by (cases "kind x"; cases "kind y") (auto simp: sweep_key_def less_prod_def)
  qed simp
  moreover have "filter (\<lambda>e. is_garbage (kind e)) ?s = filter (\<lambda>e. is_garbage (kind e)) es"
    unfolding garbage_key by (rule sort_key_stable)
  ultimately show ?thesis by (simp add: survey_new_def Let_def live_entries_def)
qed

lemma used_bytes_survey_new: "used_bytes (survey_new es) = min (sum_list (map size_bytes es)) u64_max"
proof -
  have "sum_list (map size_bytes (sort_key sweep_key es)) = sum_list (map size_bytes es)"
    by (metis mset_map mset_sort sum_mset_sum_list)
  then show ?thesis by (simp add: survey_new_def Let_def fold_sat_add64)
qed

section \<open>The plan\<close>

lemma plan_loop_garbage:
  "list_all (\<lambda>e. is_garbage (kind e)) gs \<Longrightarrow>
   plan_loop used quota pins (gs @ es) freed evs =
   plan_loop used quota pins es (fold (\<lambda>e t. sat_add64 t (size_bytes e)) gs freed) (evs @ gs)"
proof (induction gs arbitrary: freed evs)
  case (Cons g gs)
  then have "is_candidate g pins" by (auto simp: is_candidate_def split: entry_kind.splits)
  with Cons show ?case by simp
qed simp

lemma plan_loop_live:
  "list_all (\<lambda>e. \<not> is_garbage (kind e)) es \<Longrightarrow> L = filter (\<lambda>e. is_candidate e pins) es \<Longrightarrow>
   \<exists>k \<le> length L.
     plan_loop used quota pins es freed evs
       = (fold (\<lambda>e t. sat_add64 t (size_bytes e)) (take k L) freed, evs @ take k L)
     \<and> (\<forall>j<k. quota < used - fold (\<lambda>e t. sat_add64 t (size_bytes e)) (take j L) freed)
     \<and> (k = length L \<or> used - fold (\<lambda>e t. sat_add64 t (size_bytes e)) (take k L) freed \<le> quota)"
proof (induction es arbitrary: freed evs L)
  case Nil
  then show ?case by simp
next
  case (Cons e es)
  show ?case
  proof (cases "quota < used - freed")
    case False
    then show ?thesis using Cons.prems by (intro exI [of _ 0]) auto
  next
    case over: True
    show ?thesis
    proof (cases "is_candidate e pins")
      case False
      then show ?thesis using Cons.IH [of L freed evs] Cons.prems over by simp
    next
      case True
      define L' where "L' = filter (\<lambda>e. is_candidate e pins) es"
      let ?f = "sat_add64 freed (size_bytes e)"
      obtain k where k: "k \<le> length L'"
        "plan_loop used quota pins es ?f (evs @ [e])
           = (fold (\<lambda>e t. sat_add64 t (size_bytes e)) (take k L') ?f, (evs @ [e]) @ take k L')"
        "\<forall>j<k. quota < used - fold (\<lambda>e t. sat_add64 t (size_bytes e)) (take j L') ?f"
        "k = length L' \<or> used - fold (\<lambda>e t. sat_add64 t (size_bytes e)) (take k L') ?f \<le> quota"
        using Cons.IH [OF _ L'_def, of ?f "evs @ [e]"] Cons.prems(1) by auto
      have L: "L = e # L'" using Cons.prems(2) True by (simp add: L'_def)
      have "\<forall>j<Suc k. quota < used - fold (\<lambda>e t. sat_add64 t (size_bytes e)) (take j L) freed"
        using k(3) over by (auto simp: L less_Suc_eq_0_disj)
      then show ?thesis
        using k(1,2,4) over True by (intro exI [of _ "Suc k"]) (simp add: L)
    qed
  qed
qed

lemma plan_loop_candidates:
  "e \<in> set (snd (plan_loop used quota pins es freed evs)) \<Longrightarrow>
   e \<in> set evs \<or> e \<in> set es \<and> is_candidate e pins"
  by (induction used quota pins es freed evs rule: plan_loop.induct) (auto simp: Let_def split: if_splits)

lemma plan_candidates:
  "e \<in> set (evictions (plan survey quota pins)) \<Longrightarrow> e \<in> set (entries survey) \<and> is_candidate e pins"
  using plan_loop_candidates [of e "used_bytes survey" quota pins "entries survey" 0 "[]"]
  by (auto simp: plan_def Let_def split: prod.splits)

section \<open>Reports and pins\<close>

fun live_key :: "entry_kind \<Rightarrow> (storage_key + storage_key) option" where
  "live_key (Garbage _) = None"
| "live_key (Model k _ _) = Some (Inl k)"
| "live_key (Runtime k _ _ _) = Some (Inr k)"

definition pinned :: "sweep_pins \<Rightarrow> (storage_key + storage_key) set" where
  "pinned pins = Inl ` pin_models pins \<union> Inr ` pin_runtimes pins"

lemma pinned_simps [simp]:
  "Inl k \<in> pinned pins \<longleftrightarrow> k \<in> pin_models pins"
  "Inr k \<in> pinned pins \<longleftrightarrow> k \<in> pin_runtimes pins"
  by (auto simp: pinned_def)

lemma pinned_insert [simp]:
  "pinned (pins\<lparr>pin_models := insert k (pin_models pins)\<rparr>) = insert (Inl k) (pinned pins)"
  "pinned (pins\<lparr>pin_runtimes := insert k (pin_runtimes pins)\<rparr>) = insert (Inr k) (pinned pins)"
  by (auto simp: pinned_def)

lemma pinned_for_cell:
  "pinned (for_cell (Some m) (Some r)) = {Inl m, Inr r}"
  by (auto simp: for_cell_def with_model_def with_runtime_def no_pins_def pinned_def)

lemma live_key_None: "live_key k = None \<longleftrightarrow> is_garbage k"
  by (cases k) auto

lemma candidate_not_pinned: "is_candidate e pins \<Longrightarrow> live_key (kind e) = Some k \<Longrightarrow> k \<notin> pinned pins"
  by (auto simp: is_candidate_def split: entry_kind.splits)

definition failed_keys :: "sweep_report \<Rightarrow> (storage_key + storage_key) set" where
  "failed_keys report = {k. \<exists>f \<in> set (failed report). live_key (kind (fst f)) = Some k}"

lemma fold_pin_one:
  assumes "fold pin_one fs (b, pins) = (again, pins1)"
  shows "pinned pins1 = pinned pins \<union> {k. \<exists>f \<in> set fs. live_key (kind (fst f)) = Some k}
    \<and> (again \<longleftrightarrow> b \<or> (\<exists>f \<in> set fs. \<exists>k. live_key (kind (fst f)) = Some k \<and> k \<notin> pinned pins))"
  using assms
proof (induction fs arbitrary: b pins)
  case Nil
  then show ?case by simp
next
  case (Cons f fs)
  obtain b2 pins2 where one: "pin_one f (b, pins) = (b2, pins2)" by (cases "pin_one f (b, pins)")
  have step: "pinned pins2 = pinned pins \<union> {k. live_key (kind (fst f)) = Some k}"
    "b2 \<longleftrightarrow> b \<or> (\<exists>k. live_key (kind (fst f)) = Some k \<and> k \<notin> pinned pins)"
    using one by (cases "kind (fst f)"; auto simp: pin_one_def)+
  have "fold pin_one fs (b2, pins2) = (again, pins1)" using Cons.prems one by simp
  from Cons.IH [OF this] show ?case unfolding step by auto
qed

lemma pin_failed_pins:
  assumes "pin_failed report pins = (again, pins1)"
  shows "pinned pins1 = pinned pins \<union> failed_keys report"
    and "again \<longleftrightarrow> \<not> failed_keys report \<subseteq> pinned pins"
  using fold_pin_one [of "failed report" False pins again pins1] assms
  unfolding pin_failed_def failed_keys_def by auto

text \<open>An application of a plan splits the plan's entries into removed and failed ones.\<close>

lemma fold_apply_step:
  assumes "fold (apply_step remove) es (report0, w) = (report, w1)"
  shows "set (removed report) \<union> fst ` set (failed report)
           = set (removed report0) \<union> fst ` set (failed report0) \<union> set es
    \<and> set (removed report0) \<subseteq> set (removed report)"
  using assms
proof (induction es arbitrary: report0 w)
  case Nil
  then show ?case by simp
next
  case (Cons e es)
  obtain r2 w2 where one: "apply_step remove e (report0, w) = (r2, w2)"
    by (cases "apply_step remove e (report0, w)")
  have step: "set (removed r2) \<union> fst ` set (failed r2)
      = set (removed report0) \<union> fst ` set (failed report0) \<union> {e}" "set (removed report0) \<subseteq> set (removed r2)"
    using one by (auto simp: apply_step_def split: prod.splits sum.splits)
  have "fold (apply_step remove) es (r2, w2) = (report, w1)" using Cons.prems one by simp
  from Cons.IH [OF this] step show ?case by auto
qed

lemma apply_sweep_entries:
  assumes "apply_sweep remove p w = (report, w1)"
  shows "set (removed report) \<union> fst ` set (failed report) = set (evictions p)"
  using fold_apply_step [of remove "evictions p" empty_report w report w1] assms
  by (simp add: apply_sweep_def empty_report_def)

text \<open>A property of the world that every removal of a planned entry keeps is kept by the whole
  application.\<close>

lemma fold_apply_step_inv:
  assumes "\<And>e w. e \<in> set es \<Longrightarrow> I w \<Longrightarrow> I (snd (remove (entry_path e) w))" and "I (snd rw)"
  shows "I (snd (fold (apply_step remove) es rw))"
  using assms
proof (induction es arbitrary: rw)
  case Nil
  then show ?case by simp
next
  case (Cons e es)
  have "I (snd (apply_step remove e rw))"
    using Cons.prems(1) [of e "snd rw"] Cons.prems(2)
    by (auto simp: apply_step_def split: prod.splits sum.splits)
  then show ?case using Cons by simp
qed

section \<open>The sweep loop over any store\<close>

text \<open>What the loop needs of a store: the keys its entries could carry are finite, every live
  entry of a survey carries one of them, and removing a surveyed entry brings no new one.\<close>

locale sweep_store =
  fixes survey_of :: "'w \<Rightarrow> storage_survey"
    and remove :: "'w remover"
    and potential :: "'w \<Rightarrow> (storage_key + storage_key) set"
  assumes finite_potential: "finite (potential w)"
    and live_potential:
      "e \<in> set (entries (survey_of w)) \<Longrightarrow> live_key (kind e) = Some k \<Longrightarrow> k \<in> potential w"
    and remove_potential:
      "e \<in> set (entries (survey_of v)) \<Longrightarrow> potential (snd (remove (entry_path e) w)) \<subseteq> potential w"
begin

lemma apply_potential:
  assumes "apply_sweep remove (plan (survey_of w) quota pins) w = (report, w1)"
  shows "potential w1 \<subseteq> potential w"
proof -
  let ?p = "plan (survey_of w) quota pins"
  have "potential (snd (remove (entry_path e) v)) \<subseteq> potential w"
    if "e \<in> set (evictions ?p)" "potential v \<subseteq> potential w" for e v
    using that remove_potential [of e w v] plan_candidates [of e "survey_of w" quota pins] by blast
  from fold_apply_step_inv [of "evictions ?p" "\<lambda>v. potential v \<subseteq> potential w" remove "(empty_report, w)", OF this]
  show ?thesis using assms by (simp add: apply_sweep_def)
qed

lemma failed_keys_potential:
  assumes "apply_sweep remove (plan (survey_of w) quota pins) w = (report, w1)" and "k \<in> failed_keys report"
  shows "k \<in> potential w" and "k \<notin> pinned pins"
proof -
  obtain f where f: "f \<in> set (failed report)" "live_key (kind (fst f)) = Some k"
    using assms(2) by (auto simp: failed_keys_def)
  then have "fst f \<in> set (evictions (plan (survey_of w) quota pins))"
    using apply_sweep_entries [OF assms(1)] by blast
  then have "fst f \<in> set (entries (survey_of w))" "is_candidate (fst f) pins"
    by (auto dest: plan_candidates)
  with f show "k \<in> potential w" "k \<notin> pinned pins"
    by (auto dest: live_potential candidate_not_pinned)
qed

lemma sweep_loop_returns: "\<exists>r. sweep_loop survey_of remove quota pins d w = Some r"
proof (induction "card (potential w - pinned pins)" arbitrary: pins d w rule: less_induct)
  case less
  define p where "p = plan (survey_of w) quota pins"
  obtain report w1 where ap: "apply_sweep remove p w = (report, w1)" by fastforce
  obtain again pins1 where pf: "pin_failed report pins = (again, pins1)" by fastforce
  have unfolded: "sweep_loop survey_of remove quota pins d w =
      (if \<not> again then Some ((p, extend_done d report), w1)
       else sweep_loop survey_of remove quota pins1 (extend_done d report) w1)"
    by (subst sweep_loop.simps) (simp add: Let_def ap pf flip: p_def)
  show ?case
  proof (cases again)
    case True
    then obtain k where k: "k \<in> failed_keys report" "k \<notin> pinned pins"
      using pin_failed_pins(2) [OF pf] by auto
    then have "k \<in> potential w" using failed_keys_potential ap unfolding p_def by blast
    moreover have "pinned pins1 = pinned pins \<union> failed_keys report" by (rule pin_failed_pins(1) [OF pf])
    ultimately have "potential w1 - pinned pins1 \<subset> potential w - pinned pins"
      using apply_potential [OF ap [unfolded p_def]] k by auto
    then have "card (potential w1 - pinned pins1) < card (potential w - pinned pins)"
      by (intro psubset_card_mono) (simp_all add: finite_potential)
    then show ?thesis unfolding unfolded using True less by simp
  qed (simp add: unfolded)
qed

end

section \<open>What a sweep leaves behind\<close>

definition accounted :: "sweep_report \<Rightarrow> bool" where
  "accounted r \<longleftrightarrow> freed_bytes r = min (sum_list (map size_bytes (removed r))) u64_max"

lemma apply_sweep_accounted:
  assumes "apply_sweep remove p w = (report, w1)"
  shows "accounted report"
proof -
  have "accounted (fst (fold (apply_step remove) es rw))" if "accounted (fst rw)" for es rw
    using that
  proof (induction es arbitrary: rw)
    case (Cons e es)
    have "accounted (fst (apply_step remove e rw))"
      using Cons.prems
      by (auto simp: apply_step_def accounted_def sat_add64_def min_def split: prod.splits sum.splits)
    then show ?case using Cons by simp
  qed simp
  moreover have "accounted empty_report" by (simp add: accounted_def empty_report_def)
  ultimately show ?thesis using assms unfolding apply_sweep_def by (metis fst_conv)
qed

lemma extend_done_accounted: "accounted d \<Longrightarrow> accounted r \<Longrightarrow> accounted (extend_done d r)"
  by (auto simp: accounted_def extend_done_def sat_add64_def min_def)

definition sweep_outcome ::
  "sweep_pins \<Rightarrow> sweep_report \<Rightarrow> sweep_plan \<Rightarrow> sweep_report \<Rightarrow> bool" where
  "sweep_outcome pins d0 p d \<longleftrightarrow>
     set (removed d0) \<subseteq> set (removed d)
     \<and> (\<forall>e \<in> set (removed d). e \<in> set (removed d0) \<or> is_candidate e pins)
     \<and> (\<forall>e \<in> set (evictions p). is_garbage (kind e) \<or> e \<in> set (removed d))
     \<and> (accounted d0 \<longrightarrow> accounted d)"

lemma candidate_mono: "pinned pins \<subseteq> pinned pins1 \<Longrightarrow> is_candidate e pins1 \<Longrightarrow> is_candidate e pins"
  by (cases "kind e") (auto simp: is_candidate_def pinned_def)

lemmas sweep_loop_induct = sweep_loop.raw_induct [rotated, consumes 1, case_names step]

lemma sweep_loop_outcome:
  assumes "sweep_loop survey_of remove quota pins d w = Some ((p, d'), w')"
  shows "sweep_outcome pins d p d'"
proof -
  have "case r of ((p, d'), w') \<Rightarrow> sweep_outcome pins d p d'"
    if "sweep_loop survey_of remove quota pins d w = Some r" for r
    using that
  proof (induction survey_of remove quota pins d w r rule: sweep_loop_induct)
    case (step f survey_of remove quota pins d w r)
    define p where "p = plan (survey_of w) quota pins"
    obtain report w1 where ap: "apply_sweep remove p w = (report, w1)" by fastforce
    obtain again pins1 where pf: "pin_failed report pins = (again, pins1)" by fastforce
    note ents = apply_sweep_entries [OF ap] and acc = apply_sweep_accounted [OF ap]
    have rem: "set (removed (extend_done d report)) = set (removed d) \<union> set (removed report)"
      by (simp add: extend_done_def)
    have cand: "is_candidate e pins" if "e \<in> set (removed report)" for e
      using that ents plan_candidates [of e "survey_of w" quota pins] by (auto simp: p_def)
    have body: "(if \<not> again then Some ((p, extend_done d report), w1)
        else f survey_of remove quota pins1 (extend_done d report) w1) = Some r"
      using step(2) by (simp add: Let_def ap pf flip: p_def)
    show ?case
    proof (cases again)
      case True
      obtain p2 d2 w2 where r: "r = ((p2, d2), w2)" by (metis prod.collapse)
      then have "sweep_outcome pins1 (extend_done d report) p2 d2"
        using step(1) [of survey_of remove quota pins1 "extend_done d report" w1 r] body True by simp
      moreover have "pinned pins \<subseteq> pinned pins1" using pin_failed_pins(1) [OF pf] by blast
      ultimately show ?thesis
        unfolding r sweep_outcome_def using rem cand acc
        by (auto dest: candidate_mono intro: extend_done_accounted)
    next
      case False
      then have r: "r = ((p, extend_done d report), w1)" using body by simp
      have "is_garbage (kind e)" if "e \<in> fst ` set (failed report)" for e
      proof (rule ccontr)
        assume "\<not> is_garbage (kind e)"
        then obtain k where "live_key (kind e) = Some k" by (auto simp flip: live_key_None)
        with that have "k \<in> failed_keys report" by (auto simp: failed_keys_def)
        moreover have "k \<notin> pinned pins"
          using that ents plan_candidates [of e "survey_of w" quota pins] \<open>live_key (kind e) = Some k\<close>
          by (auto simp: p_def dest: candidate_not_pinned)
        ultimately show False using False pin_failed_pins(2) [OF pf] by auto
      qed
      then show ?thesis
        unfolding r prod.case sweep_outcome_def rem ents [symmetric] using cand acc
        by (auto intro: extend_done_accounted)
    qed
  qed
  with assms show ?thesis by fastforce
qed

lemma sweep_loop_inv:
  assumes keep: "\<And>e w0 w. e \<in> set (entries (survey_of w0)) \<Longrightarrow> I w \<Longrightarrow> I (snd (remove (entry_path e) w))"
    and run: "sweep_loop survey_of remove quota pins d w = Some (pd, w')" and init: "I w"
  shows "I w'"
proof -
  have "(\<forall>e w0 w. e \<in> set (entries (survey_of w0)) \<longrightarrow> I w \<longrightarrow> I (snd (remove (entry_path e) w))) \<longrightarrow>
      I w \<longrightarrow> I (snd r)"
    if "sweep_loop survey_of remove quota pins d w = Some r" for r
    using that
  proof (induction survey_of remove quota pins d w r rule: sweep_loop_induct)
    case (step f survey_of remove quota pins d w r)
    define p where "p = plan (survey_of w) quota pins"
    obtain report w1 where ap: "apply_sweep remove p w = (report, w1)" by fastforce
    obtain again pins1 where pf: "pin_failed report pins = (again, pins1)" by fastforce
    have body: "(if \<not> again then Some ((p, extend_done d report), w1)
        else f survey_of remove quota pins1 (extend_done d report) w1) = Some r"
      using step(2) by (simp add: Let_def ap pf flip: p_def)
    show ?case
    proof (intro impI)
      assume keep: "\<forall>e w0 w. e \<in> set (entries (survey_of w0)) \<longrightarrow> I w \<longrightarrow> I (snd (remove (entry_path e) w))"
        and "I w"
      have "I (snd (remove (entry_path e) v))" if "e \<in> set (evictions p)" "I v" for e v
        using that keep plan_candidates [of e "survey_of w" quota pins] unfolding p_def by blast
      from fold_apply_step_inv [of "evictions p" I remove "(empty_report, w)", OF this] \<open>I w\<close>
      have "I w1" using ap by (simp add: apply_sweep_def)
      with keep show "I (snd r)"
        using body step(1) [of survey_of remove quota pins1 "extend_done d report" w1 r]
        by (auto split: if_splits)
    qed
  qed
  from this [OF run] keep init show ?thesis by simp
qed

section \<open>Properties\<close>

text \<open>C21. The eviction plan of a survey of any entries: with the garbage in discovery order and the
  unpinned evictable live entries in least-recently-used order (models before runtimes), it evicts
  all the garbage and then the shortest run of live entries that brings the store to the quota:
  every shorter run leaves it over, and either the store fits afterwards or every candidate goes
  and the overage is reported. Byte counts clamp at the largest \<open>u64\<close>.\<close>

theorem plan_exact:
  assumes "G = filter (\<lambda>e. is_garbage (kind e)) es"
    and "L = filter (\<lambda>e. is_candidate e pins) (live_entries es)"
    and "left = (\<lambda>k. min (sum_list (map size_bytes es)) u64_max
                     - min (sum_list (map size_bytes (G @ take k L))) u64_max)"
  shows "sorted (map sweep_key L) \<and>
    (\<exists>k \<le> length L. evictions (plan (survey_new es) quota pins) = G @ take k L
       \<and> (\<forall>j<k. quota < left j) \<and> (k = length L \<or> left k \<le> quota)
       \<and> still_over_by_bytes (plan (survey_new es) quota pins)
           = (if quota < left k then Some (left k - quota) else None))"
proof
  let ?f = "\<lambda>e t. sat_add64 t (size_bytes e)"
  show "sorted (map sweep_key L)"
    unfolding assms(2) live_entries_def by (intro sorted_filter) simp
  have G: "list_all (\<lambda>e. is_garbage (kind e)) G" by (simp add: assms(1) list_all_iff)
  have live: "list_all (\<lambda>e. \<not> is_garbage (kind e)) (live_entries es)"
    by (simp add: live_entries_def list_all_iff)
  define used where "used = used_bytes (survey_new es)"
  have freed: "fold ?f (take j L) (fold ?f G 0) = min (sum_list (map size_bytes (G @ take j L))) u64_max" for j
    using fold_sat_add64 [of 0 size_bytes "G @ take j L"] by simp
  obtain k where "k \<le> length L"
    "plan_loop used quota pins (live_entries es) (fold ?f G 0) G
       = (fold ?f (take k L) (fold ?f G 0), G @ take k L)"
    "\<forall>j<k. quota < used - fold ?f (take j L) (fold ?f G 0)"
    "k = length L \<or> used - fold ?f (take k L) (fold ?f G 0) \<le> quota"
    using plan_loop_live [OF live assms(2)] by blast
  moreover have "plan_loop used quota pins (entries (survey_new es)) 0 []
      = plan_loop used quota pins (live_entries es) (fold ?f G 0) G"
    unfolding survey_new_split using plan_loop_garbage [OF G] by (simp add: assms(1))
  ultimately have k: "k \<le> length L"
    "plan_loop used quota pins (entries (survey_new es)) 0 []
      = (min (sum_list (map size_bytes (G @ take k L))) u64_max, G @ take k L)"
    "\<forall>j<k. quota < left j" "k = length L \<or> left k \<le> quota"
    unfolding freed assms(3) used_def used_bytes_survey_new by simp_all
  have "used - min (sum_list (map size_bytes (G @ take k L))) u64_max = left k"
    unfolding used_def used_bytes_survey_new assms(3) ..
  with k(2) have "evictions (plan (survey_new es) quota pins) = G @ take k L"
    "still_over_by_bytes (plan (survey_new es) quota pins)
       = (if quota < left k then Some (left k - quota) else None)"
    unfolding plan_def used_def by (simp_all only: Let_def prod.case sweep_plan.simps)
  with k(1,3,4) show "\<exists>k \<le> length L. evictions (plan (survey_new es) quota pins) = G @ take k L
      \<and> (\<forall>j<k. quota < left j) \<and> (k = length L \<or> left k \<le> quota)
      \<and> still_over_by_bytes (plan (survey_new es) quota pins)
          = (if quota < left k then Some (left k - quota) else None)"
    by blast
qed

theorem plan_exact_witness:
  "let entry = (\<lambda>n size k. \<lparr>entry_path = [''models'', n], label = n, size_bytes = size, kind = k\<rparr>);
       new = entry ''new'' 50 (Model ''new'' 20 1); old = entry ''old'' 50 (Model ''old'' 10 1);
       junk = entry ''junk'' 10 (Garbage ''no manifest''); rt = entry ''rt'' 30 (Runtime ''rt'' 5 1 True)
   in evictions (plan (survey_new [new, junk, old, rt]) 85 (for_cell (Some ''old'') None)) = [junk, new]"
proof -
  define entry where "entry = (\<lambda>n size k. \<lparr>entry_path = [''models'', n], label = n, size_bytes = size, kind = k\<rparr>)"
  define new where "new = entry ''new'' 50 (Model ''new'' 20 1)"
  define old where "old = entry ''old'' 50 (Model ''old'' 10 1)"
  define junk where "junk = entry ''junk'' 10 (Garbage ''no manifest'')"
  define rt where "rt = entry ''rt'' 30 (Runtime ''rt'' 5 1 True)"
  note defs = entry_def new_def old_def junk_def rt_def
  let ?es = "[new, junk, old, rt]" and ?pins = "for_cell (Some ''old'') None"
  have keys: "sweep_key new = (1, Some 20, Some 1)" "sweep_key old = (1, Some 10, Some 1)"
    "sweep_key junk = (0, None, None)" "sweep_key rt = (2, Some 5, Some 1)"
    and sizes: "size_bytes new = 50" "size_bytes old = 50" "size_bytes junk = 10" "size_bytes rt = 30"
    and garbage: "is_garbage (kind junk)" "\<not> is_garbage (kind new)" "\<not> is_garbage (kind old)"
      "\<not> is_garbage (kind rt)"
    and cands: "is_candidate new ?pins" "\<not> is_candidate old ?pins" "is_candidate rt ?pins"
    by (simp_all add: defs sweep_key_def is_candidate_def for_cell_def with_model_def with_runtime_def no_pins_def)
  have G: "filter (\<lambda>e. is_garbage (kind e)) ?es = [junk]" by (simp add: garbage)
  have "sort_key sweep_key ?es = [junk, old, new, rt]" by (simp add: keys less_eq_prod_def)
  then have L: "filter (\<lambda>e. is_candidate e ?pins) (live_entries ?es) = [new, rt]"
    by (simp add: live_entries_def garbage cands)
  define left where "left = (\<lambda>k. min (sum_list (map size_bytes ?es)) u64_max
      - min (sum_list (map size_bytes ([junk] @ take k [new, rt]))) u64_max)"
  have left: "left 0 = 130" "left 1 = 80" by (simp_all add: left_def sizes u64_max_def)
  obtain k where k: "k \<le> length [new, rt]"
    "evictions (plan (survey_new ?es) 85 ?pins) = [junk] @ take k [new, rt]"
    "\<forall>j<k. 85 < left j" "k = length [new, rt] \<or> left k \<le> 85"
    using plan_exact [OF G [symmetric] L [symmetric] left_def, of 85] by blast
  have "k \<noteq> 0" using k(4) left(1) by (intro notI) simp
  moreover have "k \<noteq> 2" using k(3) [rule_format, of 1] left(2) by (intro notI) simp
  ultimately have "k = 1" using k(1) by auto
  with k(2) show ?thesis by (simp add: defs Let_def)
qed

end
