(* ===== verification/File_System.thy ===== *)
theory File_System
  imports Pipette_Prelude
begin

text \<open>
  The part of \<open>std::fs\<close> that the stores use. A file system is a list of nodes by absolute path, in
  the order a directory listing returns them, with the lock files other processes hold, the faults
  the operating system injects (an operation on a path may fail with any kind of error), and the
  stream of random identifiers. There are no symbolic links. Each operation checks for a fault
  first; a failed recursive delete removes what has no fault at or below it.
\<close>

datatype io_kind = NotFound | PermissionDenied | Unsupported | InvalidInput | AlreadyExists | OtherIo

datatype fs_op = OpStat | OpReadDir | OpOpen | OpLock | OpCreateDir | OpCreate | OpWrite | OpRename
  | OpRemove | OpSync

record fs_node =
  is_dir_node :: bool
  blocks :: nat
  contents :: string
  synced :: bool

record fs_state =
  nodes :: "(fs_path \<times> fs_node) list"
  held :: "fs_path \<Rightarrow> bool"
  faults :: "fs_op \<Rightarrow> fs_path \<Rightarrow> io_kind option"
  uuids :: "nat \<Rightarrow> string"
  drawn :: nat

datatype try_lock = LockTaken | WouldBlock | LockError io_kind

abbreviation lookup :: "fs_state \<Rightarrow> fs_path \<Rightarrow> fs_node option" where
  "lookup s \<equiv> map_of (nodes s)"

definition fs_stat :: "fs_state \<Rightarrow> fs_path \<Rightarrow> io_kind + fs_node" where
  "fs_stat s p = (case faults s OpStat p of Some k \<Rightarrow> Inl k | None \<Rightarrow> ok_or NotFound (lookup s p))"

definition fs_exists :: "fs_state \<Rightarrow> fs_path \<Rightarrow> bool" where
  "fs_exists s p = (case fs_stat s p of Inr _ \<Rightarrow> True | Inl _ \<Rightarrow> False)"

definition fs_is_dir :: "fs_state \<Rightarrow> fs_path \<Rightarrow> bool" where
  "fs_is_dir s p = (case fs_stat s p of Inr n \<Rightarrow> is_dir_node n | Inl _ \<Rightarrow> False)"

definition children :: "fs_state \<Rightarrow> fs_path \<Rightarrow> fs_path list" where
  "children s p = filter (\<lambda>q. q \<noteq> [] \<and> butlast q = p) (map fst (nodes s))"

definition fs_read_dir :: "fs_state \<Rightarrow> fs_path \<Rightarrow> io_kind + fs_path list" where
  "fs_read_dir s p =
     (case faults s OpReadDir p of
        Some k \<Rightarrow> Inl k
      | None \<Rightarrow> (case lookup s p of
                  None \<Rightarrow> Inl NotFound
                | Some n \<Rightarrow> if is_dir_node n then Inr (children s p) else Inl OtherIo))"

definition fs_open :: "fs_state \<Rightarrow> fs_path \<Rightarrow> io_kind + fs_node" where
  "fs_open s p = (case faults s OpOpen p of Some k \<Rightarrow> Inl k | None \<Rightarrow> ok_or NotFound (lookup s p))"

definition fs_read :: "fs_state \<Rightarrow> fs_path \<Rightarrow> io_kind + string" where
  "fs_read s p =
     bind_result (fs_open s p) (\<lambda>n. if is_dir_node n then Inl OtherIo else Inr (contents n))"

definition fs_try_lock :: "fs_state \<Rightarrow> fs_path \<Rightarrow> try_lock" where
  "fs_try_lock s p =
     (case faults s OpLock p of Some k \<Rightarrow> LockError k | None \<Rightarrow> if held s p then WouldBlock else LockTaken)"

definition add_node :: "fs_path \<Rightarrow> fs_node \<Rightarrow> fs_state \<Rightarrow> fs_state" where
  "add_node p n s = s\<lparr>nodes := nodes s @ [(p, n)]\<rparr>"

definition fresh_dir :: fs_node where
  "fresh_dir = \<lparr>is_dir_node = True, blocks = 0, contents = [], synced = False\<rparr>"

definition fresh_file :: fs_node where
  "fresh_file = \<lparr>is_dir_node = False, blocks = 0, contents = [], synced = False\<rparr>"

fun make_dirs :: "fs_path list \<Rightarrow> fs_state \<Rightarrow> (io_kind + unit) \<times> fs_state" where
  "make_dirs [] s = (Inr (), s)"
| "make_dirs (p # ps) s =
     (case lookup s p of
        Some n \<Rightarrow> if is_dir_node n then make_dirs ps s else (Inl OtherIo, s)
      | None \<Rightarrow> make_dirs ps (add_node p fresh_dir s))"

definition fs_create_dir_all :: "fs_path \<Rightarrow> fs_state \<Rightarrow> (io_kind + unit) \<times> fs_state" where
  "fs_create_dir_all p s =
     (case faults s OpCreateDir p of Some k \<Rightarrow> (Inl k, s) | None \<Rightarrow> make_dirs (tl (prefixes p)) s)"

text \<open>\<open>File::options().create(true).write(true).truncate(false)\<close>, and \<open>File::create_new\<close>.\<close>

definition fs_open_or_create :: "fs_path \<Rightarrow> fs_state \<Rightarrow> (io_kind + unit) \<times> fs_state" where
  "fs_open_or_create p s =
     (case faults s OpCreate p of
        Some k \<Rightarrow> (Inl k, s)
      | None \<Rightarrow>
          (case lookup s p of
             Some n \<Rightarrow> (if is_dir_node n then Inl OtherIo else Inr (), s)
           | None \<Rightarrow>
               (case lookup s (butlast p) of
                  Some d \<Rightarrow> if is_dir_node d then (Inr (), add_node p fresh_file s) else (Inl OtherIo, s)
                | None \<Rightarrow> (Inl NotFound, s))))"

definition fs_create_new :: "fs_path \<Rightarrow> fs_state \<Rightarrow> (io_kind + unit) \<times> fs_state" where
  "fs_create_new p s =
     (if lookup s p \<noteq> None then (Inl AlreadyExists, s) else fs_open_or_create p s)"

definition set_node :: "fs_path \<Rightarrow> fs_node \<Rightarrow> fs_state \<Rightarrow> fs_state" where
  "set_node p n s = s\<lparr>nodes := map (\<lambda>(q, m). if q = p then (q, n) else (q, m)) (nodes s)\<rparr>"

text \<open>\<open>File::create\<close> truncates; \<open>write_all\<close> may fail after the file was created.\<close>

definition fs_write_file :: "fs_path \<Rightarrow> string \<Rightarrow> fs_state \<Rightarrow> (io_kind + unit) \<times> fs_state" where
  "fs_write_file p bs s =
     (case fs_open_or_create p s of
        (Inl k, s1) \<Rightarrow> (Inl k, s1)
      | (Inr _, s1) \<Rightarrow>
          (case faults s1 OpWrite p of
             Some k \<Rightarrow> (Inl k, set_node p fresh_file s1)
           | None \<Rightarrow> (Inr (), set_node p (fresh_file\<lparr>contents := bs\<rparr>) s1)))"

definition fs_sync :: "fs_path \<Rightarrow> fs_state \<Rightarrow> (io_kind + unit) \<times> fs_state" where
  "fs_sync p s =
     (case faults s OpSync p of
        Some k \<Rightarrow> (Inl k, s)
      | None \<Rightarrow> (case lookup s p of
                  None \<Rightarrow> (Inl NotFound, s)
                | Some n \<Rightarrow> (Inr (), set_node p (n\<lparr>synced := True\<rparr>) s)))"

definition drop_under :: "fs_path \<Rightarrow> fs_state \<Rightarrow> fs_state" where
  "drop_under p s = s\<lparr>nodes := filter (\<lambda>(q, _). \<not> prefix p q) (nodes s)\<rparr>"

definition move_under :: "fs_path \<Rightarrow> fs_path \<Rightarrow> fs_state \<Rightarrow> fs_state" where
  "move_under p t s =
     s\<lparr>nodes := map (\<lambda>(q, n). if prefix p q then (t @ drop (length p) q, n) else (q, n)) (nodes s)\<rparr>"

text \<open>A rename over an existing target succeeds only for a file over a file or a directory over an
  empty directory; the parent of the target must exist.\<close>

definition fs_rename :: "fs_path \<Rightarrow> fs_path \<Rightarrow> fs_state \<Rightarrow> (io_kind + unit) \<times> fs_state" where
  "fs_rename p t s =
     (case faults s OpRename p of
        Some k \<Rightarrow> (Inl k, s)
      | None \<Rightarrow>
          (case lookup s p of
             None \<Rightarrow> (Inl NotFound, s)
           | Some n \<Rightarrow>
               (if prefix p t then (Inl InvalidInput, s)
                else if lookup s (butlast t) = None then (Inl NotFound, s)
                else (case lookup s t of
                        None \<Rightarrow> (Inr (), move_under p t s)
                      | Some m \<Rightarrow>
                          if is_dir_node n = is_dir_node m \<and> children s t = []
                          then (Inr (), move_under p t (drop_under t s))
                          else (Inl OtherIo, s)))))"

definition fs_remove_file :: "fs_path \<Rightarrow> fs_state \<Rightarrow> (io_kind + unit) \<times> fs_state" where
  "fs_remove_file p s =
     (case faults s OpRemove p of
        Some k \<Rightarrow> (Inl k, s)
      | None \<Rightarrow>
          (case lookup s p of
             None \<Rightarrow> (Inl NotFound, s)
           | Some n \<Rightarrow>
               if is_dir_node n then (Inl OtherIo, s)
               else (Inr (), s\<lparr>nodes := filter (\<lambda>(q, _). q \<noteq> p) (nodes s)\<rparr>)))"

definition stuck :: "fs_state \<Rightarrow> fs_path \<Rightarrow> io_kind list" where
  "stuck s p =
     concat (map (\<lambda>(q, _). if prefix p q then (case faults s OpRemove q of Some k \<Rightarrow> [k] | None \<Rightarrow> []) else [])
       (nodes s))"

definition fs_remove_dir_all :: "fs_path \<Rightarrow> fs_state \<Rightarrow> (io_kind + unit) \<times> fs_state" where
  "fs_remove_dir_all p s =
     (case lookup s p of
        None \<Rightarrow> (Inl NotFound, s)
      | Some n \<Rightarrow>
          if \<not> is_dir_node n then (Inl OtherIo, s)
          else (case stuck s p of
                  [] \<Rightarrow> (Inr (), drop_under p s)
                | k # _ \<Rightarrow> (Inl k, s\<lparr>nodes := filter (\<lambda>(q, _). \<not> prefix p q \<or> stuck s q \<noteq> []) (nodes s)\<rparr>)))"

section \<open>What an operation may change\<close>

text \<open>\<open>effect D N s s'\<close>: outside \<open>N\<close> a node is as before, or it is in \<open>D\<close> and gone.\<close>

definition effect :: "(fs_path \<Rightarrow> bool) \<Rightarrow> (fs_path \<Rightarrow> bool) \<Rightarrow> fs_state \<Rightarrow> fs_state \<Rightarrow> bool" where
  "effect D N s s' \<longleftrightarrow>
     held s' = held s \<and> faults s' = faults s \<and> uuids s' = uuids s
     \<and> (\<forall>q. \<not> N q \<longrightarrow> lookup s' q = lookup s q \<or> D q \<and> lookup s' q = None)"

named_theorems effects \<open>what each file-system operation may change\<close>

lemma effect_refl [simp, intro]: "effect D N s s"
  by (simp add: effect_def)

lemma effect_trans: "effect D N s s' \<Longrightarrow> effect D N s' s'' \<Longrightarrow> effect D N s s''"
  unfolding effect_def by metis

lemma effect_mono:
  "effect D N s s' \<Longrightarrow> (\<And>q. D q \<Longrightarrow> D' q) \<Longrightarrow> (\<And>q. N q \<Longrightarrow> N' q) \<Longrightarrow> effect D' N' s s'"
  unfolding effect_def by metis

lemma effect_env:
  "effect D N s s' \<Longrightarrow> held s' = held s" "effect D N s s' \<Longrightarrow> faults s' = faults s"
  "effect D N s s' \<Longrightarrow> uuids s' = uuids s"
  by (simp_all add: effect_def)

lemma effect_same: "effect D N s s' \<Longrightarrow> \<not> D q \<Longrightarrow> \<not> N q \<Longrightarrow> lookup s' q = lookup s q"
  unfolding effect_def by metis

lemma effect_Some: "effect D N s s' \<Longrightarrow> \<not> N q \<Longrightarrow> lookup s' q = Some n \<Longrightarrow> lookup s q = Some n"
  unfolding effect_def by (metis option.distinct(1))

lemma effect_drawn [simp]: "effect D N s (s'\<lparr>drawn := n\<rparr>) = effect D N s s'"
  by (simp add: effect_def)

lemma map_of_filter_key: "map_of (filter (\<lambda>(q, _). P q) xs) q = (if P q then map_of xs q else None)"
  by (induction xs) auto

lemma lookup_add_node: "lookup (add_node p n s) q = (case lookup s q of Some m \<Rightarrow> Some m | None \<Rightarrow> if q = p then Some n else None)"
  by (simp add: add_node_def map_add_def split: option.splits)

lemma lookup_drop_under: "lookup (drop_under p s) q = (if prefix p q then None else lookup s q)"
  by (simp add: drop_under_def map_of_filter_key)

lemma lookup_set_node: "lookup (set_node p n s) q = (if q = p \<and> lookup s p \<noteq> None then Some n else lookup s q)"
proof -
  have "map_of (map (\<lambda>(q, m). if q = p then (q, n) else (q, m)) xs) q
      = (if q = p \<and> map_of xs p \<noteq> None then Some n else map_of xs q)" for xs
    by (induction xs) auto
  then show ?thesis by (simp add: set_node_def)
qed

lemma lookup_move_under:
  assumes "\<not> prefix t q"
  shows "lookup (move_under p t s) q = (if prefix p q then None else lookup s q)"
proof -
  have "map_of (map (\<lambda>(q, n). if prefix p q then (t @ drop (length p) q, n) else (q, n)) xs) q
      = (if prefix p q then None else map_of xs q)" for xs :: "(fs_path \<times> fs_node) list"
    using assms by (induction xs) (auto split: if_splits)
  then show ?thesis by (simp add: move_under_def)
qed

lemma lookup_move_target:
  assumes "lookup s (t @ x) = None"
  shows "lookup (move_under p t s) (t @ x) = lookup s (p @ x)"
proof -
  have "map_of (map (\<lambda>(q, n). if prefix p q then (t @ drop (length p) q, n) else (q, n)) xs) (t @ x) = map_of xs (p @ x)"
    if "map_of xs (t @ x) = None" for xs :: "(fs_path \<times> fs_node) list"
    using that by (induction xs) (auto simp: prefix_def split: if_splits)
  then show ?thesis using assms by (simp add: move_under_def)
qed

lemma env_simps [simp]:
  "held (add_node p n s) = held s" "faults (add_node p n s) = faults s" "uuids (add_node p n s) = uuids s"
  "held (set_node p n s) = held s" "faults (set_node p n s) = faults s" "uuids (set_node p n s) = uuids s"
  "held (drop_under p s) = held s" "faults (drop_under p s) = faults s" "uuids (drop_under p s) = uuids s"
  "held (move_under p t s) = held s" "faults (move_under p t s) = faults s" "uuids (move_under p t s) = uuids s"
  by (simp_all add: add_node_def set_node_def drop_under_def move_under_def)

lemma effect_add_node: "effect D (\<lambda>q. q = p) s (add_node p n s)"
  by (simp add: effect_def lookup_add_node split: option.splits)

lemma effect_set_node: "effect D (\<lambda>q. q = p) s (set_node p n s)"
  by (simp add: effect_def lookup_set_node)

lemma effect_make_dirs: "effect D (\<lambda>q. q \<in> set ps) s (snd (make_dirs ps s))"
proof (induction ps arbitrary: s)
  case (Cons p ps)
  let ?N = "\<lambda>q. q \<in> set (p # ps)"
  have keep: "effect D ?N s' (snd (make_dirs ps s'))" for s'
    by (rule effect_mono [OF Cons.IH]) auto
  moreover have "effect D ?N s (add_node p fresh_dir s)"
    by (rule effect_mono [OF effect_add_node]) auto
  ultimately show ?case by (auto split: option.splits intro: effect_trans)
qed simp

lemma effect_create_dir_all [effects]: "effect D (\<lambda>q. prefix q p) s (snd (fs_create_dir_all p s))"
proof -
  have "effect D (\<lambda>q. prefix q p) s (snd (make_dirs (tl (prefixes p)) s))"
    by (rule effect_mono [OF effect_make_dirs]) (auto dest: list.set_sel(2) [rotated])
  then show ?thesis by (simp add: fs_create_dir_all_def split: option.splits)
qed

lemma effect_open_or_create [effects]: "effect D (\<lambda>q. q = p) s (snd (fs_open_or_create p s))"
  by (auto simp: fs_open_or_create_def effect_add_node split: option.splits)

lemma effect_create_new [effects]: "effect D (\<lambda>q. q = p) s (snd (fs_create_new p s))"
  by (auto simp: fs_create_new_def effect_open_or_create)

lemma effect_write_file [effects]: "effect D (\<lambda>q. q = p) s (snd (fs_write_file p bs s))"
proof -
  obtain r s1 where o: "fs_open_or_create p s = (r, s1)" by fastforce
  then have "effect D (\<lambda>q. q = p) s s1" using effect_open_or_create [of D p s] by simp
  then have "effect D (\<lambda>q. q = p) s (set_node p n s1)" for n
    by (rule effect_trans [OF _ effect_set_node])
  then show ?thesis
    using \<open>effect D (\<lambda>q. q = p) s s1\<close> by (auto simp: fs_write_file_def o split: sum.splits option.splits)
qed

lemma effect_sync [effects]: "effect D (\<lambda>q. q = p) s (snd (fs_sync p s))"
  by (auto simp: fs_sync_def effect_set_node split: option.splits)

lemma effect_rename [effects]: "effect (prefix p) (prefix t) s (snd (fs_rename p t s))"
proof -
  have "effect (prefix p) (prefix t) s (move_under p t s)" for s
    by (simp add: effect_def lookup_move_under)
  moreover have "effect (prefix p) (prefix t) s (drop_under t s)"
    by (simp add: effect_def lookup_drop_under)
  ultimately show ?thesis
    by (auto simp: fs_rename_def split: option.splits intro: effect_trans)
qed

lemma effect_remove_file [effects]: "effect (\<lambda>q. q = p) N s (snd (fs_remove_file p s))"
  by (auto simp: fs_remove_file_def effect_def map_of_filter_key split: option.splits)

lemma effect_remove_dir_all [effects]: "effect (prefix p) N s (snd (fs_remove_dir_all p s))"
proof -
  have "effect (prefix p) N s (drop_under p s)" by (simp add: effect_def lookup_drop_under)
  moreover have "effect (prefix p) N s (s\<lparr>nodes := filter (\<lambda>(q, _). \<not> prefix p q \<or> P q) (nodes s)\<rparr>)" for P
    using map_of_filter_key [of "\<lambda>q. \<not> prefix p q \<or> P q" "nodes s"] by (auto simp: effect_def)
  ultimately show ?thesis by (auto simp: fs_remove_dir_all_def split: option.splits list.splits)
qed

end
