(* ===== verification/Entry_Store.thy ===== *)
theory Entry_Store
  imports File_System
begin

text \<open>
  Store entries on disk, \<open>pipette-artifacts/src/entry.rs\<close>: sizes, manifests, the staged install
  that publishes an entry by a rename, and the lock files. The unix variants of the
  platform-dependent helpers are modelled. \<open>toml\<close> is a parameter (\<open>render\<close>), and so is what other
  processes do while this one waits (\<open>meddle\<close>, \<open>tick\<close>).
\<close>

section \<open>Definitions\<close>

subsection \<open>Names\<close>

definition BLOBS_DIR_NAME :: string where "BLOBS_DIR_NAME = ''blobs''"
definition MANIFEST_NAME :: string where "MANIFEST_NAME = ''manifest.toml''"
definition STAGING_DIR_NAME :: string where "STAGING_DIR_NAME = ''.staging''"
definition LOCKS_DIR_NAME :: string where "LOCKS_DIR_NAME = ''.locks''"
definition LOCK_SUFFIX :: string where "LOCK_SUFFIX = ''.lock''"
definition USE_SUFFIX :: string where "USE_SUFFIX = ''.use''"
definition STAGING_LOCK_ATTEMPTS :: nat where "STAGING_LOCK_ATTEMPTS = 3"
definition STAGING_NAME_PREFIX_LEN :: nat where "STAGING_NAME_PREFIX_LEN = 16"
definition STAGING_UNIQUE_HEX :: nat where "STAGING_UNIQUE_HEX = 8"
definition RENAME_ATTEMPTS :: nat where "RENAME_ATTEMPTS = 5"

datatype entry_error =
  IoAt string fs_path io_kind
| Bail string
| Prepare string
| AlsoFailedToCleanUp entry_error fs_path entry_error

definition io_at :: "string \<Rightarrow> fs_path \<Rightarrow> io_kind + 'a \<Rightarrow> entry_error + 'a" where
  "io_at doing p r = (case r of Inl k \<Rightarrow> Inl (IoAt doing p k) | Inr x \<Rightarrow> Inr x)"

definition validate_manifest_name :: "string \<Rightarrow> entry_error + unit" where
  "validate_manifest_name name =
     (if name = [] then Inl (Bail ''manifest name must not be empty'')
      else if hd name = CHR ''/'' then Inl (Bail ''manifest name must be a relative path'')
      else if CHR ''/'' \<in> set name \<or> CHR 0x5C \<in> set name
        then Inl (Bail ''manifest name must not contain path separators'')
      else if name = ''.'' \<or> name = ''..'' then Inl (Bail ''manifest name must not be a dot name'')
      else Inr ())"

definition child_manifest_path :: "fs_path \<Rightarrow> string \<Rightarrow> entry_error + fs_path" where
  "child_manifest_path target_dir name =
     bind_result (validate_manifest_name name) (\<lambda>_. Inr (target_dir @ [name]))"

subsection \<open>Sizes\<close>

definition allocated_bytes :: "fs_node \<Rightarrow> nat" where
  "allocated_bytes n = sat_mul64 (blocks n) 512"

definition depth :: "fs_state \<Rightarrow> nat" where
  "depth s = fold max (map (length \<circ> fst) (nodes s)) 0"

lemma fold_max_ge: "a \<le> fold max xs (a :: nat)" "x \<in> set xs \<Longrightarrow> x \<le> fold max xs (a :: nat)"
proof -
  show ge: "a \<le> fold max xs a" for xs and a :: nat
    by (induction xs arbitrary: a) (auto intro: order_trans [OF max.cobounded2])
  show "x \<in> set xs \<Longrightarrow> x \<le> fold max xs a"
    by (induction xs arbitrary: a) (auto intro: order_trans [OF max.cobounded1 ge])
qed

lemma children_depth:
  assumes "c \<in> set (children s p)"
  shows "length c = Suc (length p)" and "length c \<le> depth s"
proof -
  have c: "c \<noteq> []" "butlast c = p" "c \<in> fst ` set (nodes s)" using assms by (auto simp: children_def)
  then show "length c = Suc (length p)" by (cases c rule: rev_cases) auto
  show "length c \<le> depth s"
    unfolding depth_def by (rule fold_max_ge(2)) (use c(3) in auto)
qed

lemma children_closer:
  "c \<in> set (children s p) \<Longrightarrow> Suc (depth s) - length c < Suc (depth s) - length p"
  using children_depth [of c s p] by simp

lemma read_dir_children: "fs_read_dir s p = Inr cs \<Longrightarrow> cs = children s p"
  by (auto simp: fs_read_dir_def split: option.splits if_splits)

function entry_size_bytes :: "fs_state \<Rightarrow> fs_path \<Rightarrow> nat" where
  "entry_size_bytes s p =
     (case fs_stat s p of
        Inl _ \<Rightarrow> 0
      | Inr metadata \<Rightarrow>
          (let total = allocated_bytes metadata in
           if is_dir_node metadata
           then (case fs_read_dir s p of
                   Inl _ \<Rightarrow> total
                 | Inr cs \<Rightarrow> fold (\<lambda>child sum. sat_add64 sum (entry_size_bytes s child)) cs total)
           else total))"
  by pat_completeness auto
termination
  by (relation "measure (\<lambda>(s, p). Suc (depth s) - length p)")
    (auto dest!: read_dir_children intro: children_closer)

declare entry_size_bytes.simps [simp del]

subsection \<open>Writing and syncing\<close>

definition sync_file :: "fs_path \<Rightarrow> fs_state \<Rightarrow> (io_kind + unit) \<times> fs_state" where
  "sync_file p s =
     (case fs_sync p s of
        (Inl k, s1) \<Rightarrow> (if k = Unsupported \<or> k = InvalidInput then Inr () else Inl k, s1)
      | (Inr _, s1) \<Rightarrow> (Inr (), s1))"

definition open_for_sync :: "fs_path \<Rightarrow> fs_state \<Rightarrow> io_kind + fs_node" where
  "open_for_sync p s = fs_open s p"

definition sync_dir :: "fs_path \<Rightarrow> fs_state \<Rightarrow> (entry_error + unit) \<times> fs_state" where
  "sync_dir p s =
     (case fs_open s p of
        Inl k \<Rightarrow> (Inl (IoAt ''sync'' p k), s)
      | Inr _ \<Rightarrow> (let (r, s1) = sync_file p s in (io_at ''sync'' p r, s1)))"

definition write_toml_file ::
  "('m \<Rightarrow> string + string) \<Rightarrow> fs_path \<Rightarrow> 'm \<Rightarrow> fs_state \<Rightarrow> (entry_error + unit) \<times> fs_state" where
  "write_toml_file render p m s =
     (case render m of
        Inl e \<Rightarrow> (Inl (Bail e), s)
      | Inr rendered \<Rightarrow>
          (case fs_write_file p rendered s of
             (Inl k, s1) \<Rightarrow> (Inl (IoAt ''write'' p k), s1)
           | (Inr _, s1) \<Rightarrow> (let (r, s2) = sync_file p s1 in (io_at ''write'' p r, s2))))"

text \<open>The name of the temporary file carries a fresh identifier.\<close>

definition rewrite_manifest ::
  "('m \<Rightarrow> string + string) \<Rightarrow> fs_path \<Rightarrow> string \<Rightarrow> 'm \<Rightarrow> fs_state \<Rightarrow> (entry_error + unit) \<times> fs_state" where
  "rewrite_manifest render entry_dir name m s =
     (case child_manifest_path entry_dir name of
        Inl e \<Rightarrow> (Inl e, s)
      | Inr manifest_path \<Rightarrow>
          (let temp = entry_dir @ [name @ ''.'' @ uuids s (drawn s) @ ''.tmp''];
               s0 = s\<lparr>drawn := Suc (drawn s)\<rparr>
           in case write_toml_file render temp m s0 of
                (Inl e, s1) \<Rightarrow> (Inl e, snd (fs_remove_file temp s1))
              | (Inr _, s1) \<Rightarrow>
                  (case fs_rename temp manifest_path s1 of
                     (Inl k, s2) \<Rightarrow> (Inl (IoAt ''replace'' manifest_path k), snd (fs_remove_file temp s2))
                   | (Inr _, s2) \<Rightarrow> sync_dir entry_dir s2)))"

text \<open>\<open>sync_tree\<close> changes no listing, so its traversal is a list of steps run in order: a node to
  sync, or the error the traversal meets there.\<close>

datatype sync_step = SyncFileAt fs_path | SyncDirAt fs_path | FailAt entry_error

function sync_steps :: "fs_state \<Rightarrow> fs_path \<Rightarrow> sync_step list" where
  "sync_steps s p =
     (case fs_stat s p of
        Inl k \<Rightarrow> [FailAt (IoAt ''inspect'' p k)]
      | Inr metadata \<Rightarrow>
          (if is_dir_node metadata
           then (case fs_read_dir s p of
                   Inl k \<Rightarrow> [FailAt (IoAt ''read'' p k)]
                 | Inr cs \<Rightarrow> concat (map (sync_steps s) cs) @ [SyncDirAt p])
           else [SyncFileAt p]))"
  by pat_completeness auto
termination
  by (relation "measure (\<lambda>(s, p). Suc (depth s) - length p)")
    (auto dest!: read_dir_children intro: children_closer)

declare sync_steps.simps [simp del]

fun run_sync :: "sync_step list \<Rightarrow> fs_state \<Rightarrow> (entry_error + unit) \<times> fs_state" where
  "run_sync [] s = (Inr (), s)"
| "run_sync (FailAt e # steps) s = (Inl e, s)"
| "run_sync (SyncDirAt p # steps) s =
     (case sync_dir p s of (Inl e, s1) \<Rightarrow> (Inl e, s1) | (Inr _, s1) \<Rightarrow> run_sync steps s1)"
| "run_sync (SyncFileAt p # steps) s =
     (case open_for_sync p s of
        Inl k \<Rightarrow> (Inl (IoAt ''sync'' p k), s)
      | Inr _ \<Rightarrow> (case sync_file p s of
                   (Inl k, s1) \<Rightarrow> (Inl (IoAt ''sync'' p k), s1)
                 | (Inr _, s1) \<Rightarrow> run_sync steps s1))"

definition sync_tree :: "fs_path \<Rightarrow> fs_state \<Rightarrow> (entry_error + unit) \<times> fs_state" where
  "sync_tree p s = run_sync (sync_steps s p) s"

subsection \<open>Locks\<close>

definition entry_lock_path :: "fs_path \<Rightarrow> string \<Rightarrow> string \<Rightarrow> fs_path" where
  "entry_lock_path store_root key sfx = store_root @ [LOCKS_DIR_NAME, key @ sfx]"

definition open_entry_lock ::
  "fs_path \<Rightarrow> string \<Rightarrow> string \<Rightarrow> fs_state \<Rightarrow> (entry_error + fs_path) \<times> fs_state" where
  "open_entry_lock store_root key sfx s =
     (let locks = store_root @ [LOCKS_DIR_NAME]; path = entry_lock_path store_root key sfx
      in case fs_create_dir_all locks s of
           (Inl k, s1) \<Rightarrow> (Inl (IoAt ''create'' locks k), s1)
         | (Inr _, s1) \<Rightarrow>
             (case fs_open_or_create path s1 of
                (Inl k, s2) \<Rightarrow> (Inl (IoAt ''open'' path k), s2)
              | (Inr _, s2) \<Rightarrow> (Inr path, s2)))"

text \<open>A lock another process holds is waited for; a file system without locks counts as locked.\<close>

definition lock_entry :: "fs_path \<Rightarrow> string \<Rightarrow> fs_state \<Rightarrow> (entry_error + fs_path) \<times> fs_state" where
  "lock_entry store_root key s =
     (case open_entry_lock store_root key LOCK_SUFFIX s of
        (Inl e, s1) \<Rightarrow> (Inl e, s1)
      | (Inr path, s1) \<Rightarrow>
          (case fs_try_lock s1 path of
             LockTaken \<Rightarrow> (Inr path, s1)
           | WouldBlock \<Rightarrow> (Inr path, s1)
           | LockError k \<Rightarrow>
               (if k = Unsupported then Inr path else Inl (IoAt ''lock'' path k), s1)))"

definition hold_entry :: "fs_path \<Rightarrow> string \<Rightarrow> fs_state \<Rightarrow> fs_path option \<times> fs_state" where
  "hold_entry store_root key s =
     (let path = entry_lock_path store_root key USE_SUFFIX;
          (opened, s1) = (case fs_open s path of
                            Inr _ \<Rightarrow> (True, s)
                          | Inl _ \<Rightarrow> (case open_entry_lock store_root key USE_SUFFIX s of
                                       (Inl _, s1) \<Rightarrow> (False, s1) | (Inr _, s1) \<Rightarrow> (True, s1)))
      in (if opened \<and> faults s1 OpLock path = None then Some path else None, s1))"

subsection \<open>Staged directories\<close>

definition staging_lock_path :: "fs_path \<Rightarrow> fs_path" where
  "staging_lock_path staged = butlast staged @ [last staged @ LOCK_SUFFIX]"

definition staged_path :: "fs_path \<Rightarrow> string \<Rightarrow> fs_state \<Rightarrow> fs_path \<times> fs_state" where
  "staged_path staging_root name s =
     (let safe_name = (if name = [] then ''asset''
                       else map (\<lambda>c. if c = CHR ''/'' \<or> c = CHR 0x5C then CHR ''_'' else c) name);
          head = take_chars STAGING_NAME_PREFIX_LEN safe_name;
          unique = take STAGING_UNIQUE_HEX (uuids s (drawn s))
      in (staging_root @ [head @ ''.staged-'' @ unique], s\<lparr>drawn := Suc (drawn s)\<rparr>))"

text \<open>\<open>Some\<close> path is the staged directory; \<open>None\<close> means a sweep removed the lock file while this
  process waited for it. \<open>meddle\<close> is what other processes did during that wait.\<close>

definition staged_dir_lock ::
  "(fs_state \<Rightarrow> fs_state) \<Rightarrow> fs_path \<Rightarrow> fs_state \<Rightarrow> (entry_error + fs_path option) \<times> fs_state" where
  "staged_dir_lock meddle dir s =
     (let lock_path = staging_lock_path dir; s1 = meddle s in
      case faults s1 OpLock lock_path of
        Some k \<Rightarrow>
          if k \<noteq> Unsupported then (Inl (IoAt ''lock'' lock_path k), s1)
          else if \<not> fs_exists s1 lock_path then (Inr None, s1)
          else (case fs_create_dir_all dir s1 of
                  (Inl k, s2) \<Rightarrow> (Inl (IoAt ''create'' dir k), snd (fs_remove_file lock_path s2))
                | (Inr _, s2) \<Rightarrow> (Inr (Some dir), s2))
      | None \<Rightarrow>
          if \<not> fs_exists s1 lock_path then (Inr None, s1)
          else (case fs_create_dir_all dir s1 of
                  (Inl k, s2) \<Rightarrow> (Inl (IoAt ''create'' dir k), snd (fs_remove_file lock_path s2))
                | (Inr _, s2) \<Rightarrow> (Inr (Some dir), s2)))"

definition staged_dir_create ::
  "(fs_state \<Rightarrow> fs_state) \<Rightarrow> fs_path \<Rightarrow> fs_state \<Rightarrow> (entry_error + fs_path option) \<times> fs_state" where
  "staged_dir_create meddle dir s =
     (let lock_path = staging_lock_path dir in
      case fs_create_new lock_path s of
        (Inl k, s1) \<Rightarrow> (Inl (IoAt ''create'' lock_path k), s1)
      | (Inr _, s1) \<Rightarrow> staged_dir_lock meddle dir s1)"

definition staged_dir_drop :: "fs_path \<Rightarrow> fs_state \<Rightarrow> fs_state" where
  "staged_dir_drop dir s = snd (fs_remove_file (staging_lock_path dir) s)"

fun staged_attempts ::
  "nat \<Rightarrow> (fs_state \<Rightarrow> fs_state) \<Rightarrow> fs_path \<Rightarrow> string \<Rightarrow> fs_state \<Rightarrow> (entry_error + fs_path option) \<times> fs_state" where
  "staged_attempts 0 meddle staging_root name s = (Inr None, s)"
| "staged_attempts (Suc n) meddle staging_root name s =
     (let (dir, s0) = staged_path staging_root name s in
      case staged_dir_create meddle dir s0 of
        (Inr None, s1) \<Rightarrow> staged_attempts n meddle staging_root name s1
      | done \<Rightarrow> done)"

definition create_staged_dir ::
  "(fs_state \<Rightarrow> fs_state) \<Rightarrow> fs_path \<Rightarrow> string \<Rightarrow> fs_state \<Rightarrow> (entry_error + fs_path) \<times> fs_state" where
  "create_staged_dir meddle staging_root name s =
     (case fs_create_dir_all staging_root s of
        (Inl k, s1) \<Rightarrow> (Inl (IoAt ''create'' staging_root k), s1)
      | (Inr _, s1) \<Rightarrow>
          (case staged_attempts STAGING_LOCK_ATTEMPTS meddle staging_root name s1 of
             (Inl e, s2) \<Rightarrow> (Inl e, s2)
           | (Inr None, s2) \<Rightarrow> (Inl (Bail ''a sweep removed the staging lock''), s2)
           | (Inr (Some dir), s2) \<Rightarrow> (Inr dir, s2)))"

subsection \<open>Publishing\<close>

definition remove_target :: "fs_path \<Rightarrow> fs_state \<Rightarrow> (entry_error + unit) \<times> fs_state" where
  "remove_target p s =
     (if \<not> fs_exists s p then (Inr (), s)
      else (let (r, s1) = fs_remove_dir_all p s in (io_at ''remove'' p r, s1)))"

definition cleanup_path :: "fs_path \<Rightarrow> fs_state \<Rightarrow> (entry_error + unit) \<times> fs_state" where
  "cleanup_path p s =
     (if \<not> fs_exists s p then (Inr (), s)
      else (case fs_stat s p of
              Inl k \<Rightarrow> (Inl (IoAt ''read metadata'' p k), s)
            | Inr metadata \<Rightarrow>
                (let (r, s1) = (if is_dir_node metadata then fs_remove_dir_all p s else fs_remove_file p s)
                 in (io_at ''remove'' p r, s1))))"

definition preserve_with_cleanup :: "entry_error \<Rightarrow> entry_error + unit \<Rightarrow> fs_path \<Rightarrow> entry_error" where
  "preserve_with_cleanup err cleanup p =
     (case cleanup of Inr _ \<Rightarrow> err | Inl cleanup_err \<Rightarrow> AlsoFailedToCleanUp err p cleanup_err)"

text \<open>\<open>left\<close> is how many further attempts remain; only on Windows is a refused rename tried again,
  after a sleep in which \<open>tick\<close> happens.\<close>

fun move_attempts ::
  "nat \<Rightarrow> bool \<Rightarrow> (fs_state \<Rightarrow> fs_state) \<Rightarrow> fs_path \<Rightarrow> fs_path \<Rightarrow> fs_state \<Rightarrow> (entry_error + unit) \<times> fs_state" where
  "move_attempts left windows tick source target s =
     (case fs_rename source target s of
        (Inl k, s1) \<Rightarrow>
          (if windows \<and> k = PermissionDenied
           then (case left of
                   0 \<Rightarrow> (Inl (IoAt ''stage'' target k), s1)
                 | Suc n \<Rightarrow> move_attempts n windows tick source target (tick s1))
           else (Inl (IoAt ''stage'' target k), s1))
      | (Inr _, s1) \<Rightarrow> (Inr (), s1))"

declare move_attempts.simps [simp del]

definition move_into_place ::
  "bool \<Rightarrow> (fs_state \<Rightarrow> fs_state) \<Rightarrow> fs_path \<Rightarrow> fs_path \<Rightarrow> fs_state \<Rightarrow> (entry_error + unit) \<times> fs_state" where
  "move_into_place = move_attempts (RENAME_ATTEMPTS - 1)"

definition replace_staged_path ::
  "bool \<Rightarrow> (fs_state \<Rightarrow> fs_state) \<Rightarrow> fs_path \<Rightarrow> fs_path \<Rightarrow> fs_state \<Rightarrow> (entry_error + unit) \<times> fs_state" where
  "replace_staged_path windows tick staged target s =
     (case (if target = [] then (Inr (), s) else fs_create_dir_all (butlast target) s) of
        (Inl k, s1) \<Rightarrow> (Inl (IoAt ''create'' (butlast target) k), s1)
      | (Inr _, s1) \<Rightarrow>
          (case (if fs_exists s1 target then remove_target target s1 else (Inr (), s1)) of
             (Inl e, s2) \<Rightarrow> (Inl e, s2)
           | (Inr _, s2) \<Rightarrow> move_into_place windows tick staged target s2))"

definition write_manifest_guarded ::
  "('m \<Rightarrow> string + string) \<Rightarrow> fs_path \<Rightarrow> string \<Rightarrow> 'm \<Rightarrow> fs_state \<Rightarrow> (entry_error + unit) \<times> fs_state" where
  "write_manifest_guarded render staged_dir name m s =
     (case child_manifest_path staged_dir name of
        Inl e \<Rightarrow> (Inl e, s)
      | Inr manifest_path \<Rightarrow>
          (if fs_exists s manifest_path
           then (Inl (Bail ''staged bundle already contains the reserved name''), s)
           else write_toml_file render manifest_path m s))"

type_synonym 'a preparer = "fs_path \<Rightarrow> fs_state \<Rightarrow> (entry_error + 'a) \<times> fs_state"

definition prepare_and_sync :: "'a preparer \<Rightarrow> 'a preparer" where
  "prepare_and_sync prepare dir s =
     (case prepare dir s of
        (Inl e, s1) \<Rightarrow> (Inl e, s1)
      | (Inr prepared, s1) \<Rightarrow>
          (case sync_tree dir s1 of (Inl e, s2) \<Rightarrow> (Inl e, s2) | (Inr _, s2) \<Rightarrow> (Inr prepared, s2)))"

definition publish_staged ::
  "bool \<Rightarrow> (fs_state \<Rightarrow> fs_state) \<Rightarrow> fs_path \<Rightarrow> 'a preparer \<Rightarrow> 'a preparer" where
  "publish_staged windows tick target prepare dir s =
     (case prepare_and_sync prepare dir s of
        (Inl err, s1) \<Rightarrow>
          (let (c, s2) = cleanup_path dir s1 in (Inl (preserve_with_cleanup err c dir), s2))
      | (Inr prepared, s1) \<Rightarrow>
          (case replace_staged_path windows tick dir target s1 of
             (Inl err, s2) \<Rightarrow>
               (let (c, s3) = cleanup_path target s2;
                    err1 = preserve_with_cleanup err c target;
                    (c1, s4) = cleanup_path dir s3
                in (Inl (preserve_with_cleanup err1 c1 dir), s4))
           | (Inr _, s2) \<Rightarrow>
               (Inr prepared, if target = [] then s2 else snd (sync_dir (butlast target) s2))))"

definition replace_dir_from_staged ::
  "bool \<Rightarrow> (fs_state \<Rightarrow> fs_state) \<Rightarrow> (fs_state \<Rightarrow> fs_state) \<Rightarrow> fs_path \<Rightarrow> fs_path \<Rightarrow> string \<Rightarrow> 'a preparer
     \<Rightarrow> fs_state \<Rightarrow> (entry_error + 'a) \<times> fs_state" where
  "replace_dir_from_staged windows meddle tick staging_root target name prepare s =
     (case create_staged_dir meddle staging_root name s of
        (Inl e, s1) \<Rightarrow> (Inl e, s1)
      | (Inr dir, s1) \<Rightarrow>
          (let (r, s2) = publish_staged windows tick target prepare dir s1
           in (r, staged_dir_drop dir s2)))"

definition install_dir_computing_manifest ::
  "bool \<Rightarrow> (fs_state \<Rightarrow> fs_state) \<Rightarrow> (fs_state \<Rightarrow> fs_state) \<Rightarrow> ('m \<Rightarrow> string + string)
     \<Rightarrow> fs_path \<Rightarrow> fs_path \<Rightarrow> string \<Rightarrow> string \<Rightarrow> 'm preparer \<Rightarrow> fs_state \<Rightarrow> (entry_error + 'm) \<times> fs_state" where
  "install_dir_computing_manifest windows meddle tick render staging_root target staging_name manifest_name prepare =
     replace_dir_from_staged windows meddle tick staging_root target staging_name
       (\<lambda>dir s. case prepare dir s of
                  (Inl e, s1) \<Rightarrow> (Inl e, s1)
                | (Inr m, s1) \<Rightarrow>
                    (case write_manifest_guarded render dir manifest_name m s1 of
                       (Inl e, s2) \<Rightarrow> (Inl e, s2) | (Inr _, s2) \<Rightarrow> (Inr m, s2)))"

section \<open>What the operations change\<close>

lemma effect_fst_eq: "f = (r, s') \<Longrightarrow> effect D N s (snd f) \<Longrightarrow> effect D N s s'"
  by simp

lemma effect_sync_file [effects]: "effect D (\<lambda>q. q = p) s (snd (sync_file p s))"
  using effect_sync [of D p s] by (auto simp: sync_file_def split: prod.splits sum.splits)

lemma effect_sync_dir [effects]: "effect D (\<lambda>q. q = p) s (snd (sync_dir p s))"
  using effect_sync_file [of D p s] by (auto simp: sync_dir_def split: prod.splits sum.splits)

lemma effect_write_toml_file [effects]: "effect D (\<lambda>q. q = p) s (snd (write_toml_file render p m s))"
proof (cases "render m")
  case (Inr rendered)
  obtain r s1 where w: "fs_write_file p rendered s = (r, s1)" by fastforce
  have "effect D (\<lambda>q. q = p) s s1" using effect_write_file [of D p s rendered] w by simp
  moreover have "effect D (\<lambda>q. q = p) s (snd (sync_file p s1))"
    by (rule effect_trans [OF calculation effect_sync_file])
  ultimately show ?thesis
    by (auto simp: write_toml_file_def Inr w split: sum.splits prod.splits)
qed (simp add: write_toml_file_def)

lemma effect_write_manifest_guarded [effects]:
  "effect D (prefix dir) s (snd (write_manifest_guarded render dir name m s))"
proof -
  have "effect D (prefix dir) s (snd (write_toml_file render (dir @ [name]) m s))"
    by (rule effect_mono [OF effect_write_toml_file]) auto
  then show ?thesis
    by (auto simp: write_manifest_guarded_def child_manifest_path_def bind_result_def split: sum.splits)
qed

lemma sync_steps_under:
  "SyncFileAt q \<in> set (sync_steps s p) \<or> SyncDirAt q \<in> set (sync_steps s p) \<Longrightarrow> prefix p q"
proof (induction s p rule: sync_steps.induct)
  case (1 s p)
  have "prefix p c" if "c \<in> set (children s p)" for c
    using that by (auto simp: children_def) (metis append_butlast_last_id prefixI)
  then have below: "prefix p q" if "fs_stat s p = Inr n" "is_dir_node n" "fs_read_dir s p = Inr (children s p)"
      "c \<in> set (children s p)" "SyncFileAt q \<in> set (sync_steps s c) \<or> SyncDirAt q \<in> set (sync_steps s c)" for n c
    using "1.IH" that prefix_order.trans by blast
  show ?case
    using "1.prems" [unfolded sync_steps.simps [of s p]] read_dir_children [of s p]
    by (auto split: sum.splits if_splits intro: below)
qed

lemma effect_run_sync:
  "(\<And>q. SyncFileAt q \<in> set steps \<or> SyncDirAt q \<in> set steps \<Longrightarrow> N q) \<Longrightarrow> effect D N s (snd (run_sync steps s))"
proof (induction steps s rule: run_sync.induct)
  case (3 p steps s)
  obtain r s1 where r: "sync_dir p s = (r, s1)" by fastforce
  have "effect D N s s1"
    using effect_sync_dir [of D p s] r 3(2) [of p] by (auto intro: effect_mono)
  then show ?case using 3 r by (auto split: sum.splits intro: effect_trans)
next
  case (4 p steps s)
  obtain r s1 where r: "sync_file p s = (r, s1)" by fastforce
  have "effect D N s s1"
    using effect_sync_file [of D p s] r 4(2) [of p] by (auto intro: effect_mono)
  then show ?case using 4 r by (auto split: sum.splits intro: effect_trans)
qed simp_all

lemma effect_sync_tree [effects]: "effect D (prefix p) s (snd (sync_tree p s))"
  unfolding sync_tree_def by (rule effect_run_sync) (rule sync_steps_under)

lemma effect_open_entry_lock [effects]:
  "effect D (\<lambda>q. prefix q root \<or> prefix (root @ [LOCKS_DIR_NAME]) q) s (snd (open_entry_lock root key sfx s))"
  (is "effect D ?N s _")
proof -
  obtain r s1 where c: "fs_create_dir_all (root @ [LOCKS_DIR_NAME]) s = (r, s1)" by fastforce
  have 1: "effect D ?N s s1"
    using effect_create_dir_all [of D "root @ [LOCKS_DIR_NAME]" s] c
    by (auto intro: effect_mono simp: prefix_snoc)
  have "effect D ?N s1 (snd (fs_open_or_create (entry_lock_path root key sfx) s1))"
    by (rule effect_mono [OF effect_open_or_create]) (auto simp: entry_lock_path_def)
  then show ?thesis
    using 1 by (auto simp: open_entry_lock_def Let_def c split: sum.splits prod.splits intro: effect_trans)
qed

lemma effect_remove_target [effects]: "effect (prefix p) N s (snd (remove_target p s))"
  using effect_remove_dir_all [of p N s] by (auto simp: remove_target_def split: prod.splits)

lemma effect_cleanup_path [effects]: "effect (prefix p) N s (snd (cleanup_path p s))"
proof -
  have "effect (prefix p) N s (snd (fs_remove_file p s))"
    by (rule effect_mono [OF effect_remove_file]) auto
  then show ?thesis
    using effect_remove_dir_all [of p N s]
    by (auto simp: cleanup_path_def Let_def split: prod.splits sum.splits)
qed

lemma effect_move_attempts:
  assumes tick: "\<And>s. effect (prefix p) (prefix t) s (tick s)"
  shows "effect (prefix p) (prefix t) s (snd (move_attempts n windows tick p t s))"
proof (induction n arbitrary: s)
  case 0
  then show ?case
    using effect_rename [of p t s] by (subst move_attempts.simps) (auto split: prod.splits sum.splits)
next
  case (Suc n)
  obtain r s1 where r: "fs_rename p t s = (r, s1)" by fastforce
  have 1: "effect (prefix p) (prefix t) s s1" using effect_rename [of p t s] r by simp
  also have "effect (prefix p) (prefix t) s1 (tick s1)" by (rule tick)
  finally (effect_trans) have "effect (prefix p) (prefix t) s (tick s1)" .
  from effect_trans [OF this Suc.IH] 1 show ?case
    by (subst move_attempts.simps) (auto simp: r split: sum.splits)
qed

lemma lookup_fs_rename:
  assumes "fs_rename p t s = (Inr u, s')" and "\<not> prefix t p"
  shows "lookup s' t = lookup s p"
proof -
  have "(lookup s t = None \<and> s' = move_under p t s) \<or> s' = move_under p t (drop_under t s)"
    using assms(1) by (auto simp: fs_rename_def split: option.splits if_splits)
  then show ?thesis
    using lookup_move_target [of s t "[]" p] lookup_move_target [of "drop_under t s" t "[]" p] assms(2)
    by (auto simp: lookup_drop_under)
qed

section \<open>Rewriting a manifest\<close>

lemma write_toml_file_Inr:
  assumes "write_toml_file render p m s = (Inr u, s')"
  obtains bs n where "render m = Inr bs" "lookup s' p = Some n" "contents n = bs" "\<not> is_dir_node n"
    "synced n \<or> faults s OpSync p \<in> {Some Unsupported, Some InvalidInput}"
proof -
  from assms obtain bs s1 r where bs: "render m = Inr bs" "fs_write_file p bs s = (Inr (), s1)"
    and sf: "sync_file p s1 = (Inr r, s')"
    by (auto simp: write_toml_file_def io_at_def split: sum.splits prod.splits)
  then have l1: "lookup s1 p = Some (fresh_file\<lparr>contents := bs\<rparr>)"
    by (auto simp: fs_write_file_def fs_open_or_create_def lookup_set_node lookup_add_node
        split: option.splits if_splits prod.splits)
  have f1: "faults s1 = faults s"
    using effect_write_file [of "\<lambda>_. False" p s bs] bs(2) by (auto dest: effect_env)
  show ?thesis
  proof (rule that [OF bs(1)])
    let ?n = "if faults s OpSync p = None then fresh_file\<lparr>contents := bs, synced := True\<rparr> else fresh_file\<lparr>contents := bs\<rparr>"
    show "lookup s' p = Some ?n"
      using sf l1 by (auto simp: sync_file_def fs_sync_def lookup_set_node f1 split: option.splits if_splits)
    show "synced ?n \<or> faults s OpSync p \<in> {Some Unsupported, Some InvalidInput}"
      using sf l1 by (auto simp: sync_file_def fs_sync_def f1 split: option.splits if_splits)
  qed (simp_all add: fresh_file_def)
qed

lemma rewrite_manifest_cases:
  assumes "rewrite_manifest render dir name m s = (r, s')"
  shows "(lookup s' (dir @ [name]) = lookup s (dir @ [name]) \<and> r \<noteq> Inr ())
    \<or> (\<exists>bs n. render m = Inr bs \<and> lookup s' (dir @ [name]) = Some n \<and> contents n = bs \<and> \<not> is_dir_node n
         \<and> (synced n \<or> faults s OpSync (dir @ [name @ ''.'' @ uuids s (drawn s) @ ''.tmp''])
              \<in> {Some Unsupported, Some InvalidInput}))"
proof -
  define t where "t = dir @ [name @ ''.'' @ uuids s (drawn s) @ ''.tmp'']"
  let ?m = "dir @ [name]"
  let ?s0 = "s\<lparr>drawn := Suc (drawn s)\<rparr>"
  have ne: "\<not> prefix t ?m" "\<not> prefix ?m t" "?m \<noteq> t" by (auto simp: t_def)
  have "(lookup s' ?m = lookup s ?m \<and> r \<noteq> Inr ())
    \<or> (\<exists>bs n. render m = Inr bs \<and> lookup s' ?m = Some n \<and> contents n = bs \<and> \<not> is_dir_node n
         \<and> (synced n \<or> faults s OpSync t \<in> {Some Unsupported, Some InvalidInput}))" (is ?atomic)
  proof (cases "validate_manifest_name name")
    case (Inl e)
    then show ?atomic using assms by (auto simp: rewrite_manifest_def child_manifest_path_def)
  next
    case (Inr u)
    obtain r1 s1 where w: "write_toml_file render t m ?s0 = (r1, s1)" by fastforce
    have same1: "lookup s1 ?m = lookup s ?m"
      using effect_same [OF effect_write_toml_file [of "\<lambda>_. False" t ?s0 render m], of ?m] w ne by simp
    have gone: "lookup (snd (fs_remove_file t v)) ?m = lookup v ?m" for v
      using effect_same [OF effect_remove_file [of t "\<lambda>_. False" v], of ?m] ne by simp
    obtain r2 s2 where rn: "fs_rename t ?m s1 = (r2, s2)" by fastforce
    have run: "(case r1 of Inl e \<Rightarrow> (Inl e, snd (fs_remove_file t s1))
        | Inr _ \<Rightarrow> (case r2 of Inl k \<Rightarrow> (Inl (IoAt ''replace'' ?m k), snd (fs_remove_file t s2))
                      | Inr _ \<Rightarrow> sync_dir dir s2)) = (r, s')"
      using assms
      unfolding rewrite_manifest_def child_manifest_path_def Inr Let_def bind_result_simps sum.case t_def [symmetric]
      by (cases r1; cases r2) (auto simp: w rn)
    show ?atomic
    proof (cases "\<exists>v1 v2. r1 = Inr v1 \<and> r2 = Inr v2")
      case True
      then obtain bs n where n: "render m = Inr bs" "lookup s1 t = Some n" "contents n = bs" "\<not> is_dir_node n"
        "synced n \<or> faults ?s0 OpSync t \<in> {Some Unsupported, Some InvalidInput}"
        using w by (auto elim: write_toml_file_Inr)
      have "lookup s2 ?m = Some n" using True rn n(2) lookup_fs_rename [OF _ ne(2)] by metis
      moreover have "lookup s' ?m = lookup s2 ?m"
        using effect_same [OF effect_sync_dir [of "\<lambda>_. False" dir s2], of ?m] run True by auto
      ultimately show ?atomic using n by auto
    next
      case False
      have "lookup s2 ?m = lookup s ?m" if "r2 = Inl k" for k
        using rn that same1 by (auto simp: fs_rename_def split: option.splits if_splits)
      then show ?atomic using run False same1 by (auto simp: gone split: sum.splits)
    qed
  qed
  then show ?thesis unfolding t_def .
qed

section \<open>Staged installs\<close>

lemma staged_path_under: "staged_path root name s = (dir, s') \<Longrightarrow> \<exists>x. dir = root @ [x] \<and> s' = s\<lparr>drawn := Suc (drawn s)\<rparr>"
  by (auto simp: staged_path_def Let_def)

lemma effect_staged_dir_create:
  assumes meddle: "\<And>s. effect (prefix root) (prefix root) s (meddle s)" and dir: "dir = root @ [x]"
  shows "effect (prefix root) (\<lambda>q. prefix root q \<or> prefix q root) s (snd (staged_dir_create meddle dir s))"
    (is "effect ?D ?N s _")
proof -
  have lock: "effect ?D ?N v (snd (fs_remove_file (staging_lock_path dir) v))" for v
    by (rule effect_mono [OF effect_remove_file]) (auto simp: staging_lock_path_def dir)
  have mk: "effect ?D ?N v (snd (fs_create_dir_all dir v))" for v
    by (rule effect_mono [OF effect_create_dir_all]) (auto simp: dir prefix_snoc)
  have med: "effect ?D ?N v (meddle v)" for v by (rule effect_mono [OF meddle]) auto
  have made: "effect ?D ?N v s2" "effect ?D ?N v (snd (fs_remove_file (staging_lock_path dir) s2))"
    if "fs_create_dir_all dir (meddle v) = (r, s2)" for v r s2
    using effect_trans [OF med mk, of v] effect_trans [OF effect_trans [OF med mk, of v] lock] that by auto
  have locked: "effect ?D ?N v (snd (staged_dir_lock meddle dir v))" for v
    using med made by (auto simp: staged_dir_lock_def Let_def split: option.splits sum.splits prod.splits)
  obtain r s1 where c: "fs_create_new (staging_lock_path dir) s = (r, s1)" by fastforce
  have "effect ?D ?N s (snd (fs_create_new (staging_lock_path dir) s))"
    by (rule effect_mono [OF effect_create_new]) (auto simp: staging_lock_path_def dir)
  then show ?thesis
    using effect_trans [OF _ locked] c by (auto simp: staged_dir_create_def Let_def split: sum.splits)
qed

lemma effect_create_staged_dir:
  assumes meddle: "\<And>s. effect (prefix root) (prefix root) s (meddle s)"
  shows "effect (prefix root) (\<lambda>q. prefix root q \<or> prefix q root) s (snd (create_staged_dir meddle root name s))"
    (is "effect ?D ?N s _")
proof -
  have att: "effect ?D ?N v (snd (staged_attempts n meddle root name v))" for n v
  proof (induction n arbitrary: v)
    case (Suc n)
    obtain dir v0 where sp: "staged_path root name v = (dir, v0)" by fastforce
    then obtain x where x: "dir = root @ [x]" and v0: "v0 = v\<lparr>drawn := Suc (drawn v)\<rparr>"
      using staged_path_under by blast
    obtain r v1 where c: "staged_dir_create meddle dir v0 = (r, v1)" by fastforce
    have "effect ?D ?N v v0" by (simp add: v0)
    then have "effect ?D ?N v v1"
      using effect_staged_dir_create [OF meddle x, of v0] c by (auto intro: effect_trans)
    then show ?case
      using effect_trans [OF _ Suc.IH, of v v1] by (auto simp: sp c split: sum.splits option.splits)
  qed simp
  obtain r s1 where c: "fs_create_dir_all root s = (r, s1)" by fastforce
  have "effect ?D ?N s (snd (fs_create_dir_all root s))"
    by (rule effect_mono [OF effect_create_dir_all]) auto
  then have "effect ?D ?N s s1" by (simp add: c)
  moreover obtain r2 s2 where a: "staged_attempts STAGING_LOCK_ATTEMPTS meddle root name s1 = (r2, s2)" by fastforce
  ultimately have "effect ?D ?N s s2" using effect_trans [OF _ att, of s s1 STAGING_LOCK_ATTEMPTS] by simp
  with \<open>effect ?D ?N s s1\<close> show ?thesis
    by (auto simp: create_staged_dir_def c a split: sum.splits option.splits)
qed

lemma create_staged_dir_under:
  assumes "create_staged_dir meddle root name s = (Inr dir, s')"
  shows "\<exists>x. dir = root @ [x]"
proof -
  have created: "d = e" if "staged_dir_create meddle e v = (Inr (Some d), v')" for d e v v'
    using that
    by (auto simp: staged_dir_create_def staged_dir_lock_def Let_def split: sum.splits option.splits if_splits prod.splits)
  have "\<exists>x. d = root @ [x]" if "staged_attempts n meddle root name v = (Inr (Some d), v')" for n d v v'
    using that
    by (induction n arbitrary: v)
      (auto dest!: created dest: staged_path_under split: prod.splits sum.splits option.splits)
  then show ?thesis
    using assms by (auto simp: create_staged_dir_def split: prod.splits sum.splits option.splits)
qed

lemma effect_prepare_and_sync:
  assumes prepare: "\<And>s. effect (prefix dir) (prefix dir) s (snd (prepare dir s))"
  shows "effect (prefix dir) (prefix dir) s (snd (prepare_and_sync prepare dir s))"
proof -
  obtain r s1 where p: "prepare dir s = (r, s1)" by fastforce
  then have "effect (prefix dir) (prefix dir) s s1" using prepare [of s] by simp
  moreover have "effect (prefix dir) (prefix dir) s s2" if "sync_tree dir s1 = (r2, s2)" for r2 s2
    using effect_trans [OF calculation effect_sync_tree [of "prefix dir" dir s1]] that by simp
  ultimately show ?thesis by (auto simp: prepare_and_sync_def p split: sum.splits prod.splits)
qed

lemma effect_publish_staged:
  assumes prepare: "\<And>s. effect (prefix dir) (prefix dir) s (snd (prepare dir s))"
    and tick: "\<And>s. effect (prefix dir) (prefix target) s (tick s)"
  shows "effect (\<lambda>q. prefix dir q \<or> prefix target q) (\<lambda>q. prefix dir q \<or> prefix target q \<or> prefix q target)
    s (snd (publish_staged windows tick target prepare dir s))" (is "effect ?D ?N s _")
proof -
  obtain r s1 where p: "prepare_and_sync prepare dir s = (r, s1)" by fastforce
  have "effect ?D ?N s (snd (prepare_and_sync prepare dir s))"
    by (rule effect_mono [OF effect_prepare_and_sync [of dir prepare, OF prepare]]) auto
  then have s1: "effect ?D ?N s s1" by (simp add: p)
  have clean: "effect ?D ?N v (snd (cleanup_path dir v))" "effect ?D ?N v (snd (cleanup_path target v))" for v
    by (rule effect_mono [OF effect_cleanup_path]; auto)+
  have replace: "effect ?D ?N v (snd (replace_staged_path windows tick dir target v))" for v
  proof -
    have up: "prefix q target" if "prefix q (butlast target)" for q
      using that prefix_order.trans prefixeq_butlast by blast
    have mk: "effect ?D ?N v (snd (if target = [] then (Inr (), v) else fs_create_dir_all (butlast target) v))"
      by (auto intro!: effect_mono [OF effect_create_dir_all] dest: up)
    have rm: "effect ?D ?N u (snd (if fs_exists u target then remove_target target u else (Inr (), u)))" for u
      by (auto intro!: effect_mono [OF effect_remove_target])
    have mv: "effect ?D ?N u (snd (move_into_place windows tick dir target u))" for u
      unfolding move_into_place_def by (rule effect_mono [OF effect_move_attempts [of dir target tick, OF tick]]) auto
    show ?thesis
      unfolding replace_staged_path_def
      using mk effect_trans [OF mk rm] effect_trans [OF effect_trans [OF mk rm] mv]
      by (auto split: sum.splits prod.splits)
  qed
  obtain r2 s2 where rp: "replace_staged_path windows tick dir target s1 = (r2, s2)" by fastforce
  have s2: "effect ?D ?N s s2" using effect_trans [OF s1 replace] rp by simp
  have sync: "effect ?D ?N s (snd (sync_dir (butlast target) s2))" if "target \<noteq> []"
  proof (rule effect_trans [OF s2])
    show "effect ?D ?N s2 (snd (sync_dir (butlast target) s2))"
      by (rule effect_mono [OF effect_sync_dir]) (auto simp: prefixeq_butlast)
  qed
  show ?thesis
    using s1 s2 sync effect_trans [OF s1 clean(1)] effect_trans [OF s2 clean(2)]
      effect_trans [OF effect_trans [OF s2 clean(2)] clean(1)]
    by (auto simp: publish_staged_def p rp Let_def split: sum.splits prod.splits)
qed

section \<open>Properties\<close>

text \<open>C22. Rewriting a published manifest is atomic under any injected faults: afterwards the path
  holds the very node it held before, or a file with exactly the rendered manifest that was synced
  before the rename (unless its file system cannot sync); and success means the latter.\<close>

theorem rewrite_manifest_atomic:
  "case rewrite_manifest render dir name m s of (r, s') \<Rightarrow>
     (lookup s' (dir @ [name]) = lookup s (dir @ [name]) \<and> r \<noteq> Inr ())
     \<or> (\<exists>bs n. render m = Inr bs \<and> lookup s' (dir @ [name]) = Some n \<and> contents n = bs \<and> \<not> is_dir_node n
          \<and> (synced n \<or> faults s OpSync (dir @ [name @ ''.'' @ uuids s (drawn s) @ ''.tmp''])
               \<in> {Some Unsupported, Some InvalidInput}))"
  by (rule prod.split [THEN iffD2]) (auto dest!: rewrite_manifest_cases)

text \<open>The preparation of an install: the caller's, then the manifest it returned.\<close>

definition with_manifest where
  "with_manifest render manifest prepare = (\<lambda>dir s. case prepare dir s of
      (Inl e, s1) \<Rightarrow> (Inl e, s1)
    | (Inr m, s1) \<Rightarrow> (case write_manifest_guarded render dir manifest m s1 of
                       (Inl e, s2) \<Rightarrow> (Inl e, s2) | (Inr _, s2) \<Rightarrow> (Inr m, s2)))"

lemma effect_with_manifest:
  assumes prepare: "\<And>dir s. effect (prefix dir) (prefix dir) s (snd (prepare dir s))"
  shows "effect (prefix dir) (prefix dir) s (snd (with_manifest render manifest prepare dir s))"
proof -
  obtain r s1 where p: "prepare dir s = (r, s1)" by fastforce
  then have 1: "effect (prefix dir) (prefix dir) s s1" using prepare [of dir s] by simp
  have "effect (prefix dir) (prefix dir) s v" if "write_manifest_guarded render dir manifest m s1 = (x, v)" for m x v
    using effect_trans [OF 1 effect_write_manifest_guarded [of _ dir s1 render manifest m]] that by simp
  with 1 show ?thesis by (auto simp: with_manifest_def p split: sum.splits prod.splits)
qed

lemma publish_frame:
  assumes tick: "\<And>s. effect (\<lambda>_. False) (\<lambda>_. False) s (tick s)"
    and prepare: "\<And>dir s. effect (prefix dir) (prefix dir) s (snd (prepare dir s))"
    and q: "\<not> prefix dir q"
    and target: "(\<forall>dir s. \<exists>e. fst (prepare dir s) = Inl e) \<or> \<not> prefix target q \<and> \<not> prefix q target"
  shows "lookup (snd (publish_staged windows tick target (with_manifest render manifest prepare) dir s)) q = lookup s q"
proof (cases "\<forall>dir s. \<exists>e. fst (prepare dir s) = Inl e")
  case True
  then obtain e v where e: "prepare dir s = (Inl e, v)" by (metis prod.collapse)
  then have v: "effect (prefix dir) (prefix dir) s v" using prepare [of dir s] by simp
  have "snd (publish_staged windows tick target (with_manifest render manifest prepare) dir s) = snd (cleanup_path dir v)"
    by (auto simp: publish_staged_def prepare_and_sync_def with_manifest_def e split: prod.splits)
  then show ?thesis using effect_trans [OF v effect_cleanup_path] q by (auto dest: effect_same)
next
  case False
  then have "\<not> prefix target q" "\<not> prefix q target" using target by auto
  moreover have "effect (prefix dir) (prefix target) s (tick s)" for s
    by (rule effect_mono [OF tick]) auto
  ultimately show ?thesis
    using effect_same [OF effect_publish_staged [of dir "with_manifest render manifest prepare" target tick,
        OF effect_with_manifest [OF prepare], of s windows], of q] q by simp
qed

text \<open>C23. A staged install touches nothing but its staging root, its target and their missing
  ancestors, whatever faults occur, however often a sweep spends its staging name, and whether it
  succeeds or not; and when preparing the payload fails, it does not touch the target either. The
  hypotheses say that the caller's closure stays in the staged directory it is given and that the
  other processes stay in the staging root.\<close>

theorem install_frame:
  assumes meddle: "\<And>s. effect (prefix staging) (prefix staging) s (meddle s)"
    and tick: "\<And>s. effect (\<lambda>_. False) (\<lambda>_. False) s (tick s)"
    and prepare: "\<And>dir s. effect (prefix dir) (prefix dir) s (snd (prepare dir s))"
    and q: "\<not> prefix staging q" "\<not> prefix q staging"
    and target: "(\<forall>dir s. \<exists>e. fst (prepare dir s) = Inl e) \<or> \<not> prefix target q \<and> \<not> prefix q target"
  shows "lookup (snd (install_dir_computing_manifest windows meddle tick render staging target
      name manifest prepare s)) q = lookup s q"
proof -
  let ?prep = "with_manifest render manifest prepare"
  obtain r s1 where c: "create_staged_dir meddle staging name s = (r, s1)" by fastforce
  have s1: "lookup s1 q = lookup s q"
    using effect_same [OF effect_create_staged_dir [of staging meddle, OF meddle, of s name], of q] c q by simp
  show ?thesis
  proof (cases r)
    case (Inl e)
    then show ?thesis
      using s1 by (simp add: install_dir_computing_manifest_def replace_dir_from_staged_def c)
  next
    case (Inr dir)
    then obtain x where x: "dir = staging @ [x]" using create_staged_dir_under c by blast
    then have nd: "\<not> prefix dir q" using q(1) by (auto simp: prefix_def)
    obtain r2 s2 where p: "publish_staged windows tick target ?prep dir s1 = (r2, s2)" by fastforce
    have "lookup s2 q = lookup s1 q"
      using publish_frame [OF tick prepare nd target, where s = s1 and windows = windows and render = render and manifest = manifest] p
      by simp
    moreover have "q \<noteq> staging_lock_path dir" using q(1) by (auto simp: staging_lock_path_def x)
    then have "lookup (staged_dir_drop dir s2) q = lookup s2 q"
      unfolding staged_dir_drop_def
      using effect_same [OF effect_remove_file [of "staging_lock_path dir" "\<lambda>_. False" s2], of q] by simp
    ultimately show ?thesis
      using s1 by (simp add: install_dir_computing_manifest_def replace_dir_from_staged_def c Inr p
          flip: with_manifest_def)
  qed
qed

theorem install_frame_witness:
  "let node = fresh_file\<lparr>contents := ''kept''\<rparr>;
       s = \<lparr>nodes = [([], fresh_dir), ([''m''], fresh_dir), ([''m'', ''other''], node)], held = (\<lambda>_. False),
             faults = (\<lambda>op p. if op = OpRename then Some PermissionDenied else None), uuids = (\<lambda>_. ''0123456789''),
             drawn = 0\<rparr>;
       prepare = (\<lambda>dir s. case fs_write_file (dir @ [''blob'']) ''payload'' s of
                            (Inl k, s1) \<Rightarrow> (Inl (Prepare ''blob''), s1) | (Inr _, s1) \<Rightarrow> (Inr ''manifest'', s1))
   in lookup (snd (install_dir_computing_manifest True id id Inr [''m'', ''.staging''] [''m'', ''key''] ''key''
        ''manifest.toml'' prepare s)) [''m'', ''other''] = Some node"
proof -
  define prepare :: "string preparer" where
    "prepare = (\<lambda>dir s. case fs_write_file (dir @ [''blob'']) ''payload'' s of
                            (Inl k, s1) \<Rightarrow> (Inl (Prepare ''blob''), s1) | (Inr _, s1) \<Rightarrow> (Inr ''manifest'', s1))"
  have "effect (prefix dir) (prefix dir) s (snd (fs_write_file (dir @ [''blob'']) ''payload'' s))" for dir s
    by (rule effect_mono [OF effect_write_file]) auto
  then have local: "effect (prefix dir) (prefix dir) s (snd (prepare dir s))" for dir s
    unfolding prepare_def by (auto split: prod.splits sum.splits dest: effect_fst_eq)
  show ?thesis
    unfolding Let_def prepare_def [symmetric]
    by (subst install_frame) (simp_all add: local)
qed

end
