(* ===== verification/Store_Scan.thy ===== *)
theory Store_Scan
  imports Quota Entry_Store
begin

text \<open>
  The quota's dealings with the disk, the second half of \<open>pipette-artifacts/src/quota.rs\<close>: the scan
  of both store roots into a survey, and the removal of an entry under its locks; with the manifest
  readers of \<open>model/store.rs\<close> and \<open>runtime/store.rs\<close>. The plan types and \<open>toml\<close> are parameters:
  an \<open>artifact_ops\<close> record for the declared models and one for the runtimes.
\<close>

section \<open>Definitions\<close>

subsection \<open>Manifests\<close>

definition MANIFEST_VERSION :: nat where "MANIFEST_VERSION = 2"

record 'a manifest =
  manifest_version :: nat
  declared :: 'a
  stored :: 'a
  blobs_bytes :: "nat option"
  used_stamp :: int
  fetched_stamp :: int

datatype toml_item = TomlString string | TomlOther

record 'a artifact_ops =
  parse_manifest :: "string \<Rightarrow> string + 'a manifest"
  parse_table :: "string \<Rightarrow> string + (string \<times> toml_item) list"
  without_auth_token :: "'a \<Rightarrow> 'a"
  storage_key_of :: "'a \<Rightarrow> storage_key option"
  to_stored :: "'a \<Rightarrow> string + 'a"
  reference_of :: "'a \<Rightarrow> string"
  payload_paths :: "'a manifest \<Rightarrow> fs_path \<Rightarrow> fs_path list"
  docker_image :: "'a \<Rightarrow> bool"

datatype store_error = ReadIo fs_path io_kind | Parse fs_path string | Corrupt string | StoredForm string | NotStorable

fun store_error_text :: "store_error \<Rightarrow> string" where
  "store_error_text (ReadIo _ _) = ''io''"
| "store_error_text (Parse _ e) = ''parse: '' @ e"
| "store_error_text (Corrupt e) = ''corrupt: '' @ e"
| "store_error_text (StoredForm e) = ''stored: '' @ e"
| "store_error_text NotStorable = ''not storable''"

text \<open>The checks both readers share; the model store and the runtime store report a declared form
  that has no stored form differently.\<close>

definition check_stored ::
  "'a artifact_ops \<Rightarrow> (string \<Rightarrow> store_error) \<Rightarrow> 'a manifest \<Rightarrow> store_error + 'a manifest" where
  "check_stored ops no_form m =
     (if manifest_version m \<noteq> MANIFEST_VERSION then Inl (Corrupt ''unsupported manifest_version'')
      else if storage_key_of ops (declared m) = None then Inl NotStorable
      else (case to_stored ops (declared m) of
              Inl e \<Rightarrow> Inl (no_form e)
            | Inr expected \<Rightarrow>
                if stored m \<noteq> expected then Inl (Corrupt ''stored form is not the local form'') else Inr m))"

definition read_model_manifest :: "'a artifact_ops \<Rightarrow> fs_state \<Rightarrow> fs_path \<Rightarrow> store_error + 'a manifest" where
  "read_model_manifest ops s manifest_path =
     (case fs_read s manifest_path of
        Inl k \<Rightarrow> Inl (ReadIo manifest_path k)
      | Inr raw \<Rightarrow>
          (case parse_manifest ops raw of
             Inl e \<Rightarrow> Inl (Parse manifest_path e)
           | Inr m \<Rightarrow> check_stored ops StoredForm (m\<lparr>declared := without_auth_token ops (declared m)\<rparr>)))"

definition read_runtime_manifest :: "'a artifact_ops \<Rightarrow> fs_state \<Rightarrow> fs_path \<Rightarrow> store_error + 'a manifest" where
  "read_runtime_manifest ops s entry =
     (let manifest_path = entry @ [MANIFEST_NAME] in
      case fs_read s manifest_path of
        Inl k \<Rightarrow> Inl (ReadIo manifest_path k)
      | Inr raw \<Rightarrow>
          (case parse_manifest ops raw of
             Inl e \<Rightarrow> Inl (Parse manifest_path e)
           | Inr m \<Rightarrow> check_stored ops Corrupt m))"

datatype manifest_kind = StoreKind | EngineKind | UnknownKind

definition classify_manifest_toml :: "'a artifact_ops \<Rightarrow> fs_state \<Rightarrow> fs_path \<Rightarrow> store_error + manifest_kind" where
  "classify_manifest_toml ops s path =
     (case fs_read s path of
        Inl k \<Rightarrow> Inl (ReadIo path k)
      | Inr raw \<Rightarrow>
          (case parse_table ops raw of
             Inl e \<Rightarrow> Inl (Parse path e)
           | Inr table \<Rightarrow>
               Inr (if map_of table ''manifest_version'' \<noteq> None \<or> table = [] then StoreKind
                    else (case map_of table ''type'' of
                            Some (TomlString ty) \<Rightarrow>
                              if ty \<in> {''docker_vllm'', ''docker_sglang'', ''uv_vllm'', ''uv_sglang''}
                              then EngineKind else UnknownKind
                          | _ \<Rightarrow> UnknownKind))))"

subsection \<open>The scan\<close>

definition store_children :: "fs_state \<Rightarrow> fs_path \<Rightarrow> fs_path list" where
  "store_children s root = (case fs_read_dir s root of Inl _ \<Rightarrow> [] | Inr cs \<Rightarrow> cs)"

definition garbage :: "fs_state \<Rightarrow> fs_path \<Rightarrow> fs_path \<Rightarrow> string \<Rightarrow> storage_entry" where
  "garbage s root path reason =
     \<lparr>entry_path = path, label = join_str ''/'' (drop (length root) path),
      size_bytes = entry_size_bytes s path, kind = Garbage reason\<rparr>"

datatype remove_error = Locked | InUse | EntryLock entry_error | RemoveIo io_kind

definition staged_dir_of_lock :: "fs_path \<Rightarrow> fs_path option" where
  "staged_dir_of_lock path =
     (if path = [] then None
      else map_option (\<lambda>dir. butlast path @ [dir]) (strip_suffix LOCK_SUFFIX (last path)))"

definition staging_lock_of :: "fs_path \<Rightarrow> fs_path" where
  "staging_lock_of path = (if staged_dir_of_lock path \<noteq> None then path else staging_lock_path path)"

text \<open>\<open>Inr True\<close>: taken; \<open>Inr False\<close>: there is no lock file, so no fetch.\<close>

definition take_staging_lock :: "fs_state \<Rightarrow> fs_path \<Rightarrow> remove_error + bool" where
  "take_staging_lock s path =
     (case fs_open s (staging_lock_of path) of
        Inl k \<Rightarrow> if k = NotFound then Inr False else Inl (RemoveIo k)
      | Inr _ \<Rightarrow>
          (case fs_try_lock s (staging_lock_of path) of
             LockTaken \<Rightarrow> Inr True
           | WouldBlock \<Rightarrow> Inl Locked
           | LockError k \<Rightarrow> Inl (RemoveIo k)))"

definition staging_orphans :: "fs_state \<Rightarrow> fs_path \<Rightarrow> fs_path \<Rightarrow> storage_entry list" where
  "staging_orphans s root staging =
     List.map_filter
       (\<lambda>path. case staged_dir_of_lock path of
                 None \<Rightarrow> Some (garbage s root path ''orphaned staging dir'')
               | Some dir \<Rightarrow> if fs_exists s dir then None
                             else Some (garbage s root path ''orphaned staging lock''))
       (filter (\<lambda>path. case take_staging_lock s path of Inr _ \<Rightarrow> True | Inl _ \<Rightarrow> False) (store_children s staging))"

definition non_entry :: "fs_state \<Rightarrow> fs_path \<Rightarrow> fs_path \<Rightarrow> storage_entry option" where
  "non_entry s root path =
     (if path = [] then None
      else if \<not> fs_is_dir s path then Some (garbage s root path ''not a store entry'')
      else if prefix ''.'' (last path) then Some (garbage s root path ''not a store entry'')
      else if \<not> fs_exists s (path @ [MANIFEST_NAME]) then Some (garbage s root path ''no manifest'')
      else None)"

definition scan_store ::
  "fs_state \<Rightarrow> (fs_path \<Rightarrow> fs_path \<Rightarrow> storage_entry) \<Rightarrow> fs_path \<Rightarrow> storage_entry list" where
  "scan_store s entry_of root =
     concat (map
       (\<lambda>path. if last path = STAGING_DIR_NAME then staging_orphans s root path
               else if last path = LOCKS_DIR_NAME then []
               else [case non_entry s root path of Some e \<Rightarrow> e | None \<Rightarrow> entry_of root path])
       (store_children s root))"

definition payload_bytes :: "fs_state \<Rightarrow> fs_path \<Rightarrow> nat option \<Rightarrow> nat" where
  "payload_bytes s entry_dir recorded =
     (case recorded of Some n \<Rightarrow> n | None \<Rightarrow> entry_size_bytes s (entry_dir @ [BLOBS_DIR_NAME]))"

definition unreadable :: "store_error \<Rightarrow> string" where
  "unreadable err = ''unreadable manifest: '' @ store_error_text err"

definition payload_present :: "'a artifact_ops \<Rightarrow> fs_state \<Rightarrow> fs_path \<Rightarrow> 'a manifest \<Rightarrow> bool" where
  "payload_present ops s entry_dir m =
     (entry_dir = [] \<or> list_all (fs_exists s) (payload_paths ops m (butlast entry_dir)))"

definition model_entry :: "'a artifact_ops \<Rightarrow> fs_state \<Rightarrow> fs_path \<Rightarrow> fs_path \<Rightarrow> storage_entry" where
  "model_entry ops s models_dir path =
     (case read_model_manifest ops s (path @ [MANIFEST_NAME]) of
        Inl err \<Rightarrow> garbage s models_dir path (unreadable err)
      | Inr m \<Rightarrow>
          (case storage_key_of ops (declared m) of
             None \<Rightarrow> garbage s models_dir path ''declared model has no storage key''
           | Some key \<Rightarrow>
               if \<not> payload_present ops s path m
               then garbage s models_dir path ''manifest without its payload''
               else \<lparr>entry_path = path, label = reference_of ops (declared m),
                     size_bytes = payload_bytes s path (blobs_bytes m),
                     kind = Model key (used_stamp m) (fetched_stamp m)\<rparr>))"

definition runtime_entry :: "'a artifact_ops \<Rightarrow> fs_state \<Rightarrow> fs_path \<Rightarrow> fs_path \<Rightarrow> storage_entry" where
  "runtime_entry ops s runtimes_dir path =
     (case classify_manifest_toml ops s (path @ [MANIFEST_NAME]) of
        Inl err \<Rightarrow> garbage s runtimes_dir path (unreadable err)
      | Inr EngineKind \<Rightarrow> garbage s runtimes_dir path ''legacy engine manifest''
      | Inr UnknownKind \<Rightarrow> garbage s runtimes_dir path ''unrecognized manifest schema''
      | Inr StoreKind \<Rightarrow>
          (case read_runtime_manifest ops s path of
             Inl err \<Rightarrow> garbage s runtimes_dir path (unreadable err)
           | Inr m \<Rightarrow>
               (case storage_key_of ops (declared m) of
                  None \<Rightarrow> garbage s runtimes_dir path ''declared runtime has no storage key''
                | Some key \<Rightarrow>
                    \<lparr>entry_path = path, label = reference_of ops (declared m),
                     size_bytes = payload_bytes s path (blobs_bytes m),
                     kind = Runtime key (used_stamp m) (fetched_stamp m) (\<not> docker_image ops (declared m))\<rparr>)))"

definition survey ::
  "'m artifact_ops \<Rightarrow> 'r artifact_ops \<Rightarrow> fs_path \<Rightarrow> fs_path \<Rightarrow> fs_state \<Rightarrow> storage_survey" where
  "survey mops rops models_dir runtimes_dir s =
     survey_new (scan_store s (model_entry mops s) models_dir @ scan_store s (runtime_entry rops s) runtimes_dir)"

subsection \<open>Removal\<close>

definition remove_path :: "fs_path \<Rightarrow> fs_state \<Rightarrow> (io_kind + unit) \<times> fs_state" where
  "remove_path path s =
     (case fs_stat s path of
        Inr metadata \<Rightarrow> if is_dir_node metadata then fs_remove_dir_all path s else fs_remove_file path s
      | Inl k \<Rightarrow> if k = NotFound then (Inr (), s) else (Inl k, s))"

definition is_staged :: "fs_path \<Rightarrow> bool" where
  "is_staged path \<longleftrightarrow> path \<noteq> [] \<and> butlast path \<noteq> [] \<and> last (butlast path) = STAGING_DIR_NAME"

definition take_in_use_lock :: "fs_path \<Rightarrow> string \<Rightarrow> fs_state \<Rightarrow> (remove_error + unit) \<times> fs_state" where
  "take_in_use_lock root key s =
     (case open_entry_lock root key USE_SUFFIX s of
        (Inl e, s1) \<Rightarrow> (Inl (EntryLock e), s1)
      | (Inr path, s1) \<Rightarrow>
          (case fs_try_lock s1 path of
             LockTaken \<Rightarrow> (Inr (), s1)
           | WouldBlock \<Rightarrow> (Inl InUse, s1)
           | LockError k \<Rightarrow> (if k = Unsupported then Inr () else Inl (RemoveIo k), s1)))"

definition lift_io :: "io_kind + unit \<Rightarrow> remove_error + unit" where
  "lift_io r = (case r of Inl k \<Rightarrow> Inl (RemoveIo k) | Inr u \<Rightarrow> Inr u)"

definition move_out_and_remove :: "fs_path \<Rightarrow> fs_state \<Rightarrow> (remove_error + unit) \<times> fs_state" where
  "move_out_and_remove path s =
     (if path = [] then (let (r, s1) = remove_path path s in (lift_io r, s1))
      else (let root = butlast path; key = last path; staging = root @ [STAGING_DIR_NAME] in
            case take_in_use_lock root key s of
              (Inl e, s1) \<Rightarrow> (Inl e, s1)
            | (Inr _, s1) \<Rightarrow>
                (case fs_create_dir_all staging s1 of
                   (Inl k, s2) \<Rightarrow> (Inl (RemoveIo k), s2)
                 | (Inr _, s2) \<Rightarrow>
                     (let (doomed, s3) = staged_path staging key s2 in
                      case fs_rename path doomed s3 of
                        (Inl k, s4) \<Rightarrow> (if k = NotFound then Inr () else Inl (RemoveIo k), s4)
                      | (Inr _, s4) \<Rightarrow> (let (r, s5) = remove_path doomed s4 in (lift_io r, s5))))))"

definition remove_entry :: "fs_path \<Rightarrow> fs_state \<Rightarrow> (remove_error + unit) \<times> fs_state" where
  "remove_entry path s =
     (if \<not> is_staged path then move_out_and_remove path s
      else (case take_staging_lock s path of
              Inl e \<Rightarrow> (Inl e, s)
            | Inr _ \<Rightarrow>
                (case remove_path path s of
                   (Inl k, s1) \<Rightarrow> (Inl (RemoveIo k), s1)
                 | (Inr _, s1) \<Rightarrow> (Inr (), snd (remove_path (staging_lock_of path) s1)))))"

fun remove_error_text :: "remove_error \<Rightarrow> string" where
  "remove_error_text Locked = ''its staging lock is held, by a running fetch or another sweep''"
| "remove_error_text InUse = ''it is in use, by a process running it or another sweep''"
| "remove_error_text (EntryLock _) = ''entry lock''"
| "remove_error_text (RemoveIo _) = ''io''"

definition remover_of :: "fs_state remover" where
  "remover_of path s =
     (case remove_entry path s of
        (Inl e, s1) \<Rightarrow> (Inl (remove_error_text e), s1) | (Inr _, s1) \<Rightarrow> (Inr (), s1))"

text \<open>The sweep over a workspace's two stores.\<close>

definition models_of :: "fs_path \<Rightarrow> fs_path" where "models_of ws = ws @ [''models'']"
definition runtimes_of :: "fs_path \<Rightarrow> fs_path" where "runtimes_of ws = ws @ [''runtimes'']"

definition sweep_workspace ::
  "'m artifact_ops \<Rightarrow> 'r artifact_ops \<Rightarrow> fs_path \<Rightarrow> nat \<Rightarrow> sweep_pins \<Rightarrow> fs_state
     \<Rightarrow> ((sweep_plan \<times> sweep_report) \<times> fs_state) option" where
  "sweep_workspace mops rops ws quota pins =
     sweep (survey mops rops (models_of ws) (runtimes_of ws)) remover_of quota pins"

section \<open>What a survey lists\<close>

text \<open>The place of an entry: a child of a store root, or a child of its staging directory.\<close>

definition entry_place :: "fs_path \<Rightarrow> fs_path \<Rightarrow> bool" where
  "entry_place root p \<longleftrightarrow>
     (\<exists>n. n \<noteq> STAGING_DIR_NAME \<and> n \<noteq> LOCKS_DIR_NAME \<and> p = root @ [n]) \<or> (\<exists>n. p = root @ [STAGING_DIR_NAME, n])"

lemma store_children_snoc: "p \<in> set (store_children s root) \<Longrightarrow> \<exists>n. p = root @ [n]"
proof -
  assume "p \<in> set (store_children s root)"
  then have "p \<in> set (children s root)"
    using read_dir_children [of s root] by (cases "fs_read_dir s root") (auto simp: store_children_def)
  then have "p \<noteq> []" "butlast p = root" by (auto simp: children_def)
  then show ?thesis by (cases p rule: rev_cases) auto
qed

lemma garbage_simps [simp]:
  "entry_path (garbage s root p reason) = p" "kind (garbage s root p reason) = Garbage reason"
  by (simp_all add: garbage_def)

lemma non_entry_Some: "non_entry s root p = Some e \<Longrightarrow> entry_path e = p \<and> is_garbage (kind e)"
  by (auto simp: non_entry_def split: if_splits)

lemma model_entry_path [simp]: "entry_path (model_entry ops s root p) = p"
  by (auto simp: model_entry_def split: sum.splits option.splits)

lemma runtime_entry_path [simp]: "entry_path (runtime_entry ops s root p) = p"
  by (auto simp: runtime_entry_def split: sum.splits option.splits manifest_kind.splits)

lemma staging_orphans_place:
  assumes "e \<in> set (staging_orphans s root (root @ [STAGING_DIR_NAME]))"
  shows "entry_place root (entry_path e)" and "is_garbage (kind e)"
proof -
  obtain p where p: "p \<in> set (store_children s (root @ [STAGING_DIR_NAME]))" "entry_path e = p" "is_garbage (kind e)"
    using assms by (auto simp: staging_orphans_def map_filter_def split: option.splits if_splits)
  then show "entry_place root (entry_path e)" "is_garbage (kind e)"
    by (auto dest!: store_children_snoc simp: entry_place_def)
qed

lemma scan_store_cases:
  assumes "e \<in> set (scan_store s entry_of root)"
  obtains "is_garbage (kind e)" "entry_place root (entry_path e)"
  | n where "e = entry_of root (root @ [n])" "non_entry s root (root @ [n]) = None"
      "n \<noteq> STAGING_DIR_NAME" "n \<noteq> LOCKS_DIR_NAME"
proof -
  obtain p where p: "p \<in> set (store_children s root)"
    "e \<in> set (if last p = STAGING_DIR_NAME then staging_orphans s root p
              else if last p = LOCKS_DIR_NAME then []
              else [case non_entry s root p of Some e \<Rightarrow> e | None \<Rightarrow> entry_of root p])"
    using assms by (auto simp: scan_store_def)
  obtain n where n: "p = root @ [n]" using store_children_snoc [OF p(1)] by blast
  show ?thesis
  proof (cases "n = STAGING_DIR_NAME")
    case True
    then show ?thesis using p(2) n staging_orphans_place that(1) by auto
  next
    case False
    then have nl: "n \<noteq> LOCKS_DIR_NAME" and e: "e = (case non_entry s root p of Some e \<Rightarrow> e | None \<Rightarrow> entry_of root p)"
      using p(2) n by (auto split: if_splits)
    show ?thesis
    proof (cases "non_entry s root p")
      case None
      then show ?thesis using that(2) e n False nl by simp
    next
      case (Some g)
      then have "entry_place root (entry_path e)" using e n False nl by (auto simp: entry_place_def dest: non_entry_Some)
      then show ?thesis using that(1) e Some by (auto dest: non_entry_Some)
    qed
  qed
qed

lemma survey_entries:
  "set (entries (survey mops rops md rd s)) =
   set (scan_store s (model_entry mops s) md) \<union> set (scan_store s (runtime_entry rops s) rd)"
  by (simp add: survey_def survey_new_def Let_def)

lemma scan_store_place:
  assumes "e \<in> set (scan_store s entry_of root)" and "\<And>p. entry_path (entry_of root p) = p"
  shows "entry_place root (entry_path e)"
  using assms(1)
proof (cases rule: scan_store_cases)
  case (2 n)
  then show ?thesis using assms(2) by (auto simp: entry_place_def)
qed

lemma survey_place:
  assumes "e \<in> set (entries (survey mops rops md rd s))"
  shows "entry_place md (entry_path e) \<or> entry_place rd (entry_path e)"
  using assms unfolding survey_entries
  by (auto dest: scan_store_place [OF _ model_entry_path] scan_store_place [OF _ runtime_entry_path])

section \<open>What a removal changes\<close>

lemma effect_remove_path: "effect (prefix p) N s (snd (remove_path p s))"
proof -
  have "effect (prefix p) N s (snd (fs_remove_file p s))"
    by (rule effect_mono [OF effect_remove_file]) auto
  then show ?thesis
    using effect_remove_dir_all [of p N s] by (auto simp: remove_path_def split: sum.splits)
qed

abbreviation staging_of :: "fs_path \<Rightarrow> fs_path" where "staging_of root \<equiv> root @ [STAGING_DIR_NAME]"
abbreviation locks_of :: "fs_path \<Rightarrow> fs_path" where "locks_of root \<equiv> root @ [LOCKS_DIR_NAME]"

lemma effect_take_in_use_lock:
  "effect D (\<lambda>q. prefix q root \<or> prefix (locks_of root) q) s (snd (take_in_use_lock root key s))"
  using effect_open_entry_lock [of D root s key USE_SUFFIX]
  by (auto simp: take_in_use_lock_def split: prod.splits sum.splits try_lock.splits)

lemma effect_move_out_and_remove:
  fixes root n
  defines "D \<equiv> \<lambda>q. prefix (root @ [n]) q \<or> prefix (staging_of root) q"
    and "N \<equiv> \<lambda>q. prefix (staging_of root) q \<or> prefix (locks_of root) q \<or> prefix q root"
  shows "effect D N s (snd (move_out_and_remove (root @ [n]) s))"
proof -
  obtain r1 s1 where t: "take_in_use_lock root n s = (r1, s1)" by fastforce
  have "effect D N s (snd (take_in_use_lock root n s))"
    by (rule effect_mono [OF effect_take_in_use_lock]) (auto simp: N_def)
  then have s1: "effect D N s s1" by (simp add: t)
  obtain r2 s2 where c: "fs_create_dir_all (staging_of root) s1 = (r2, s2)" by fastforce
  have "effect D N s1 (snd (fs_create_dir_all (staging_of root) s1))"
    by (rule effect_mono [OF effect_create_dir_all]) (auto simp: N_def prefix_snoc)
  then have s2: "effect D N s s2" using s1 by (auto simp: c intro: effect_trans)
  obtain doomed s3 where sp: "staged_path (staging_of root) n s2 = (doomed, s3)" by fastforce
  then obtain x where x: "doomed = staging_of root @ [x]" and s3: "effect D N s s3"
    using staged_path_under s2 by fastforce
  have under: "prefix (staging_of root) q" if "prefix doomed q" for q
    using that by (auto simp: x prefix_def)
  obtain r4 s4 where r: "fs_rename (root @ [n]) doomed s3 = (r4, s4)" by fastforce
  have "effect D N s3 (snd (fs_rename (root @ [n]) doomed s3))"
    by (rule effect_mono [OF effect_rename]) (auto simp: D_def N_def dest: under)
  from effect_trans [OF s3 this] have s4: "effect D N s s4" by (simp add: r)
  have "effect D N s4 (snd (remove_path doomed s4))"
    by (rule effect_mono [OF effect_remove_path]) (auto simp: D_def dest: under)
  from effect_trans [OF s4 this] have s5: "effect D N s (snd (remove_path doomed s4))" .
  show ?thesis
    using s1 s2 s4 s5 by (auto simp: move_out_and_remove_def Let_def t c sp r split: sum.splits prod.splits)
qed

lemma butlast_two [simp]: "butlast (root @ [a, b]) = root @ [a]"
  by (simp add: butlast_append)

lemma effect_remove_entry:
  assumes "entry_place root p" and root: "root \<noteq> []" "last root \<noteq> STAGING_DIR_NAME"
  shows "effect (\<lambda>q. prefix p q \<or> prefix (staging_of root) q)
    (\<lambda>q. prefix (staging_of root) q \<or> prefix (locks_of root) q \<or> prefix q root) s (snd (remove_entry p s))"
    (is "effect ?D ?N s _")
proof -
  consider n where "p = root @ [STAGING_DIR_NAME, n]" | n where "p = root @ [n]"
    using assms(1) by (auto simp: entry_place_def)
  then show ?thesis
  proof cases
    case (1 n)
    then have staged: "is_staged p" by (simp add: is_staged_def)
    have "prefix (staging_of root) (staging_lock_of p)"
      by (simp add: staging_lock_of_def staging_lock_path_def 1)
    then have lock: "prefix (staging_of root) q" if "prefix (staging_lock_of p) q" for q
      using that prefix_order.trans by blast
    have rm1: "effect ?D ?N v (snd (remove_path p v))" for v
      by (rule effect_mono [OF effect_remove_path]) simp_all
    have rm2: "effect ?D ?N v (snd (remove_path (staging_lock_of p) v))" for v
      by (rule effect_mono [OF effect_remove_path]) (simp_all add: lock)
    obtain r s1 where r: "remove_path p s = (r, s1)" by fastforce
    have "effect ?D ?N s s1" using rm1 [of s] by (simp add: r)
    with effect_trans [OF this rm2] show ?thesis
      by (simp add: remove_entry_def staged r split: sum.splits)
  next
    case (2 n)
    then have "\<not> is_staged p" using root by (simp add: is_staged_def)
    then show ?thesis using effect_move_out_and_remove [of root n s] by (simp add: remove_entry_def 2)
  qed
qed

section \<open>The keys a store could hold\<close>

definition keys_in :: "(string \<Rightarrow> storage_key option) \<Rightarrow> fs_path \<Rightarrow> fs_state \<Rightarrow> storage_key set" where
  "keys_in key root s =
     {k. \<exists>n node. \<not> prefix ''.'' n \<and> lookup s (root @ [n, MANIFEST_NAME]) = Some node \<and> key (contents node) = Some k}"

definition model_key :: "'a artifact_ops \<Rightarrow> string \<Rightarrow> storage_key option" where
  "model_key ops raw =
     (case parse_manifest ops raw of
        Inl _ \<Rightarrow> None | Inr m \<Rightarrow> storage_key_of ops (without_auth_token ops (declared m)))"

definition runtime_key :: "'a artifact_ops \<Rightarrow> string \<Rightarrow> storage_key option" where
  "runtime_key ops raw =
     (case parse_manifest ops raw of Inl _ \<Rightarrow> None | Inr m \<Rightarrow> storage_key_of ops (declared m))"

definition potential_keys ::
  "'m artifact_ops \<Rightarrow> 'r artifact_ops \<Rightarrow> fs_path \<Rightarrow> fs_state \<Rightarrow> (storage_key + storage_key) set" where
  "potential_keys mops rops ws s =
     Inl ` keys_in (model_key mops) (models_of ws) s \<union> Inr ` keys_in (runtime_key rops) (runtimes_of ws) s"

lemma finite_keys_in: "finite (keys_in key root s)"
proof (rule finite_subset)
  show "keys_in key root s \<subseteq> (\<lambda>x. the (key (contents (snd x)))) ` set (nodes s)"
    by (force simp: keys_in_def dest: map_of_SomeD)
qed simp

lemma check_stored_declared: "check_stored ops f m = Inr m' \<Longrightarrow> m' = m"
  by (auto simp: check_stored_def split: if_splits sum.splits)

lemma fs_read_Inr: "fs_read s p = Inr raw \<Longrightarrow> \<exists>node. lookup s p = Some node \<and> contents node = raw"
  by (auto simp: fs_read_def fs_open_def ok_or_def bind_result_Inr split: option.splits if_splits)

lemma model_entry_key:
  assumes "live_key (kind (model_entry ops s root p)) = Some k"
  shows "\<exists>node key. k = Inl key \<and> lookup s (p @ [MANIFEST_NAME]) = Some node \<and> model_key ops (contents node) = Some key"
proof -
  obtain m key where m: "read_model_manifest ops s (p @ [MANIFEST_NAME]) = Inr m"
    "storage_key_of ops (declared m) = Some key" "k = Inl key"
    using assms by (auto simp: model_entry_def split: sum.splits option.splits if_splits)
  then show ?thesis
    by (auto simp: read_model_manifest_def model_key_def dest!: check_stored_declared fs_read_Inr split: sum.split_asm)
qed

lemma runtime_entry_key:
  assumes "live_key (kind (runtime_entry ops s root p)) = Some k"
  shows "\<exists>node key. k = Inr key \<and> lookup s (p @ [MANIFEST_NAME]) = Some node \<and> runtime_key ops (contents node) = Some key"
proof -
  obtain m key where m: "read_runtime_manifest ops s p = Inr m"
    "storage_key_of ops (declared m) = Some key" "k = Inr key"
    using assms by (auto simp: runtime_entry_def split: sum.splits option.splits manifest_kind.splits)
  then show ?thesis
    by (auto simp: read_runtime_manifest_def runtime_key_def Let_def
        dest!: check_stored_declared fs_read_Inr split: sum.split_asm)
qed

lemma non_entry_None: "non_entry s root (root @ [n]) = None \<Longrightarrow> \<not> prefix ''.'' n"
  by (auto simp: non_entry_def split: if_splits)

lemma scan_keys:
  assumes "e \<in> set (scan_store s entry_of root)" and "live_key (kind e) = Some k"
    and "\<And>p. live_key (kind (entry_of root p)) = Some k \<Longrightarrow>
      \<exists>node key'. k = tag key' \<and> lookup s (p @ [MANIFEST_NAME]) = Some node \<and> key (contents node) = Some key'"
  shows "k \<in> tag ` keys_in key root s"
  using assms(1)
proof (cases rule: scan_store_cases)
  case 1
  then show ?thesis using assms(2) by (simp flip: live_key_None)
next
  case (2 n)
  then obtain node key' where "k = tag key'" "lookup s (root @ [n, MANIFEST_NAME]) = Some node"
    "key (contents node) = Some key'"
    using assms(2) assms(3) [of "root @ [n]"] by auto
  with non_entry_None [OF 2(2)] show ?thesis by (auto simp: keys_in_def)
qed

definition store_roots :: "fs_path \<Rightarrow> fs_path set" where
  "store_roots ws = {models_of ws, runtimes_of ws}"

lemma store_roots_last: "root \<in> store_roots ws \<Longrightarrow> root \<noteq> [] \<and> last root \<noteq> STAGING_DIR_NAME"
  by (auto simp: store_roots_def models_of_def runtimes_of_def STAGING_DIR_NAME_def)

lemma store_roots_disjoint:
  assumes "root \<in> store_roots ws" "root' \<in> store_roots ws" and "prefix (root' @ a # r) (root @ b # r')"
  shows "root = root' \<and> a = b"
  using assms by (auto simp: store_roots_def models_of_def runtimes_of_def)

lemma keys_in_shrink:
  assumes roots: "root \<in> store_roots ws" "root' \<in> store_roots ws" and p: "entry_place root' p"
  shows "keys_in key root (snd (remove_entry p s)) \<subseteq> keys_in key root s"
proof -
  note eff = effect_remove_entry [OF p, of s] store_roots_last [OF roots(2)]
  have "lookup s (root @ [n, MANIFEST_NAME]) = Some node"
    if "\<not> prefix ''.'' n" "lookup (snd (remove_entry p s)) (root @ [n, MANIFEST_NAME]) = Some node" for n node
  proof (rule effect_Some [OF _ _ that(2)])
    have "n \<noteq> STAGING_DIR_NAME" "n \<noteq> LOCKS_DIR_NAME"
      using that(1) by (auto simp: STAGING_DIR_NAME_def LOCKS_DIR_NAME_def)
    moreover have "\<not> prefix (root @ [n, MANIFEST_NAME]) root'"
      using roots by (auto simp: store_roots_def models_of_def runtimes_of_def dest!: prefix_length_le)
    ultimately show "\<not> (prefix (staging_of root') (root @ [n, MANIFEST_NAME]) \<or>
        prefix (locks_of root') (root @ [n, MANIFEST_NAME]) \<or> prefix (root @ [n, MANIFEST_NAME]) root')"
      using store_roots_disjoint [OF roots, where b = n] by blast
  qed (use eff in blast)
  then show ?thesis by (auto simp: keys_in_def)
qed

lemma remover_state [simp]: "snd (remover_of p s) = snd (remove_entry p s)"
  by (auto simp: remover_of_def split: prod.splits sum.splits)

interpretation ws: sweep_store "survey mops rops (models_of ws) (runtimes_of ws)" remover_of
  "potential_keys mops rops ws" for mops rops ws
proof unfold_locales
  fix s
  show "finite (potential_keys mops rops ws s)" by (simp add: potential_keys_def finite_keys_in)
  fix e k
  assume "e \<in> set (entries (survey mops rops (models_of ws) (runtimes_of ws) s))" "live_key (kind e) = Some k"
  moreover have "k \<in> Inl ` keys_in (model_key mops) (models_of ws) s"
    if "e \<in> set (scan_store s (model_entry mops s) (models_of ws))"
    using that \<open>live_key (kind e) = Some k\<close> by (rule scan_keys) (rule model_entry_key)
  moreover have "k \<in> Inr ` keys_in (runtime_key rops) (runtimes_of ws) s"
    if "e \<in> set (scan_store s (runtime_entry rops s) (runtimes_of ws))"
    using that \<open>live_key (kind e) = Some k\<close> by (rule scan_keys) (rule runtime_entry_key)
  ultimately show "k \<in> potential_keys mops rops ws s"
    unfolding survey_entries potential_keys_def by blast
next
  fix e v s
  assume "e \<in> set (entries (survey mops rops (models_of ws) (runtimes_of ws) v))"
  from survey_place [OF this] obtain root' where
    root': "root' \<in> store_roots ws" "entry_place root' (entry_path e)" by (auto simp: store_roots_def)
  have "models_of ws \<in> store_roots ws" "runtimes_of ws \<in> store_roots ws" by (simp_all add: store_roots_def)
  then show "potential_keys mops rops ws (snd (remover_of (entry_path e) s)) \<subseteq> potential_keys mops rops ws s"
    unfolding potential_keys_def remover_state by (intro Un_mono image_mono keys_in_shrink [OF _ root'])
qed

section \<open>An entry in use\<close>

text \<open>Another process runs from the entry: it holds the entry's in-use lock, on a file system that
  has locks.\<close>

definition in_use :: "fs_state \<Rightarrow> fs_path \<Rightarrow> string \<Rightarrow> bool" where
  "in_use s root n \<longleftrightarrow>
     held s (entry_lock_path root n USE_SUFFIX)
     \<and> faults s OpLock (entry_lock_path root n USE_SUFFIX) \<noteq> Some Unsupported"

lemma open_entry_lock_path: "open_entry_lock root key sfx s = (Inr p, s') \<Longrightarrow> p = entry_lock_path root key sfx"
  by (auto simp: open_entry_lock_def Let_def split: prod.splits sum.splits)

lemma in_use_not_removed:
  assumes "in_use s root n"
  shows "\<exists>e s1. take_in_use_lock root n s = (Inl e, s1) \<and> move_out_and_remove (root @ [n]) s = (Inl e, s1)"
proof -
  obtain r s1 where o: "open_entry_lock root n USE_SUFFIX s = (r, s1)" by fastforce
  have "held s1 = held s" "faults s1 = faults s"
    using effect_env [OF effect_open_entry_lock [of "\<lambda>_. False" root s n USE_SUFFIX]] o by auto
  then have "\<exists>e s2. take_in_use_lock root n s = (Inl e, s2)"
    using assms o
    by (auto simp: take_in_use_lock_def in_use_def fs_try_lock_def dest: open_entry_lock_path
        split: sum.splits option.splits)
  then show ?thesis by (auto simp: move_out_and_remove_def Let_def)
qed

lemma remove_keeps_in_use:
  assumes roots: "root \<in> store_roots ws" "root' \<in> store_roots ws"
    and n: "n \<noteq> STAGING_DIR_NAME" "n \<noteq> LOCKS_DIR_NAME"
    and p: "entry_place root' p" and use: "in_use s root n" and q: "prefix (root @ [n]) q"
  shows "lookup (snd (remove_entry p s)) q = lookup s q"
proof -
  obtain r where qr: "q = root @ n # r" using q by (auto simp: prefix_def)
  have notN: "\<not> (prefix (staging_of root') q \<or> prefix (locks_of root') q \<or> prefix q root')"
  proof -
    have "\<not> prefix q root'"
      using roots by (auto simp: qr store_roots_def models_of_def runtimes_of_def dest!: prefix_length_le)
    then show ?thesis
      using store_roots_disjoint [OF roots, where b = n and r = "[]" and r' = r] n by (auto simp: qr)
  qed
  show ?thesis
  proof (cases "p = root @ [n]")
    case True
    have "\<not> is_staged p" using store_roots_last [OF roots(1)] by (simp add: is_staged_def True)
    moreover obtain e s1 where e: "take_in_use_lock root n s = (Inl e, s1)" "move_out_and_remove p s = (Inl e, s1)"
      using in_use_not_removed [OF use] True by blast
    moreover have "root' = root"
      using p roots n True by (auto simp: entry_place_def store_roots_def models_of_def runtimes_of_def)
    ultimately show ?thesis
      using effect_same [OF effect_take_in_use_lock [of "\<lambda>_. False" root s n], of q] notN
      by (auto simp: remove_entry_def)
  next
    case False
    have "\<not> prefix p q"
    proof
      assume pq: "prefix p q"
      obtain a r' where a: "p = root' @ a # r'" "a = STAGING_DIR_NAME \<or> r' = []"
        using p by (auto simp: entry_place_def)
      with pq have "root = root'" "a = n"
        using store_roots_disjoint [OF roots, where a = a and b = n and r = r' and r' = r] by (auto simp: qr)
      with a n False show False by auto
    qed
    then show ?thesis
      using effect_same [OF effect_remove_entry [OF p], of q s] store_roots_last [OF roots(2)] notN by auto
  qed
qed

section \<open>Properties\<close>


text \<open>C4. A sweep deletes nothing of an entry another process runs from: whatever the quota, the
  pins and the faults, every node at and below the entry is the same after the sweep.\<close>

theorem sweep_keeps_entry_in_use:
  assumes "root \<in> store_roots ws" and "n \<noteq> STAGING_DIR_NAME" and "n \<noteq> LOCKS_DIR_NAME" and "in_use s root n"
    and "prefix (root @ [n]) q"
  shows "\<exists>pd s'. sweep_workspace mops rops ws quota pins s = Some (pd, s') \<and> lookup s' q = lookup s q"
proof -
  let ?survey = "survey mops rops (models_of ws) (runtimes_of ws)"
  obtain pd s' where run: "sweep_loop ?survey remover_of quota pins empty_report s = Some (pd, s')"
    using ws.sweep_loop_returns [of mops rops ws quota pins empty_report s] by fastforce
  let ?I = "\<lambda>v. held v = held s \<and> faults v = faults s \<and> lookup v q = lookup s q"
  have keep: "?I (snd (remover_of (entry_path e) v))" if e: "e \<in> set (entries (?survey v0))" and v: "?I v" for e v0 v
  proof -
    obtain root' where root': "root' \<in> store_roots ws" "entry_place root' (entry_path e)"
      using survey_place [OF e] by (auto simp: store_roots_def)
    have "in_use v root n" using assms(4) v by (simp add: in_use_def)
    then have "lookup (snd (remove_entry (entry_path e) v)) q = lookup v q"
      using remove_keeps_in_use [OF assms(1) root'(1) assms(2,3) root'(2) _ assms(5)] by simp
    then show ?thesis
      using v effect_env [OF effect_remove_entry [OF root'(2)], of v] store_roots_last [OF root'(1)] by simp
  qed
  have "?I s'"
    by (rule sweep_loop_inv [where survey_of = ?survey and remove = remover_of and I = ?I, OF keep run]) simp_all
  then show ?thesis using run by (auto simp: sweep_workspace_def sweep_def)
qed

theorem sweep_keeps_entry_in_use_witness:
  "let ops = \<lparr>parse_manifest = (\<lambda>raw. Inl ''bad''), parse_table = (\<lambda>raw. Inr []), without_auth_token = id,
              storage_key_of = (\<lambda>m. Some m), to_stored = Inr, reference_of = id, payload_paths = (\<lambda>m p. []),
              docker_image = (\<lambda>_. False)\<rparr> :: string artifact_ops;
       root = [''ws'', ''models'']; blob = fresh_file\<lparr>contents := ''weights''\<rparr>;
       s = \<lparr>nodes = [([], fresh_dir), ([''ws''], fresh_dir), (root, fresh_dir), (root @ [''qwen''], fresh_dir),
                     (root @ [''qwen'', ''blobs''], blob), (root @ [''junk''], fresh_file)],
            held = (\<lambda>p. p = root @ [''.locks'', ''qwen.use'']), faults = (\<lambda>_ _. None),
            uuids = (\<lambda>n. ''0123456789''), drawn = 0\<rparr>
   in \<exists>pd s'. sweep_workspace ops ops [''ws''] 0 no_pins s = Some (pd, s')
        \<and> lookup s' (root @ [''qwen'', ''blobs'']) = Some blob"
  unfolding Let_def
  using sweep_keeps_entry_in_use [of "[''ws'', ''models'']" "[''ws'']" "''qwen''"
      "\<lparr>nodes = [([], fresh_dir), ([''ws''], fresh_dir), ([''ws'', ''models''], fresh_dir),
          ([''ws'', ''models'', ''qwen''], fresh_dir),
          ([''ws'', ''models'', ''qwen'', ''blobs''], fresh_file\<lparr>contents := ''weights''\<rparr>),
          ([''ws'', ''models'', ''junk''], fresh_file)],
        held = (\<lambda>p. p = [''ws'', ''models'', ''.locks'', ''qwen.use'']), faults = (\<lambda>_ _. None),
        uuids = (\<lambda>n. ''0123456789''), drawn = 0\<rparr>" "[''ws'', ''models'', ''qwen'', ''blobs'']"]
  by (simp add: store_roots_def models_of_def in_use_def entry_lock_path_def LOCKS_DIR_NAME_def USE_SUFFIX_def
      STAGING_DIR_NAME_def)

end
