(* ===== verification/Readiness.thy ===== *)
theory Readiness
  imports Wait
begin

text \<open>
  The pre-benchmark gate, \<open>pipette-readiness/src\<close>: the configuration values of
  \<open>configuration.rs\<close>, the policy a run resolves (\<open>lib.rs\<close>), what a poll reports
  (\<open>callbacks.rs\<close>), and the poll loop that Android, Linux and macOS share (\<open>wait.rs\<close>). The
  platform's probe, its default deadline and the environment are parameters.
\<close>

section \<open>Definitions\<close>

subsection \<open>Configuration values\<close>

datatype held_touch = Off | Wait | Fail

definition held_touch_from_str :: "string \<Rightarrow> string + held_touch" where
  "held_touch_from_str raw =
     (let word = to_ascii_lowercase (trim raw) in
      if word = ''off'' then Inr Off
      else if word = ''wait'' then Inr Wait
      else if word = ''fail'' then Inr Fail
      else Inl raw)"

fun held_touch_str :: "held_touch \<Rightarrow> string" where
  "held_touch_str Off = ''off''"
| "held_touch_str Wait = ''wait''"
| "held_touch_str Fail = ''fail''"

datatype range_error = CeilingRange nat | CpuPercentRange nat | BusyCoresRange nat

definition CEILING_MAX :: nat where "CEILING_MAX = 110"

definition ceiling_celsius :: "nat \<Rightarrow> range_error + nat" where
  "ceiling_celsius c = (if 1 \<le> c \<and> c \<le> CEILING_MAX then Inr c else Inl (CeilingRange c))"

definition cpu_percent :: "nat \<Rightarrow> range_error + nat" where
  "cpu_percent pct = (if 1 \<le> pct \<and> pct \<le> 100 then Inr pct else Inl (CpuPercentRange pct))"

definition busy_cores :: "nat \<Rightarrow> range_error + nat" where
  "busy_cores cores = (if 1 \<le> cores then Inr cores else Inl (BusyCoresRange cores))"

datatype windows_sensor = AcpiZone string | Gpu

definition ascii_upper :: "char \<Rightarrow> char" where
  "ascii_upper c = (if 97 \<le> (of_char c :: nat) \<and> (of_char c :: nat) \<le> 122 then char_of ((of_char c :: nat) - 32) else c)"

definition zone_byte :: "char \<Rightarrow> bool" where
  "zone_byte c \<longleftrightarrow> (let n = (of_char c :: nat) in
     48 \<le> n \<and> n \<le> 57 \<or> 65 \<le> n \<and> n \<le> 90 \<or> 97 \<le> n \<and> n \<le> 122 \<or> n = 95)"

definition sensor_from_str :: "string \<Rightarrow> string + windows_sensor" where
  "sensor_from_str raw =
     (case split_once (CHR '':'') raw of
        None \<Rightarrow> if raw = ''gpu'' then Inr Gpu else Inl raw
      | Some (source, zone) \<Rightarrow>
          if source = ''acpi'' \<and> zone \<noteq> [] \<and> list_all zone_byte zone
          then Inr (AcpiZone (map ascii_upper zone)) else Inl raw)"

fun sensor_str :: "windows_sensor \<Rightarrow> string" where
  "sensor_str (AcpiZone zone) = ''acpi:'' @ zone"
| "sensor_str Gpu = ''gpu''"

text \<open>The table's names and bounds in key order; a name that is no sensor, or a second name of one
  sensor, refuses the table.\<close>

fun ceilings_from ::
  "(string \<times> nat) list \<Rightarrow> (windows_sensor \<rightharpoonup> nat) \<Rightarrow> string + (windows_sensor \<rightharpoonup> nat)" where
  "ceilings_from [] m = Inr m"
| "ceilings_from ((name, c) # rest) m =
     (case sensor_from_str name of
        Inl e \<Rightarrow> Inl e
      | Inr sensor \<Rightarrow>
          (case m sensor of
             None \<Rightarrow> ceilings_from rest (m(sensor \<mapsto> c))
           | Some _ \<Rightarrow> Inl name))"

definition unique_ceilings :: "(string \<times> nat) list \<Rightarrow> string + (windows_sensor \<rightharpoonup> nat)" where
  "unique_ceilings table = ceilings_from table Map.empty"

record android_configuration =
  and_hottest_below_c :: "nat option"
  and_skin_below_c :: "nat option"
  and_cpu_busy_below_pct :: "nat option"
  and_held_touch :: "held_touch option"

record linux_configuration =
  lin_hottest_below_c :: "nat option"
  lin_cpu_load_below_pct :: "nat option"

record orin_configuration =
  orin_hottest_below_c :: "nat option"
  orin_cpu_load_below_pct :: "nat option"
  orin_gpu_load_below_pct :: "nat option"

record macos_configuration =
  mac_die_below_c :: "nat option"
  mac_cpu_busy_below_cores :: "nat option"

record windows_configuration =
  max_cpu_busy_pct :: "nat option"
  ceilings :: "windows_sensor \<rightharpoonup> nat"

datatype readiness_configuration =
  AndroidCfg android_configuration
| LinuxCfg linux_configuration
| RaspberryPi5Cfg linux_configuration
| JetsonOrinCfg orin_configuration
| MacOsCfg macos_configuration
| WindowsCfg windows_configuration

datatype readiness_platform = Android | Linux | RaspberryPi5 | JetsonOrin | MacOs | Windows | Other

fun platform_str :: "readiness_platform \<Rightarrow> string" where
  "platform_str Android = ''android''"
| "platform_str Linux = ''linux''"
| "platform_str RaspberryPi5 = ''pi5''"
| "platform_str JetsonOrin = ''orin''"
| "platform_str MacOs = ''macos''"
| "platform_str Windows = ''windows''"
| "platform_str Other = ''other''"

fun configuration_platform :: "readiness_configuration \<Rightarrow> readiness_platform" where
  "configuration_platform (AndroidCfg _) = Android"
| "configuration_platform (LinuxCfg _) = Linux"
| "configuration_platform (RaspberryPi5Cfg _) = RaspberryPi5"
| "configuration_platform (JetsonOrinCfg _) = JetsonOrin"
| "configuration_platform (MacOsCfg _) = MacOs"
| "configuration_platform (WindowsCfg _) = Windows"

fun android_of :: "readiness_configuration \<Rightarrow> android_configuration option" where
  "android_of (AndroidCfg android) = Some android"
| "android_of _ = None"

fun windows_of :: "readiness_configuration \<Rightarrow> windows_configuration option" where
  "windows_of (WindowsCfg windows) = Some windows"
| "windows_of _ = None"

subsection \<open>The policy\<close>




datatype thermal_gate = Unset | Enforce | Skip

definition skipped :: "thermal_gate \<Rightarrow> bool" where
  "skipped g \<longleftrightarrow> g = Skip"


record resolved_readiness =
  max_wait :: duration
  thermal :: thermal_gate
  configuration :: "readiness_configuration option"
  skin_below_c :: "nat option"
  held_touch_mode :: "held_touch option"

definition max_wait_secs :: "resolved_readiness \<Rightarrow> nat" where
  "max_wait_secs r = as_secs (max_wait r)"

definition skip_thermal :: "resolved_readiness \<Rightarrow> bool" where
  "skip_thermal r = skipped (thermal r)"

definition held_touch_of :: "resolved_readiness \<Rightarrow> held_touch" where
  "held_touch_of r = (case held_touch_mode r of Some h \<Rightarrow> h | None \<Rightarrow> Wait)"

definition or_else :: "'a option \<Rightarrow> 'a option \<Rightarrow> 'a option" where
  "or_else a b = (case a of Some x \<Rightarrow> Some x | None \<Rightarrow> b)"

definition with_configuration ::
  "resolved_readiness \<Rightarrow> readiness_configuration option \<Rightarrow> resolved_readiness" where
  "with_configuration r cfg =
     (let android = Option.bind cfg android_of in
      r\<lparr>configuration := cfg,
        skin_below_c := or_else (skin_below_c r) (Option.bind android and_skin_below_c),
        held_touch_mode := or_else (held_touch_mode r) (Option.bind android and_held_touch)\<rparr>)"

definition with_held_touch :: "resolved_readiness \<Rightarrow> held_touch option \<Rightarrow> resolved_readiness" where
  "with_held_touch r mode = r\<lparr>held_touch_mode := or_else mode (held_touch_mode r)\<rparr>"

definition with_skin_below_c :: "resolved_readiness \<Rightarrow> nat option \<Rightarrow> resolved_readiness" where
  "with_skin_below_c r c = r\<lparr>skin_below_c := or_else c (skin_below_c r)\<rparr>"

definition DEFAULT_MAX_WAIT :: duration where "DEFAULT_MAX_WAIT = from_secs 300"
definition SENSOR_POLL_INTERVAL :: duration where "SENSOR_POLL_INTERVAL = from_secs 3"
definition PROBE_RETRY_POLLS :: nat where "PROBE_RETRY_POLLS = 3"



subsection \<open>The poll loop\<close>

datatype readiness_error =
  TimedOutError duration string
| IoError string
| ProbeError string
| ParseFailure string
| Unavailable string
| Cancelled
| UnknownSensor windows_sensor string
| SensorUnread windows_sensor duration
| BoundWithoutThermalZones
| BoundWithoutSkinSensor
| HeldTouchError nat nat

datatype readiness_phase = Waiting duration | Proceeding | TimedOut

fun phase_str :: "readiness_phase \<Rightarrow> string" where
  "phase_str (Waiting _) = ''waiting''"
| "phase_str Proceeding = ''proceeding''"
| "phase_str TimedOut = ''timed_out''"

record readiness_status =
  phase :: readiness_phase
  platform :: readiness_platform
  observed :: string
  elapsed :: duration
  status_max_wait :: duration

definition is_waiting :: "readiness_status \<Rightarrow> bool" where
  "is_waiting s = (case phase s of Waiting _ \<Rightarrow> True | _ \<Rightarrow> False)"

record probe =
  ready :: bool
  summary :: string

fun retriable :: "readiness_error \<Rightarrow> bool" where
  "retriable (IoError _) = True"
| "retriable (ProbeError _) = True"
| "retriable (ParseFailure _) = True"
| "retriable (Unavailable _) = True"
| "retriable BoundWithoutThermalZones = False"
| "retriable BoundWithoutSkinSensor = False"
| "retriable (UnknownSensor _ _) = False"
| "retriable (HeldTouchError _ _) = False"
| "retriable (TimedOutError _ _) = False"
| "retriable Cancelled = False"
| "retriable (SensorUnread _ _) = False"

definition on_probe_failure ::
  "instant \<Rightarrow> readiness_error \<Rightarrow> nat \<Rightarrow> instant \<Rightarrow> (unit, unit) control_flow" where
  "on_probe_failure now err failed deadline =
     (if \<not> retriable err \<or> PROBE_RETRY_POLLS \<le> failed \<or> deadline \<le> now then Break () else Continue ())"

type_synonym 'w readiness_callbacks = "('w, readiness_status) wait_callbacks"

partial_function (option) poll_loop ::
  "('w \<Rightarrow> instant) \<Rightarrow> (readiness_status \<Rightarrow> 'w \<Rightarrow> 'w) \<Rightarrow> readiness_platform \<Rightarrow> duration \<Rightarrow> 'w readiness_callbacks
     \<Rightarrow> ('w \<Rightarrow> (readiness_error + probe) \<times> 'w) \<Rightarrow> instant \<Rightarrow> nat \<Rightarrow> 'w \<Rightarrow> ((readiness_error + unit) \<times> 'w) option" where
  "poll_loop now report_default pf limit cb probe started failed w =
     (let deadline = started + limit;
          (probed, w1) = probe w;
          w2 = polled cb w1;
          rest = clamp_to_deadline (now w2) (SENSOR_POLL_INTERVAL - (now w2 - now w)) deadline
      in case probed of
           Inl err \<Rightarrow>
             (if is_break (on_probe_failure (now w2) err (Suc failed) deadline) then Some (Inl err, w2)
              else (let (r, w3) = cb_sleep_cancellably cb rest w2
                    in if is_break r then Some (Inl Cancelled, w3)
                       else poll_loop now report_default pf limit cb probe started (Suc failed) w3))
         | Inr p \<Rightarrow>
             (let (c, w3) = is_cancelled cb w2;
                  status = (\<lambda>ph. \<lparr>phase = ph, platform = pf, observed = summary p,
                                   elapsed = now w3 - started, status_max_wait = limit\<rparr>)
              in if c then Some (Inl Cancelled, w3)
                 else if ready p then Some (Inr (), report report_default cb (status Proceeding) w3)
                 else if deadline \<le> now w3
                 then Some (Inl (TimedOutError limit (summary p)),
                            report report_default cb (status TimedOut) w3)
                 else (let w4 = report report_default cb (status (Waiting rest)) w3;
                           (r, w5) = cb_sleep_cancellably cb rest w4
                       in if is_break r then Some (Inl Cancelled, w5)
                          else poll_loop now report_default pf limit cb probe started 0 w5)))"

definition wait_loop ::
  "('w \<Rightarrow> instant) \<Rightarrow> (readiness_status \<Rightarrow> 'w \<Rightarrow> 'w) \<Rightarrow> readiness_platform \<Rightarrow> duration \<Rightarrow> 'w readiness_callbacks
     \<Rightarrow> ('w \<Rightarrow> (readiness_error + probe) \<times> 'w) \<Rightarrow> 'w \<Rightarrow> ((readiness_error + unit) \<times> 'w) option" where
  "wait_loop now report_default pf limit cb probe w =
     (let (c, w1) = is_cancelled cb w in
      if c then Some (Inl Cancelled, w1)
      else poll_loop now report_default pf limit cb probe (now w) 0 w1)"

section \<open>The loop ends in time\<close>

text \<open>No callback and no probe turns the clock back, and a sleep of \<open>d\<close> takes \<open>d\<close> or more.\<close>

definition poll_clock ::
  "('w \<Rightarrow> instant) \<Rightarrow> (readiness_status \<Rightarrow> 'w \<Rightarrow> 'w) \<Rightarrow> 'w readiness_callbacks
     \<Rightarrow> ('w \<Rightarrow> (readiness_error + probe) \<times> 'w) \<Rightarrow> bool" where
  "poll_clock now report_default cb probe \<longleftrightarrow>
     clock_laws now (cb_cancelled cb) (cb_sleep cb)
     \<and> (\<forall>w. now w \<le> now (snd (probe w))) \<and> (\<forall>w. now w \<le> now (polled cb w))
     \<and> (\<forall>st w. now w \<le> now (report report_default cb st w))"

text \<open>\<open>polls\<close> counts the probes: only a probe moves it.\<close>

definition poll_count ::
  "('w \<Rightarrow> nat) \<Rightarrow> (readiness_status \<Rightarrow> 'w \<Rightarrow> 'w) \<Rightarrow> 'w readiness_callbacks
     \<Rightarrow> ('w \<Rightarrow> (readiness_error + probe) \<times> 'w) \<Rightarrow> bool" where
  "poll_count polls report_default cb probe \<longleftrightarrow>
     (\<forall>w. polls (snd (probe w)) = Suc (polls w)) \<and> (\<forall>w. polls (polled cb w) = polls w)
     \<and> (\<forall>w. polls (snd (cb_cancelled cb w)) = polls w) \<and> (\<forall>d w. polls (cb_sleep cb d w) = polls w)
     \<and> (\<forall>st w. polls (report report_default cb st w) = polls w)"

lemma sleep_cancellably_keeps:
  assumes "\<And>w. f (snd (c w)) = f w" and "\<And>d w. f (s d w) = f w"
  shows "f (snd (sleep_cancellably d c s w)) = f w"
  using assms
proof (induction d c s w rule: sleep_cancellably.induct)
  case (1 d c s w)
  obtain x w1 where cw: "c w = (x, w1)" by (cases "c w")
  then have f1: "f w1 = f w" using "1.prems"(1) [of w] by simp
  show ?case
  proof (cases "0 < d \<and> \<not> x")
    case True
    let ?k = "min d CANCEL_CHECK_INTERVAL"
    have "f (snd (sleep_cancellably (d - ?k) c s (s ?k w1))) = f (s ?k w1)"
      by (rule "1.IH") (use True cw "1.prems" in auto)
    then show ?thesis using True f1 "1.prems"(2) by (subst sleep_cancellably.simps) (simp add: cw Let_def)
  next
    case False
    then show ?thesis using f1 by (subst sleep_cancellably.simps) (auto simp: cw)
  qed
qed

lemma sleep_to_next_poll:
  assumes "clock_laws now (cb_cancelled cb) (cb_sleep cb)" and "now w \<le> now w2" "now w2 \<le> now v"
    and "cb_sleep_cancellably cb
      (clamp_to_deadline (now w2) (SENSOR_POLL_INTERVAL - (now w2 - now w)) deadline) v = (r, v')"
    and "\<not> is_break r"
  shows "deadline \<le> now v' \<or> now w + SENSOR_POLL_INTERVAL \<le> now v'"
proof -
  have "now v + clamp_to_deadline (now w2) (SENSOR_POLL_INTERVAL - (now w2 - now w)) deadline \<le> now v'"
    using sleep_cancellably_mono [OF assms(1)] assms(4,5) unfolding cb_sleep_cancellably_def by blast
  then show ?thesis using assms(2,3) by (auto simp: clamp_to_deadline_def min_def split: if_splits)
qed

lemma poll_round:
  assumes clock: "poll_clock now rd cb probe" and count: "poll_count polls rd cb probe"
  shows "(\<exists>r w'. poll_loop now rd pf limit cb probe started failed w = Some (r, w')
            \<and> polls w' = Suc (polls w) \<and> (r = Inr () \<longrightarrow> (\<exists>p. fst (probe w) = Inr p \<and> ready p)))
       \<or> (\<exists>failed' w'. poll_loop now rd pf limit cb probe started failed w
                          = poll_loop now rd pf limit cb probe started failed' w'
            \<and> polls w' = Suc (polls w) \<and> now w < started + limit
            \<and> (started + limit \<le> now w' \<or> now w + SENSOR_POLL_INTERVAL \<le> now w'))"
    (is "?done \<or> ?again")
proof -
  define deadline where "deadline = started + limit"
  obtain probed w1 where pr: "probe w = (probed, w1)" by fastforce
  define w2 where "w2 = polled cb w1"
  define rest where "rest = clamp_to_deadline (now w2) (SENSOR_POLL_INTERVAL - (now w2 - now w)) deadline"
  have laws: "clock_laws now (cb_cancelled cb) (cb_sleep cb)" using clock by (simp add: poll_clock_def)
  have w2: "now w \<le> now w2" "polls w2 = Suc (polls w)"
    using clock count pr unfolding poll_clock_def poll_count_def w2_def by (metis le_trans snd_conv, metis snd_conv)
  have slept: "polls (snd (cb_sleep_cancellably cb d v)) = polls v" for d v
    using count unfolding cb_sleep_cancellably_def poll_count_def by (intro sleep_cancellably_keeps) simp_all
  show ?thesis
  proof (cases probed)
    case (Inl err)
    obtain r w3 where sl: "cb_sleep_cancellably cb rest w2 = (r, w3)" by fastforce
    have p3: "polls w3 = Suc (polls w)" using slept [of rest w2] w2(2) by (simp add: sl)
    have eq: "poll_loop now rd pf limit cb probe started failed w =
      (if is_break (on_probe_failure (now w2) err (Suc failed) deadline) then Some (Inl err, w2)
       else if is_break r then Some (Inl Cancelled, w3)
       else poll_loop now rd pf limit cb probe started (Suc failed) w3)"
      by (subst poll_loop.simps) (simp add: pr Inl Let_def sl flip: deadline_def w2_def rest_def)
    show ?thesis
    proof (cases "is_break (on_probe_failure (now w2) err (Suc failed) deadline) \<or> is_break r")
      case True
      then show ?thesis using eq w2 p3 by auto
    next
      case False
      then have "now w < deadline" using w2(1) by (auto simp: on_probe_failure_def split: if_splits)
      moreover have "deadline \<le> now w3 \<or> now w + SENSOR_POLL_INTERVAL \<le> now w3"
        using sleep_to_next_poll [OF laws w2(1) order.refl sl [unfolded rest_def]] False by blast
      ultimately have ?again using eq False p3 unfolding deadline_def by auto
      then show ?thesis ..
    qed
  next
    case (Inr p)
    obtain c w3 where cn: "is_cancelled cb w2 = (c, w3)" by fastforce
    have w3: "now w2 \<le> now w3" "polls w3 = Suc (polls w)"
      using clock_lawsD(1) [OF laws, of w2] cn count w2(2) unfolding is_cancelled_def poll_count_def
      by (simp, metis snd_conv)
    define st where "st = (\<lambda>ph. \<lparr>phase = ph, platform = pf, observed = summary p,
        elapsed = now w3 - started, status_max_wait = limit\<rparr>)"
    have rep: "now w3 \<le> now (report rd cb s w3)" "polls (report rd cb s w3) = Suc (polls w)" for s
      using clock count w3(2) unfolding poll_clock_def poll_count_def by simp_all
    obtain r w5 where sl: "cb_sleep_cancellably cb rest (report rd cb (st (Waiting rest)) w3) = (r, w5)" by fastforce
    have p5: "polls w5 = Suc (polls w)"
      using slept [of rest "report rd cb (st (Waiting rest)) w3"] rep(2) by (simp add: sl)
    have eq: "poll_loop now rd pf limit cb probe started failed w =
      (if c then Some (Inl Cancelled, w3)
       else if ready p then Some (Inr (), report rd cb (st Proceeding) w3)
       else if deadline \<le> now w3
       then Some (Inl (TimedOutError limit (summary p)), report rd cb (st TimedOut) w3)
       else if is_break r then Some (Inl Cancelled, w5)
       else poll_loop now rd pf limit cb probe started 0 w5)"
      by (subst poll_loop.simps) (simp add: pr Inr Let_def cn sl [unfolded st_def] st_def flip: deadline_def w2_def rest_def)
    show ?thesis
    proof (cases "c \<or> ready p \<or> deadline \<le> now w3 \<or> is_break r")
      case True
      then show ?thesis using eq w3 rep p5 pr Inr by auto
    next
      case False
      then have "now w < deadline" using w2(1) w3(1) by auto
      moreover have "deadline \<le> now w5 \<or> now w + SENSOR_POLL_INTERVAL \<le> now w5"
        using sleep_to_next_poll [OF laws w2(1) _ sl [unfolded rest_def]] w3(1) rep(1) False le_trans by blast
      ultimately have ?again using eq False p5 unfolding deadline_def by auto
      then show ?thesis ..
    qed
  qed
qed

lemma SENSOR_POLL_INTERVAL_pos [simp]: "0 < SENSOR_POLL_INTERVAL"
  by (simp add: SENSOR_POLL_INTERVAL_def from_secs_def)

lemma SENSOR_POLL_INTERVAL_nonzero [simp]: "SENSOR_POLL_INTERVAL \<noteq> 0"
  using SENSOR_POLL_INTERVAL_pos by linarith

lemma poll_loop_in_time:
  assumes clock: "poll_clock now rd cb probe" and count: "poll_count polls rd cb probe"
  shows "\<exists>r w'. poll_loop now rd pf limit cb probe started failed w = Some (r, w')
    \<and> polls w' \<le> polls w + (if started + limit \<le> now w then 1
                            else (started + limit - now w) div SENSOR_POLL_INTERVAL + 2)
    \<and> (r = Inr () \<longrightarrow> (\<exists>w0 p. fst (probe w0) = Inr p \<and> ready p \<and> polls w' = Suc (polls w0)))"
proof (induction "started + limit - now w" arbitrary: failed w rule: less_induct)
  case less
  let ?dl = "started + limit"
  from poll_round [OF clock count, of pf limit started failed w]
  show ?case
  proof (rule disjE; elim exE conjE)
    fix r w'
    assume "poll_loop now rd pf limit cb probe started failed w = Some (r, w')" "polls w' = Suc (polls w)"
      "r = Inr () \<longrightarrow> (\<exists>p. fst (probe w) = Inr p \<and> ready p)"
    then show ?case by auto
  next
    fix failed' w1
    assume eq: "poll_loop now rd pf limit cb probe started failed w
        = poll_loop now rd pf limit cb probe started failed' w1"
      and polls1: "polls w1 = Suc (polls w)" and lt: "now w < ?dl"
      and adv: "?dl \<le> now w1 \<or> now w + SENSOR_POLL_INTERVAL \<le> now w1"
    have "?dl - now w1 < ?dl - now w" using lt adv SENSOR_POLL_INTERVAL_pos by (auto simp del: SENSOR_POLL_INTERVAL_pos)
    then obtain r w' where r: "poll_loop now rd pf limit cb probe started failed' w1 = Some (r, w')"
      "polls w' \<le> polls w1 + (if ?dl \<le> now w1 then 1 else (?dl - now w1) div SENSOR_POLL_INTERVAL + 2)"
      "r = Inr () \<longrightarrow> (\<exists>w0 p. fst (probe w0) = Inr p \<and> ready p \<and> polls w' = Suc (polls w0))"
      using less [of w1 failed'] by blast
    have "(?dl - now w1) div SENSOR_POLL_INTERVAL + 1 \<le> (?dl - now w) div SENSOR_POLL_INTERVAL" if "\<not> ?dl \<le> now w1"
    proof -
      have "(?dl - now w1) + SENSOR_POLL_INTERVAL \<le> ?dl - now w" using adv that by auto
      then have "((?dl - now w1) + SENSOR_POLL_INTERVAL) div SENSOR_POLL_INTERVAL \<le> (?dl - now w) div SENSOR_POLL_INTERVAL"
        by (rule div_le_mono)
      then show ?thesis by (simp add: div_add_self2)
    qed
    then show ?case using eq r polls1 lt by (auto split: if_splits)
  qed
qed

lemma poll_loop_failures:
  assumes count: "poll_count polls rd cb probe" and fails: "\<And>w. \<exists>e. fst (probe w) = Inl e"
  shows "failed < PROBE_RETRY_POLLS \<Longrightarrow>
    \<exists>e w'. poll_loop now rd pf limit cb probe started failed w = Some (Inl e, w')
      \<and> polls w' + failed \<le> polls w + PROBE_RETRY_POLLS"
proof (induction "PROBE_RETRY_POLLS - failed" arbitrary: failed w)
  case 0
  then show ?case by simp
next
  case (Suc k)
  obtain err w1 where pr: "probe w = (Inl err, w1)" using fails [of w] by (metis prod.collapse)
  define w2 where "w2 = polled cb w1"
  define rest where "rest = clamp_to_deadline (now w2) (SENSOR_POLL_INTERVAL - (now w2 - now w)) (started + limit)"
  obtain r w3 where sl: "cb_sleep_cancellably cb rest w2 = (r, w3)" by fastforce
  have p2: "polls w2 = Suc (polls w)"
    using count pr unfolding poll_count_def w2_def by (metis snd_conv)
  have "polls (snd (cb_sleep_cancellably cb rest w2)) = polls w2"
    using count unfolding cb_sleep_cancellably_def poll_count_def by (intro sleep_cancellably_keeps) simp_all
  then have p3: "polls w3 = Suc (polls w)" by (simp add: sl p2)
  have eq: "poll_loop now rd pf limit cb probe started failed w =
    (if is_break (on_probe_failure (now w2) err (Suc failed) (started + limit)) then Some (Inl err, w2)
     else if is_break r then Some (Inl Cancelled, w3)
     else poll_loop now rd pf limit cb probe started (Suc failed) w3)"
    by (subst poll_loop.simps) (simp add: pr Let_def sl flip: w2_def rest_def)
  show ?case
  proof (cases "is_break (on_probe_failure (now w2) err (Suc failed) (started + limit)) \<or> is_break r")
    case True
    then show ?thesis using eq p2 p3 Suc.prems by auto
  next
    case False
    then have "Suc failed < PROBE_RETRY_POLLS" by (auto simp: on_probe_failure_def split: if_splits)
    then show ?thesis using Suc.hyps(1) [of "Suc failed" w3] Suc.hyps(2) eq False p3 by auto
  qed
qed

section \<open>Sensor names\<close>

lemma of_char_ascii_upper:
  "(of_char (ascii_upper c) :: nat) = (if 97 \<le> (of_char c :: nat) \<and> (of_char c :: nat) \<le> 122 then of_char c - 32 else of_char c)"
  by (auto simp: ascii_upper_def)

lemma ascii_upper_idem [simp]: "ascii_upper (ascii_upper c) = ascii_upper c"
proof -
  have "\<not> (97 \<le> (of_char (ascii_upper c) :: nat) \<and> (of_char (ascii_upper c) :: nat) \<le> 122)"
    unfolding of_char_ascii_upper by auto
  then show ?thesis unfolding ascii_upper_def [of "ascii_upper c"] by auto
qed

lemma zone_byte_upper: "zone_byte c \<Longrightarrow> zone_byte (ascii_upper c)"
  unfolding zone_byte_def Let_def of_char_ascii_upper by auto

lemma sensor_acpi:
  "sensor_from_str (''acpi:'' @ zone) =
     (if zone \<noteq> [] \<and> list_all zone_byte zone then Inr (AcpiZone (map ascii_upper zone)) else Inl (''acpi:'' @ zone))"
proof -
  have "split_once (CHR '':'') (''acpi:'' @ zone) = Some (''acpi'', zone)"
    unfolding split_once_Some by simp
  then show ?thesis by (simp add: sensor_from_str_def)
qed

lemma ceilings_from_iff:
  "ceilings_from table m = Inr m' \<longleftrightarrow>
     (\<exists>ss. list_all2 (\<lambda>x s. sensor_from_str (fst x) = Inr s) table ss \<and> distinct ss
        \<and> set ss \<inter> dom m = {} \<and> m' = m ++ map_of (zip ss (map snd table)))"
proof (induction table m rule: ceilings_from.induct)
  case (1 m)
  then show ?case by auto
next
  case (2 name c rest m)
  show ?case
  proof (cases "sensor_from_str name")
    case (Inl e)
    then show ?thesis by (auto simp: list_all2_Cons1)
  next
    case (Inr s)
    show ?thesis
    proof (cases "m s")
      case (Some x)
      then show ?thesis by (auto simp: Inr list_all2_Cons1)
    next
      case None
      have eq: "m(s \<mapsto> c) ++ map_of (zip ss (map snd rest)) = (m ++ map_of (zip ss (map snd rest)))(s \<mapsto> c)"
        if "s \<notin> set ss" for ss
      proof -
        have "map_of (zip ss (map snd rest)) s = None"
          using that by (auto simp: map_of_eq_None_iff dest: set_zip_leftD)
        then show ?thesis by (auto simp: map_add_def fun_eq_iff split: option.splits)
      qed
      have "(\<exists>ss. list_all2 (\<lambda>x s. sensor_from_str (fst x) = Inr s) rest ss \<and> distinct ss
            \<and> set ss \<inter> dom (m(s \<mapsto> c)) = {} \<and> m' = m(s \<mapsto> c) ++ map_of (zip ss (map snd rest)))
        \<longleftrightarrow> (\<exists>ss. list_all2 (\<lambda>x s. sensor_from_str (fst x) = Inr s) rest ss \<and> distinct (s # ss)
            \<and> set (s # ss) \<inter> dom m = {} \<and> m' = m ++ map_of (zip (s # ss) (map snd ((name, c) # rest))))"
        using None by (intro ex_cong1) (auto simp: domIff eq)
      moreover have "ceilings_from ((name, c) # rest) m = Inr m' \<longleftrightarrow> ceilings_from rest (m(s \<mapsto> c)) = Inr m'"
        by (simp add: Inr None)
      moreover have "(\<exists>ss. list_all2 (\<lambda>x s. sensor_from_str (fst x) = Inr s) ((name, c) # rest) ss \<and> P ss)
          \<longleftrightarrow> (\<exists>ss. list_all2 (\<lambda>x s. sensor_from_str (fst x) = Inr s) rest ss \<and> P (s # ss))" for P
        by (auto simp: list_all2_Cons1 Inr)
      ultimately show ?thesis unfolding "2.IH" [OF Inr None] by presburger
    qed
  qed
qed

section \<open>Properties\<close>

text \<open>C24. The readiness gate always answers: on a clock that no callback turns back and that a sleep
  moves on, the poll loop returns after at most one probe per three seconds of its deadline and two
  more; and it lets a rep through only when the last probe it made reported the host ready.\<close>

theorem wait_loop_in_time:
  assumes clock: "poll_clock now rd cb probe" and count: "poll_count polls rd cb probe"
  shows "\<exists>r w'. wait_loop now rd pf limit cb probe w = Some (r, w')
    \<and> polls w' \<le> polls w + limit div SENSOR_POLL_INTERVAL + 2
    \<and> (r = Inr () \<longrightarrow> (\<exists>w0 p. fst (probe w0) = Inr p \<and> ready p \<and> polls w' = Suc (polls w0)))"
proof -
  obtain c w1 where c: "is_cancelled cb w = (c, w1)" by fastforce
  have w1: "now w \<le> now w1" "polls w1 = polls w"
    using clock count c unfolding poll_clock_def poll_count_def clock_laws_def is_cancelled_def
    by (metis snd_conv)+
  obtain r w' where r: "poll_loop now rd pf limit cb probe (now w) 0 w1 = Some (r, w')"
    "polls w' \<le> polls w1 + (if now w + limit \<le> now w1 then 1
                            else (now w + limit - now w1) div SENSOR_POLL_INTERVAL + 2)"
    "r = Inr () \<longrightarrow> (\<exists>w0 p. fst (probe w0) = Inr p \<and> ready p \<and> polls w' = Suc (polls w0))"
    using poll_loop_in_time [OF clock count] by blast
  have "(now w + limit - now w1) div SENSOR_POLL_INTERVAL \<le> limit div SENSOR_POLL_INTERVAL"
    using w1(1) by (intro div_le_mono) simp
  then have "polls w' \<le> polls w + limit div SENSOR_POLL_INTERVAL + 2"
    using r(2) w1(2) by (auto split: if_splits)
  then show ?thesis using r w1 by (auto simp: wait_loop_def c)
qed

text \<open>The witness: a clock in nanoseconds and a probe count; a probe takes a second and the host is
  ready at the third one.\<close>

theorem wait_loop_in_time_witness:
  "\<exists>r w'. wait_loop fst (\<lambda>_ w. w) Linux (from_secs 300) (default_callbacks (\<lambda>d w. (fst w + d, snd w)))
      (\<lambda>w. (Inr \<lparr>ready = 2 \<le> snd w, summary = ''cpu=3%''\<rparr>, (fst w + from_secs 1, Suc (snd w)))) (0, 0) = Some (r, w')
    \<and> snd w' \<le> 102 \<and> (r = Inr () \<longrightarrow> 3 \<le> snd w')"
proof -
  let ?cb = "default_callbacks (\<lambda>d w. (fst w + d, snd w)) :: (nat \<times> nat) readiness_callbacks"
  let ?probe = "\<lambda>w :: nat \<times> nat. (Inr \<lparr>ready = 2 \<le> snd w, summary = ''cpu=3%''\<rparr>, (fst w + from_secs 1, Suc (snd w)))
    :: (readiness_error + probe) \<times> nat \<times> nat"
  have clock: "poll_clock fst (\<lambda>_ w. w) ?cb ?probe" and count: "poll_count snd (\<lambda>_ w. w) ?cb ?probe"
    by (auto simp: poll_clock_def poll_count_def clock_laws_def default_callbacks_def never_cancelled_def
        polled_def report_def)
  have secs: "from_secs 300 div SENSOR_POLL_INTERVAL = 100"
    by (simp add: from_secs_def SENSOR_POLL_INTERVAL_def)
  obtain r w' where r: "wait_loop fst (\<lambda>_ w. w) Linux (from_secs 300) ?cb ?probe (0, 0) = Some (r, w')"
    "snd w' \<le> 0 + from_secs 300 div SENSOR_POLL_INTERVAL + 2"
    "r = Inr () \<longrightarrow> (\<exists>w0 p. fst (?probe w0) = Inr p \<and> ready p \<and> snd w' = Suc (snd w0))"
    using wait_loop_in_time [OF clock count, of Linux "from_secs 300" "(0, 0)"] by auto
  then show ?thesis unfolding secs by (intro exI [of _ r] exI [of _ w']) auto
qed

text \<open>C25. A probe that fails on every poll ends the wait with an error after at most three probes.\<close>

theorem failing_probe_ends_wait:
  assumes "poll_count polls rd cb probe" and "\<And>w. \<exists>e. fst (probe w) = Inl e"
  shows "\<exists>e w'. wait_loop now rd pf limit cb probe w = Some (Inl e, w') \<and> polls w' \<le> polls w + 3"
proof -
  obtain c w1 where c: "is_cancelled cb w = (c, w1)" by fastforce
  then have "polls w1 = polls w"
    using assms(1) unfolding poll_count_def is_cancelled_def by (metis snd_conv)
  moreover obtain e w' where "poll_loop now rd pf limit cb probe (now w) 0 w1 = Some (Inl e, w')"
    "polls w' + 0 \<le> polls w1 + PROBE_RETRY_POLLS"
    using poll_loop_failures [OF assms, of 0 now pf limit "now w" w1] by (auto simp: PROBE_RETRY_POLLS_def)
  ultimately show ?thesis by (auto simp: wait_loop_def c PROBE_RETRY_POLLS_def)
qed

theorem failing_probe_ends_wait_witness:
  "\<exists>e w'. wait_loop fst (\<lambda>_ w. w) Windows (from_secs 300) (default_callbacks (\<lambda>d w. (fst w + d, snd w)))
      (\<lambda>w. (Inl (Unavailable ''dumpsys''), (fst w, Suc (snd w)))) (0, 0) = Some (Inl e, w') \<and> snd w' \<le> (3 :: nat)"
  using failing_probe_ends_wait [where polls = snd and w = "(0, 0) :: nat \<times> nat" and now = fst and pf = Windows
      and rd = "\<lambda>_ w. w" and cb = "default_callbacks (\<lambda>d w. (fst w + d, snd w))"
      and probe = "\<lambda>w. (Inl (Unavailable ''dumpsys''), (fst w, Suc (snd w)))" and limit = "from_secs 300"]
  by (simp add: poll_count_def default_callbacks_def never_cancelled_def polled_def report_def)


text \<open>C27. Sensor names round-trip: printing a sensor and reading it back gives the sensor exactly for
  the sensors that some name denotes; and a table of ceilings is accepted exactly when every name
  denotes a sensor and no two names denote the same one, with each sensor bound to its own ceiling.\<close>

theorem sensor_names:
  "(sensor_from_str (sensor_str s) = Inr s \<longleftrightarrow> (\<exists>raw. sensor_from_str raw = Inr s))
   \<and> (unique_ceilings table = Inr m \<longleftrightarrow>
       (\<exists>ss. list_all2 (\<lambda>x s. sensor_from_str (fst x) = Inr s) table ss \<and> distinct ss
          \<and> m = map_of (zip ss (map snd table))))"
proof
  show "sensor_from_str (sensor_str s) = Inr s \<longleftrightarrow> (\<exists>raw. sensor_from_str raw = Inr s)"
  proof
    assume "\<exists>raw. sensor_from_str raw = Inr s"
    then obtain raw where raw: "sensor_from_str raw = Inr s" ..
    show "sensor_from_str (sensor_str s) = Inr s"
    proof (cases s)
      case Gpu
      have "split_once (CHR '':'') ''gpu'' = None" by simp
      then show ?thesis by (simp add: Gpu sensor_from_str_def)
    next
      case (AcpiZone z)
      then obtain zone where "zone \<noteq> []" "list_all zone_byte zone" "z = map ascii_upper zone"
        using raw by (auto simp: sensor_from_str_def split: option.splits if_splits)
      then have "z \<noteq> []" "list_all zone_byte z" "map ascii_upper z = z"
        by (auto simp: list_all_iff zone_byte_upper)
      then show ?thesis unfolding AcpiZone sensor_str.simps sensor_acpi by simp
    qed
  qed blast
qed (simp add: unique_ceilings_def ceilings_from_iff)

end
