(* ===== verification/Sse.thy ===== *)
theory Sse
  imports Pipette_Prelude
begin

text \<open>
  Reading a streamed generation, \<open>pipette-ops/src/sse.rs\<close>: the payload lines of an SSE body, the
  text of a stream, and an OpenAI-compatible chat stream with its reasoning and its end. A JSON
  value is opaque: \<open>serde_json\<close> is a record of operations. The pump thread is a list of lines with
  the silence before each of them.
\<close>

section \<open>Definitions\<close>

definition FLUSH_EVERY :: nat where "FLUSH_EVERY = 10"

record 'v json_ops =
  json_parse :: "string \<Rightarrow> 'v option"
  json_get :: "'v \<Rightarrow> string \<Rightarrow> 'v option"
  json_index :: "'v \<Rightarrow> nat \<Rightarrow> 'v option"
  json_pointer :: "'v \<Rightarrow> string \<Rightarrow> 'v option"
  json_is_null :: "'v \<Rightarrow> bool"
  json_as_str :: "'v \<Rightarrow> string option"
  json_as_u64 :: "'v \<Rightarrow> nat option"
  json_text :: "'v \<Rightarrow> string"

datatype sse_error =
  EndedEarly
| ReadFailed string
| NotJson string
| FailedMidGeneration string

record delta =
  delta_text :: string
  delta_terminal :: bool

record 'v text_stream =
  content :: string
  terminal :: "'v option"

subsection \<open>Payload lines\<close>

fun lines_within :: "duration \<Rightarrow> (duration \<times> (string + string)) list \<Rightarrow> (string + string) list" where
  "lines_within idle [] = []"
| "lines_within idle ((gap, Inl e) # rest) =
     (if gap \<le> idle then [Inl e] else [Inl ''no SSE stream event''])"
| "lines_within idle ((gap, Inr line) # rest) =
     (if gap \<le> idle then Inr line # lines_within idle rest else [Inl ''no SSE stream event''])"

fun payloads :: "(string + string) list \<Rightarrow> (sse_error + string) list" where
  "payloads [] = [Inl EndedEarly]"
| "payloads (Inl err # lines) = [Inl (ReadFailed err)]"
| "payloads (Inr line # lines) =
     (case map_option trim (strip_prefix ''data:'' line) of
        None \<Rightarrow> payloads lines
      | Some data \<Rightarrow>
          if data = [] then payloads lines
          else if data = ''[DONE]'' then []
          else Inr data # payloads lines)"

definition data_lines :: "duration \<Rightarrow> (duration \<times> (string + string)) list \<Rightarrow> (sse_error + string) list" where
  "data_lines idle arrivals = payloads (lines_within idle arrivals)"

subsection \<open>The text of a stream\<close>

definition flush_pending :: "(string \<Rightarrow> 'w \<Rightarrow> 'w) \<Rightarrow> string \<Rightarrow> 'w \<Rightarrow> 'w" where
  "flush_pending on_flush pending w = (if pending = [] then w else on_flush pending w)"

definition event_error :: "'v json_ops \<Rightarrow> 'v \<Rightarrow> 'v option" where
  "event_error ops event =
     (case json_get ops event ''error'' of
        None \<Rightarrow> None | Some error \<Rightarrow> if json_is_null ops error then None else Some error)"

text \<open>\<open>delta\<close> may keep a state of its own (\<open>'s\<close>), as the closure of a chat stream does.\<close>

fun read_events ::
  "'v json_ops \<Rightarrow> ('v \<Rightarrow> 's \<Rightarrow> delta \<times> 's) \<Rightarrow> (string \<Rightarrow> 'w \<Rightarrow> 'w) \<Rightarrow> (sse_error + string) list
     \<Rightarrow> string \<Rightarrow> string \<Rightarrow> nat \<Rightarrow> 's \<Rightarrow> 'w \<Rightarrow> (sse_error + 'v text_stream) \<times> 's \<times> 'w" where
  "read_events ops delta on_flush [] acc pending chunks s w =
     (Inr \<lparr>content = acc, terminal = None\<rparr>, s, flush_pending on_flush pending w)"
| "read_events ops delta on_flush (Inl e # events) acc pending chunks s w = (Inl e, s, w)"
| "read_events ops delta on_flush (Inr data # events) acc pending chunks s w =
     (case json_parse ops data of
        None \<Rightarrow> (Inl (NotJson data), s, w)
      | Some event \<Rightarrow>
          (case event_error ops event of
             Some error \<Rightarrow> (Inl (FailedMidGeneration (json_text ops error)), s, flush_pending on_flush pending w)
           | None \<Rightarrow>
               (let (d, s1) = delta event s;
                    acc1 = acc @ delta_text d; pending1 = pending @ delta_text d; chunks1 = Suc chunks;
                    due = chunks1 mod FLUSH_EVERY = 0 \<and> pending1 \<noteq> [];
                    w1 = (if due then on_flush pending1 w else w);
                    pending2 = (if due then [] else pending1)
                in if delta_terminal d
                   then (Inr \<lparr>content = acc1, terminal = Some event\<rparr>, s1, flush_pending on_flush pending2 w1)
                   else read_events ops delta on_flush events acc1 pending2 chunks1 s1 w1)))"

definition read_text_stream ::
  "'v json_ops \<Rightarrow> ('v \<Rightarrow> 's \<Rightarrow> delta \<times> 's) \<Rightarrow> (string \<Rightarrow> 'w \<Rightarrow> 'w) \<Rightarrow> (sse_error + string) list
     \<Rightarrow> 's \<Rightarrow> 'w \<Rightarrow> (sse_error + 'v text_stream) \<times> 's \<times> 'w" where
  "read_text_stream ops delta on_flush events s w = read_events ops delta on_flush events [] [] 0 s w"

subsection \<open>Chat streams\<close>

definition chat_delta :: "'v json_ops \<Rightarrow> 'v \<Rightarrow> delta" where
  "chat_delta ops event =
     \<lparr>delta_text =
        (case Option.bind (Option.bind (Option.bind (Option.bind (json_get ops event ''choices'')
            (\<lambda>c. json_index ops c 0)) (\<lambda>c. json_get ops c ''delta'')) (\<lambda>d. json_get ops d ''content''))
            (json_as_str ops) of
           Some s \<Rightarrow> s | None \<Rightarrow> []),
      delta_terminal = False\<rparr>"

definition chat_reasoning :: "'v json_ops \<Rightarrow> 'v \<Rightarrow> string" where
  "chat_reasoning ops event =
     (case Option.bind (json_pointer ops event ''/choices/0/delta/reasoning'') (json_as_str ops) of
        Some s \<Rightarrow> s | None \<Rightarrow> [])"

record chat_reply =
  reply_content :: string
  reasoning :: string
  content_before_reasoning :: nat
  finish_reason :: "string option"
  completion_tokens :: "nat option"

definition empty_reply :: chat_reply where
  "empty_reply = \<lparr>reply_content = [], reasoning = [], content_before_reasoning = 0, finish_reason = None,
                  completion_tokens = None\<rparr>"

definition split_at_checked :: "nat \<Rightarrow> string \<Rightarrow> (string \<times> string) option" where
  "split_at_checked mid s =
     (if mid \<le> length s \<and> (mid = length s \<or> starts_char (s ! mid)) then Some (take mid s, drop mid s) else None)"

definition completion_with_reasoning :: "chat_reply \<Rightarrow> string" where
  "completion_with_reasoning r =
     (if reasoning r = [] then reply_content r
      else (let (before, answer) = (case split_at_checked (content_before_reasoning r) (reply_content r) of
                                      Some p \<Rightarrow> p | None \<Rightarrow> ([], reply_content r));
                close = (if answer = [] then [] else ''</think>'')
            in before @ reasoning r @ close @ answer))"

datatype stop_reason = Eos | Truncated | DoomLoop | Failure | UnknownStop

definition stop :: "chat_reply \<Rightarrow> stop_reason \<times> string option" where
  "stop r =
     (case finish_reason r of
        None \<Rightarrow> (UnknownStop, Some ''the stream carried no finish_reason'')
      | Some reason \<Rightarrow>
          if reason = ''stop'' then (Eos, None)
          else if reason = ''length'' then (Truncated, None)
          else if reason = ''repetition'' then (DoomLoop, Some ''finish_reason=repetition'')
          else (UnknownStop, Some (''unrecognized finish_reason='' @ reason)))"

text \<open>The closure of \<open>read_chat_stream\<close>: its state is the ending read so far and the bytes of content
  seen.\<close>

definition chat_step :: "'v json_ops \<Rightarrow> 'v \<Rightarrow> chat_reply \<times> nat \<Rightarrow> delta \<times> chat_reply \<times> nat" where
  "chat_step ops event = (\<lambda>(ending, so_far).
     (let d = chat_delta ops event; why = chat_reasoning ops event;
          e1 = (if why = [] then ending
                else (let e0 = (if reasoning ending = [] then ending\<lparr>content_before_reasoning := so_far\<rparr> else ending)
                      in e0\<lparr>reasoning := reasoning e0 @ why\<rparr>));
          e2 = (case Option.bind (json_pointer ops event ''/choices/0/finish_reason'') (json_as_str ops) of
                  Some reason \<Rightarrow> e1\<lparr>finish_reason := Some reason\<rparr> | None \<Rightarrow> e1);
          e3 = (case Option.bind (json_pointer ops event ''/usage/completion_tokens'') (json_as_u64 ops) of
                  Some tokens \<Rightarrow> e2\<lparr>completion_tokens := Some tokens\<rparr> | None \<Rightarrow> e2)
      in (d, e3, so_far + length (delta_text d))))"

definition read_chat_stream ::
  "'v json_ops \<Rightarrow> (string \<Rightarrow> 'w \<Rightarrow> 'w) \<Rightarrow> (sse_error + string) list \<Rightarrow> 'w \<Rightarrow> (sse_error + chat_reply) \<times> 'w" where
  "read_chat_stream ops on_flush events w =
     (let (r, (ending, _), w1) = read_text_stream ops (chat_step ops) on_flush events (empty_reply, 0) w
      in (case r of Inl e \<Rightarrow> Inl e | Inr stream \<Rightarrow> Inr (ending\<lparr>reply_content := content stream\<rparr>), w1))"

section \<open>Every byte is flushed once\<close>

lemma read_events_flushed:
  assumes "read_events ops dl (\<lambda>t l. l @ [t]) events acc pending chunks s l = (Inr st, s', l')"
    and "acc = concat l @ pending"
  shows "content st = concat l'"
  using assms
proof (induction ops dl "\<lambda>t l. l @ [t :: string]" events acc pending chunks s l rule: read_events.induct)
  case (1 ops dl acc pending chunks s w)
  then show ?case by (auto simp: flush_pending_def split: if_splits)
next
  case (2 ops dl e events acc pending chunks s w)
  then show ?case by simp
next
  case (3 ops dl data events acc pending chunks s w)
  from "3.prems"(1) obtain ev where ev: "json_parse ops data = Some ev" "event_error ops ev = None"
    by (auto split: option.splits)
  obtain d s1 where d: "dl ev s = (d, s1)" by fastforce
  define due where "due \<longleftrightarrow> Suc chunks mod FLUSH_EVERY = 0 \<and> pending @ delta_text d \<noteq> []"
  define w1 where "w1 = (if due then w @ [pending @ delta_text d] else w)"
  define p2 where "p2 = (if due then [] else pending @ delta_text d)"
  have inv: "acc @ delta_text d = concat w1 @ p2" using "3.prems"(2) by (auto simp: w1_def p2_def)
  show ?case
  proof (cases "delta_terminal d")
    case True
    then have "st = \<lparr>content = acc @ delta_text d, terminal = Some ev\<rparr>" "l' = flush_pending (\<lambda>t l. l @ [t]) p2 w1"
      using "3.prems"(1) by (auto simp: ev d Let_def w1_def p2_def due_def)
    then show ?thesis using inv by (auto simp: flush_pending_def)
  next
    case False
    then have "read_events ops dl (\<lambda>t l. l @ [t]) events (acc @ delta_text d) p2 (Suc chunks) s1 w1 = (Inr st, s', l')"
      using "3.prems"(1) by (simp add: ev d Let_def w1_def p2_def due_def split: if_splits)
    then show ?thesis
      using "3.hyps" [OF ev d [symmetric] refl refl refl refl refl refl] False inv
      by (simp add: w1_def p2_def due_def)
  qed
qed

section \<open>A cut stream is an error\<close>

definition done_line :: "string + string \<Rightarrow> bool" where
  "done_line l = (case l of Inl _ \<Rightarrow> False
                  | Inr line \<Rightarrow> map_option trim (strip_prefix ''data:'' line) = Some ''[DONE]'')"

lemma payloads_cut: "\<not> list_ex done_line lines \<Longrightarrow> \<exists>xs e. payloads lines = map Inr xs @ [Inl e]"
proof (induction lines)
  case (Cons l lines)
  then obtain xs e where ih: "payloads lines = map Inr xs @ [Inl e]" by auto
  then have more: "\<exists>ys e. Inr d # payloads lines = map Inr ys @ [Inl e]" for d
    by (intro exI [of _ "d # xs"] exI [of _ e]) simp
  show ?case
  proof (cases l)
    case (Inl err)
    then show ?thesis by auto
  next
    case (Inr line)
    have "map_option trim (strip_prefix ''data:'' line) \<noteq> Some ''[DONE]''"
      using Cons.prems by (simp add: done_line_def Inr)
    then show ?thesis using ih more by (cases "map_option trim (strip_prefix ''data:'' line)") (auto simp: Inr)
  qed
qed auto

lemma read_events_cut:
  assumes "\<And>v s. \<not> delta_terminal (fst (dl v s))"
  shows "\<exists>e'. fst (read_events ops dl on_flush (map Inr xs @ [Inl e]) acc pending chunks s w) = Inl e'"
proof (induction xs arbitrary: acc pending chunks s w)
  case (Cons x xs)
  have "\<not> delta_terminal d" if "dl v s = (d, s')" for v d s' using assms [of v s] that by simp
  with Cons show ?case by (auto simp: Let_def split: option.splits prod.splits)
qed simp

lemma chat_step_not_terminal: "\<not> delta_terminal (fst (chat_step ops v s))"
  by (simp add: chat_step_def chat_delta_def Let_def split: prod.splits)

section \<open>A whole chat stream\<close>

lemma read_events_whole:
  assumes dl: "\<And>v s. fst (dl v s) = d v" and nt: "\<And>v. \<not> delta_terminal (d v)"
    and ok: "list_all2 (\<lambda>x v. json_parse ops x = Some v \<and> event_error ops v = None) xs vs"
  shows "\<exists>w'. read_events ops dl on_flush (map Inr xs) acc pending chunks s w
    = (Inr \<lparr>content = acc @ concat (map (\<lambda>v. delta_text (d v)) vs), terminal = None\<rparr>,
       fold (\<lambda>v s. snd (dl v s)) vs s, w')"
  using ok
proof (induction arbitrary: acc pending chunks s w rule: list_all2_induct)
  case Nil
  then show ?case by simp
next
  case (Cons x xs v vs)
  obtain s1 where s1: "dl v s = (d v, s1)" using dl [of v s] by (metis prod.collapse)
  define due where "due \<longleftrightarrow> Suc chunks mod FLUSH_EVERY = 0 \<and> pending @ delta_text (d v) \<noteq> []"
  have step: "read_events ops dl on_flush (map Inr (x # xs)) acc pending chunks s w =
      read_events ops dl on_flush (map Inr xs) (acc @ delta_text (d v))
        (if due then [] else pending @ delta_text (d v)) (Suc chunks) s1
        (if due then on_flush (pending @ delta_text (d v)) w else w)"
    using Cons.hyps(1) nt by (simp add: s1 Let_def due_def)
  have rest: "fold (\<lambda>v s. snd (dl v s)) (v # vs) s = fold (\<lambda>v s. snd (dl v s)) vs s1"
    "acc @ concat (map (\<lambda>v. delta_text (d v)) (v # vs))
       = (acc @ delta_text (d v)) @ concat (map (\<lambda>v. delta_text (d v)) vs)"
    by (simp_all add: s1)
  show ?case unfolding step rest by (rule Cons.IH)
qed

lemma split_at_append:
  "b = [] \<or> starts_char (hd b) \<Longrightarrow> split_at_checked (length a) (a @ b) = Some (a, b)"
  by (cases b) (auto simp: split_at_checked_def)

definition text_of :: "'v json_ops \<Rightarrow> 'v \<Rightarrow> string" where
  "text_of ops v = delta_text (chat_delta ops v)"

definition before_reasoning :: "'v json_ops \<Rightarrow> 'v list \<Rightarrow> string" where
  "before_reasoning ops vs = concat (map (text_of ops) (takeWhile (\<lambda>v. chat_reasoning ops v = []) vs))"

lemma chat_fold:
  "\<exists>e n'. fold (\<lambda>v s. snd (chat_step ops v s)) vs (ending, n) = (e, n')
     \<and> reasoning e = reasoning ending @ concat (map (chat_reasoning ops) vs)
     \<and> content_before_reasoning e =
         (if reasoning ending = [] \<and> concat (map (chat_reasoning ops) vs) \<noteq> []
          then n + length (before_reasoning ops vs) else content_before_reasoning ending)"
proof (induction vs arbitrary: ending n)
  case Nil
  then show ?case by simp
next
  case (Cons v vs)
  obtain e1 where e1: "snd (chat_step ops v (ending, n)) = (e1, n + length (text_of ops v))"
    "reasoning e1 = reasoning ending @ chat_reasoning ops v"
    "content_before_reasoning e1 =
       (if reasoning ending = [] \<and> chat_reasoning ops v \<noteq> [] then n else content_before_reasoning ending)"
    by (auto simp: chat_step_def Let_def text_of_def split: option.splits)
  from Cons.IH [of e1 "n + length (text_of ops v)"] e1 show ?case
    by (auto simp: before_reasoning_def)
qed

section \<open>Properties\<close>

text \<open>What a reader hands on is what it returns: for any engine's delta and any events, the
  pieces flushed during a stream that ends well, put together, are exactly the returned text.\<close>

theorem stream_flushes_all:
  "case read_text_stream ops dl (\<lambda>t l. l @ [t]) events s [] of
     (Inr stream, _, flushed) \<Rightarrow> content stream = concat flushed | (Inl _, _, _) \<Rightarrow> True"
  by (auto simp: read_text_stream_def dest: read_events_flushed split: prod.splits sum.splits)

text \<open>C29. A chat stream cut before \<open>[DONE]\<close> (the body ended, the connection failed, or it fell silent
  for longer than the idle bound) never reads as a short answer: it is an error.\<close>

theorem cut_chat_stream_is_error:
  assumes "\<not> list_ex done_line (lines_within idle arrivals)"
  shows "\<exists>e. fst (read_chat_stream ops on_flush (data_lines idle arrivals) w) = Inl e"
proof -
  obtain xs e where xs: "data_lines idle arrivals = map Inr xs @ [Inl e]"
    using payloads_cut [OF assms] by (auto simp: data_lines_def)
  have "\<exists>e'. fst (read_text_stream ops (chat_step ops) on_flush (map Inr xs @ [Inl e]) (empty_reply, 0) w) = Inl e'"
    unfolding read_text_stream_def by (rule read_events_cut) (rule chat_step_not_terminal)
  then show ?thesis by (auto simp: read_chat_stream_def xs split: prod.splits)
qed

theorem cut_chat_stream_is_error_witness:
  "let ops = \<lparr>json_parse = Some, json_get = (\<lambda>_ _. None), json_index = (\<lambda>_ _. None), json_pointer = (\<lambda>_ _. None),
              json_is_null = (\<lambda>_. False), json_as_str = (\<lambda>_. None), json_as_u64 = (\<lambda>_. None), json_text = id\<rparr>;
       arrivals = [(from_secs 1, Inr ''event: message''), (from_secs 1, Inr '': ping''), (from_secs 90, Inr ''data: [DONE]'')]
   in \<exists>e. fst (read_chat_stream ops (\<lambda>t l. l @ [t]) (data_lines (from_secs 60) arrivals) []) = Inl e"
  unfolding Let_def
  by (rule cut_chat_stream_is_error) (simp add: done_line_def from_secs_def)

text \<open>C28. A chat stream whose payloads all parse and carry no error: the answer to grade is the
  content from before the first reasoning, all the reasoning, a closing tag when an answer follows,
  and the rest of the content; without reasoning it is the content. (Each text starts at a character,
  as a \<open>str\<close> does.)\<close>

theorem chat_completion_exact:
  assumes "list_all2 (\<lambda>x v. json_parse ops x = Some v \<and> event_error ops v = None) xs vs"
    and chars: "list_all (\<lambda>v. text_of ops v = [] \<or> starts_char (hd (text_of ops v))) vs"
  shows "\<exists>reply w'. read_chat_stream ops on_flush (map Inr xs) w = (Inr reply, w')
    \<and> reply_content reply = concat (map (text_of ops) vs)
    \<and> completion_with_reasoning reply =
        (let why = concat (map (chat_reasoning ops) vs); before = before_reasoning ops vs;
             answer = concat (map (text_of ops) (dropWhile (\<lambda>v. chat_reasoning ops v = []) vs))
         in if why = [] then before @ answer
            else before @ why @ (if answer = [] then [] else ''</think>'') @ answer)"
proof -
  let ?answer = "concat (map (text_of ops) (dropWhile (\<lambda>v. chat_reasoning ops v = []) vs))"
  have whole: "concat (map (text_of ops) vs) = before_reasoning ops vs @ ?answer"
    unfolding before_reasoning_def by (metis concat_append map_append takeWhile_dropWhile_id)
  have start: "?answer = [] \<or> starts_char (hd ?answer)"
  proof -
    have "concat (map f us) = [] \<or> starts_char (hd (concat (map f us)))"
      if "list_all (\<lambda>v. f v = [] \<or> starts_char (hd (f v))) us" for f and us :: "'a list"
      using that by (induction us) (auto simp: hd_append)
    then show ?thesis using chars by (auto simp: list_all_iff dest: set_dropWhileD)
  qed
  obtain e n' where e: "fold (\<lambda>v s. snd (chat_step ops v s)) vs (empty_reply, 0) = (e, n')"
    "reasoning e = concat (map (chat_reasoning ops) vs)"
    "content_before_reasoning e = (if concat (map (chat_reasoning ops) vs) \<noteq> [] then length (before_reasoning ops vs) else 0)"
    using chat_fold [of ops vs empty_reply 0] by (auto simp: empty_reply_def)
  have "fst (chat_step ops v s) = chat_delta ops v" for v s
    by (simp add: chat_step_def Let_def split: prod.splits)
  from read_events_whole [where dl = "chat_step ops" and d = "chat_delta ops" and on_flush = on_flush and acc = "[]" and pending = "[]"
      and chunks = 0 and s = "(empty_reply, 0)" and w = w, OF this _ assms(1)]
  obtain w' where "read_events ops (chat_step ops) on_flush (map Inr xs) [] [] 0 (empty_reply, 0) w
      = (Inr \<lparr>content = concat (map (\<lambda>v. delta_text (chat_delta ops v)) vs), terminal = None\<rparr>, (e, n'), w')"
    unfolding e(1) by (auto simp: chat_delta_def)
  then have w': "read_events ops (chat_step ops) on_flush (map Inr xs) [] [] 0 (empty_reply, 0) w
      = (Inr \<lparr>content = concat (map (text_of ops) vs), terminal = None\<rparr>, (e, n'), w')"
    unfolding text_of_def [symmetric] by simp
  let ?reply = "e\<lparr>reply_content := concat (map (text_of ops) vs)\<rparr>"
  have run: "read_chat_stream ops on_flush (map Inr xs) w = (Inr ?reply, w')"
    by (simp add: read_chat_stream_def read_text_stream_def w')
  have "split_at_checked (length (before_reasoning ops vs)) (before_reasoning ops vs @ ?answer)
      = Some (before_reasoning ops vs, ?answer)"
    using start by (rule split_at_append)
  then have "completion_with_reasoning ?reply =
      (let why = concat (map (chat_reasoning ops) vs); before = before_reasoning ops vs; answer = ?answer
       in if why = [] then before @ answer
          else before @ why @ (if answer = [] then [] else ''</think>'') @ answer)"
    by (simp add: completion_with_reasoning_def e(2,3) whole Let_def del: concat_eq_Nil_conv)
  with run show ?thesis by (intro exI [of _ ?reply] exI [of _ w']) simp
qed

text \<open>The witness: an event is its reasoning and its text.\<close>

theorem chat_completion_exact_witness:
  "let ops = \<lparr>json_parse = map_of [(''1'', ('''', ''Hi '')), (''2'', (''why'', '''')), (''3'', ('''', ''yes''))],
              json_get = (\<lambda>v k. if k = ''error'' then None else Some v), json_index = (\<lambda>v _. Some v),
              json_pointer = (\<lambda>v p. if p = ''/choices/0/delta/reasoning'' then Some ('''', fst v) else None),
              json_is_null = (\<lambda>_. False), json_as_str = (\<lambda>v. Some (snd v)), json_as_u64 = (\<lambda>_. None),
              json_text = fst\<rparr>
   in \<exists>reply w'. read_chat_stream ops (\<lambda>t l. l @ [t]) (map Inr [''1'', ''2'', ''3'']) [] = (Inr reply, w')
        \<and> completion_with_reasoning reply = ''Hi why</think>yes''"
proof -
  define ops where "ops = \<lparr>json_parse = map_of [(''1'', ('''', ''Hi '')), (''2'', (''why'', '''')), (''3'', ('''', ''yes''))],
      json_get = (\<lambda>v k. if k = ''error'' then None else Some v), json_index = (\<lambda>v _. Some v),
      json_pointer = (\<lambda>v p. if p = ''/choices/0/delta/reasoning'' then Some ('''', fst v) else None),
      json_is_null = (\<lambda>_. False), json_as_str = (\<lambda>v. Some (snd v)), json_as_u64 = (\<lambda>_. None),
      json_text = fst\<rparr>"
  let ?vs = "[('''', ''Hi ''), (''why'', ''''), ('''', ''yes'')]"
  have tx: "text_of ops v = snd v" and why: "chat_reasoning ops v = fst v" and err: "event_error ops v = None" for v
    by (simp_all add: ops_def text_of_def chat_delta_def chat_reasoning_def event_error_def)
  have parse: "list_all2 (\<lambda>x v. json_parse ops x = Some v \<and> event_error ops v = None) [''1'', ''2'', ''3''] ?vs"
    by (simp add: err) (simp add: ops_def)
  have chars: "list_all (\<lambda>v. text_of ops v = [] \<or> starts_char (hd (text_of ops v))) ?vs"
    by (simp add: tx starts_char_def)
  obtain reply w' where "read_chat_stream ops (\<lambda>t l. l @ [t]) (map Inr [''1'', ''2'', ''3'']) [] = (Inr reply, w')"
    "completion_with_reasoning reply = ''Hi why</think>yes''"
    using chat_completion_exact [OF parse chars, of "\<lambda>t l. l @ [t]" "[]"]
    by (auto simp: tx [abs_def] why before_reasoning_def Let_def)
  then show ?thesis unfolding Let_def ops_def [symmetric] by blast
qed

end
