(* ===== verification/Utf8.thy ===== *)
theory Utf8
  imports Pipette_Prelude
begin

text \<open>
  Validity of UTF-8 as \<open>core::str\<close> checks it (\<open>String::from_utf8\<close>), and the character boundaries
  of a string (\<open>str::is_char_boundary\<close>, \<open>floor_char_boundary\<close>, \<open>ceil_char_boundary\<close>). A string
  is the list of its bytes.
\<close>

definition byte_in :: "nat \<Rightarrow> nat \<Rightarrow> char \<Rightarrow> bool" where
  "byte_in lo hi c \<longleftrightarrow> lo \<le> of_char c \<and> of_char c \<le> hi"

text \<open>The second byte that a first byte of a three or four byte sequence allows.\<close>

definition second_byte :: "nat \<Rightarrow> char \<Rightarrow> bool" where
  "second_byte a c =
     (if a = 0xE0 then byte_in 0xA0 0xBF c
      else if a = 0xED then byte_in 0x80 0x9F c
      else if a = 0xF0 then byte_in 0x90 0xBF c
      else if a = 0xF4 then byte_in 0x80 0x8F c
      else byte_in 0x80 0xBF c)"

fun utf8_valid :: "string \<Rightarrow> bool" where
  "utf8_valid [] = True"
| "utf8_valid (c # cs) =
     (let a = of_char c in
      if a < (0x80 :: nat) then utf8_valid cs
      else if 0xC2 \<le> a \<and> a \<le> 0xDF then
        (case cs of x # rest \<Rightarrow> byte_in 0x80 0xBF x \<and> utf8_valid rest | [] \<Rightarrow> False)
      else if 0xE0 \<le> a \<and> a \<le> 0xEF then
        (case cs of x # y # rest \<Rightarrow> second_byte a x \<and> byte_in 0x80 0xBF y \<and> utf8_valid rest
         | _ \<Rightarrow> False)
      else if 0xF0 \<le> a \<and> a \<le> 0xF4 then
        (case cs of
           x # y # z # rest \<Rightarrow>
             second_byte a x \<and> byte_in 0x80 0xBF y \<and> byte_in 0x80 0xBF z \<and> utf8_valid rest
         | _ \<Rightarrow> False)
      else False)"

declare utf8_valid.simps(2) [simp del]

definition ascii :: "string \<Rightarrow> bool" where
  "ascii s \<longleftrightarrow> list_all (\<lambda>c. of_char c < (0x80 :: nat)) s"

lemma ascii_utf8_valid: "ascii s \<Longrightarrow> utf8_valid s"
  by (induction s) (simp_all add: ascii_def utf8_valid.simps)

text \<open>A byte starts a character when it is not a continuation byte, \<open>0x80..=0xBF\<close>.\<close>

definition continuation :: "char \<Rightarrow> bool" where
  "continuation c \<longleftrightarrow> byte_in 0x80 0xBF c"

definition is_char_boundary :: "string \<Rightarrow> nat \<Rightarrow> bool" where
  "is_char_boundary s i \<longleftrightarrow>
     i = 0 \<or> i = length s \<or> (i < length s \<and> \<not> continuation (s ! i))"

fun floor_char_boundary :: "string \<Rightarrow> nat \<Rightarrow> nat" where
  "floor_char_boundary s 0 = 0"
| "floor_char_boundary s (Suc i) =
     (if length s \<le> Suc i then length s
      else if is_char_boundary s (Suc i) then Suc i
      else floor_char_boundary s i)"

function ceil_char_boundary :: "string \<Rightarrow> nat \<Rightarrow> nat" where
  "ceil_char_boundary s i =
     (if length s \<le> i then length s
      else if is_char_boundary s i then i
      else ceil_char_boundary s (Suc i))"
  by pat_completeness auto
termination by (relation "measure (\<lambda>(s, i). length s - i)") auto

declare ceil_char_boundary.simps [simp del]

lemma floor_char_boundary_le: "floor_char_boundary s i \<le> i"
  by (induction s i rule: floor_char_boundary.induct) auto

lemma floor_char_boundary_len: "floor_char_boundary s i \<le> length s"
  by (induction s i rule: floor_char_boundary.induct) auto

lemma floor_char_boundary_boundary: "is_char_boundary s (floor_char_boundary s i)"
  by (induction s i rule: floor_char_boundary.induct) (auto simp: is_char_boundary_def)

lemma ceil_char_boundary_ge: "i \<le> length s \<Longrightarrow> i \<le> ceil_char_boundary s i"
proof (induction s i rule: ceil_char_boundary.induct)
  case (1 s i)
  then show ?case
    by (subst ceil_char_boundary.simps) (auto simp: is_char_boundary_def)
qed

lemma ceil_char_boundary_len: "ceil_char_boundary s i \<le> length s"
proof (induction s i rule: ceil_char_boundary.induct)
  case (1 s i)
  then show ?case by (subst ceil_char_boundary.simps) auto
qed

lemma ceil_char_boundary_boundary: "is_char_boundary s (ceil_char_boundary s i)"
proof (induction s i rule: ceil_char_boundary.induct)
  case (1 s i)
  then show ?case
    by (subst ceil_char_boundary.simps) (auto simp: is_char_boundary_def)
qed

section \<open>Valid strings as sequences of characters\<close>

fun utf8_char :: "string \<Rightarrow> bool" where
  "utf8_char [a] \<longleftrightarrow> of_char a < (0x80 :: nat)"
| "utf8_char [a, x] \<longleftrightarrow> byte_in 0xC2 0xDF a \<and> byte_in 0x80 0xBF x"
| "utf8_char [a, x, y] \<longleftrightarrow> byte_in 0xE0 0xEF a \<and> second_byte (of_char a) x \<and> byte_in 0x80 0xBF y"
| "utf8_char [a, x, y, z] \<longleftrightarrow>
     byte_in 0xF0 0xF4 a \<and> second_byte (of_char a) x \<and> byte_in 0x80 0xBF y \<and> byte_in 0x80 0xBF z"
| "utf8_char _ \<longleftrightarrow> False"

lemma utf8_char_append: "utf8_char c \<Longrightarrow> utf8_valid (c @ s) \<longleftrightarrow> utf8_valid s"
  by (cases c rule: utf8_char.cases) (auto simp: utf8_valid.simps byte_in_def)

lemma utf8_valid_concat: "list_all utf8_char cs \<Longrightarrow> utf8_valid (concat cs)"
  by (induction cs) (simp_all add: utf8_char_append)

lemma utf8_valid_first:
  assumes "utf8_valid s" "s \<noteq> []"
  obtains c t where "s = c @ t" "utf8_char c" "utf8_valid t"
proof -
  obtain a cs where s: "s = a # cs" using assms(2) by (cases s) auto
  let ?a = "of_char a :: nat"
  consider "?a < 0x80" | "0xC2 \<le> ?a" "?a \<le> 0xDF" | "0xE0 \<le> ?a" "?a \<le> 0xEF" | "0xF0 \<le> ?a" "?a \<le> 0xF4"
    using assms(1) s by (auto simp: utf8_valid.simps Let_def split: if_splits)
  then show thesis
  proof cases
    case 1
    then show thesis using assms(1) s that [of "[a]" cs] by (simp add: utf8_valid.simps)
  next
    case 2
    then obtain x t where "cs = x # t" "byte_in 0x80 0xBF x" "utf8_valid t"
      using assms(1) s by (auto simp: utf8_valid.simps Let_def split: list.splits)
    then show thesis using 2 s that [of "[a, x]" t] by (simp add: byte_in_def)
  next
    case 3
    then obtain x y t where "cs = x # y # t" "second_byte ?a x" "byte_in 0x80 0xBF y" "utf8_valid t"
      using assms(1) s by (auto simp: utf8_valid.simps Let_def split: list.splits)
    then show thesis using 3 s that [of "[a, x, y]" t] by (simp add: byte_in_def)
  next
    case 4
    then obtain x y z t where "cs = x # y # z # t" "second_byte ?a x" "byte_in 0x80 0xBF y"
      "byte_in 0x80 0xBF z" "utf8_valid t"
      using assms(1) s by (auto simp: utf8_valid.simps Let_def split: list.splits)
    then show thesis using 4 s that [of "[a, x, y, z]" t] by (simp add: byte_in_def)
  qed
qed

lemma utf8_char_nonempty: "utf8_char c \<Longrightarrow> c \<noteq> []"
  by auto

lemma utf8_chars_of:
  assumes "utf8_valid s"
  obtains cs where "s = concat cs" "list_all utf8_char cs"
proof -
  have "\<exists>cs. s = concat cs \<and> list_all utf8_char cs"
    using assms
  proof (induction "length s" arbitrary: s rule: less_induct)
    case less
    show ?case
    proof (cases "s = []")
      case True
      then show ?thesis by (intro exI [of _ "[]"]) simp
    next
      case False
      then obtain c t where c: "s = c @ t" "utf8_char c" "utf8_valid t"
        using utf8_valid_first less.prems by blast
      then have "length t < length s" using utf8_char_nonempty by auto
      from less.hyps [OF this c(3)] obtain cs where "t = concat cs" "list_all utf8_char cs" by blast
      then show ?thesis using c by (intro exI [of _ "c # cs"]) simp
    qed
  qed
  then show thesis using that by blast
qed

lemma second_byte_continuation: "second_byte a x \<Longrightarrow> continuation x"
  by (auto simp: second_byte_def continuation_def byte_in_def split: if_splits)

lemma utf8_char_inner: "utf8_char c \<Longrightarrow> 0 < i \<Longrightarrow> i < length c \<Longrightarrow> continuation (c ! i)"
  by (cases c rule: utf8_char.cases)
    (auto simp: less_Suc_eq nth_Cons' continuation_def [symmetric] second_byte_continuation)

lemma utf8_char_length: "utf8_char c \<Longrightarrow> 1 \<le> length c \<and> length c \<le> 4"
  by (cases c rule: utf8_char.cases) auto

lemma utf8_char_start: "utf8_char c \<Longrightarrow> \<not> continuation (c ! 0)"
  by (cases c rule: utf8_char.cases) (auto simp: continuation_def byte_in_def)

lemma boundary_drop_char:
  assumes "utf8_char c" "length c \<le> i" "list_all utf8_char cs"
  shows "is_char_boundary (c @ concat cs) i \<longleftrightarrow> is_char_boundary (concat cs) (i - length c)"
proof -
  have "\<not> continuation (concat cs ! 0)" if "concat cs \<noteq> []"
  proof -
    have "cs \<noteq> []" using that by auto
    then obtain d ds where "cs = d # ds" by (cases cs) auto
    then show ?thesis
      using assms(3) utf8_char_start [of d] utf8_char_nonempty [of d] by (auto simp: nth_append)
  qed
  then show ?thesis
    using assms(2) utf8_char_length [OF assms(1)]
    by (cases "i = length c") (auto simp: is_char_boundary_def nth_append)
qed

lemma utf8_split_chars:
  assumes "list_all utf8_char cs" "is_char_boundary (concat cs) i" "i \<le> length (concat cs)"
  shows "utf8_valid (take i (concat cs)) \<and> utf8_valid (drop i (concat cs))"
  using assms
proof (induction cs arbitrary: i)
  case Nil
  then show ?case by simp
next
  case (Cons c cs)
  show ?case
  proof (cases "length c \<le> i")
    case True
    then have "utf8_valid (take (i - length c) (concat cs)) \<and> utf8_valid (drop (i - length c) (concat cs))"
      using Cons boundary_drop_char [of c i cs] by (intro Cons.IH) auto
    then show ?thesis using True Cons.prems(1) by (simp add: utf8_char_append)
  next
    case False
    then have "i = 0"
      using Cons.prems utf8_char_inner [of c i] by (auto simp: is_char_boundary_def nth_append)
    then show ?thesis using utf8_valid_concat [OF Cons.prems(1)] by simp
  qed
qed

lemma utf8_split:
  "utf8_valid s \<Longrightarrow> is_char_boundary s i \<Longrightarrow> i \<le> length s \<Longrightarrow> utf8_valid (take i s) \<and> utf8_valid (drop i s)"
  by (metis utf8_chars_of utf8_split_chars)


lemma utf8_append: "utf8_valid s \<Longrightarrow> utf8_valid t \<Longrightarrow> utf8_valid (s @ t)"
  by (metis concat_append list_all_append utf8_chars_of utf8_valid_concat)

subsection \<open>How far a boundary is\<close>

lemma boundary_near_chars:
  assumes "list_all utf8_char cs" "i \<le> length (concat cs)"
  shows "(\<exists>j. j \<le> i \<and> i \<le> j + 3 \<and> is_char_boundary (concat cs) j) \<and>
         (\<exists>j. i \<le> j \<and> j \<le> i + 3 \<and> j \<le> length (concat cs) \<and> is_char_boundary (concat cs) j)"
  using assms
proof (induction cs arbitrary: i)
  case Nil
  then show ?case by (simp add: is_char_boundary_def)
next
  case (Cons c cs)
  have c: "utf8_char c" "1 \<le> length c" "length c \<le> 4" and cs: "list_all utf8_char cs"
    using Cons.prems(1) utf8_char_length [of c] by auto
  show ?case
  proof (cases "length c \<le> i")
    case True
    have len: "i - length c \<le> length (concat cs)" using Cons.prems(2) by simp
    obtain j k where
      j: "j \<le> i - length c" "i - length c \<le> j + 3" "is_char_boundary (concat cs) j" and
      k: "i - length c \<le> k" "k \<le> i - length c + 3" "k \<le> length (concat cs)"
        "is_char_boundary (concat cs) k"
      using Cons.IH [OF cs len] by blast
    have "is_char_boundary (c @ concat cs) (j + length c)" "is_char_boundary (c @ concat cs) (k + length c)"
      using boundary_drop_char [OF c(1) _ cs] j(3) k(4) by auto
    then show ?thesis using j k True by (intro conjI exI [of _ "j + length c"] exI [of _ "k + length c"]) auto
  next
    case False
    show ?thesis
    proof (cases "i = 0")
      case True
      then show ?thesis by (intro conjI exI [of _ 0]) (auto simp: is_char_boundary_def)
    next
      case i: False
      have "is_char_boundary (concat cs) 0" by (simp add: is_char_boundary_def)
      then have "is_char_boundary (c @ concat cs) (length c)"
        using boundary_drop_char [OF c(1) _ cs, of "length c"] by simp
      moreover have "is_char_boundary (c @ concat cs) 0" by (simp add: is_char_boundary_def)
      ultimately show ?thesis
        using False i c by (intro conjI exI [of _ 0] exI [of _ "length c"]) auto
    qed
  qed
qed

lemma floor_char_boundary_greatest: "j \<le> i \<Longrightarrow> j \<le> length s \<Longrightarrow> is_char_boundary s j \<Longrightarrow> j \<le> floor_char_boundary s i"
proof (induction s i rule: floor_char_boundary.induct)
  case (2 s i)
  then show ?case by (cases "j = Suc i") auto
qed simp

lemma ceil_char_boundary_least: "i \<le> j \<Longrightarrow> j \<le> length s \<Longrightarrow> is_char_boundary s j \<Longrightarrow> ceil_char_boundary s i \<le> j"
proof (induction s i rule: ceil_char_boundary.induct)
  case (1 s i)
  then show ?case by (subst ceil_char_boundary.simps) (cases "i = j"; auto)
qed

lemma floor_char_boundary_near: "utf8_valid s \<Longrightarrow> i \<le> length s \<Longrightarrow> i \<le> floor_char_boundary s i + 3"
proof -
  assume "utf8_valid s" "i \<le> length s"
  then obtain j where "j \<le> i" "i \<le> j + 3" "is_char_boundary s j"
    by (metis utf8_chars_of boundary_near_chars)
  then show ?thesis using floor_char_boundary_greatest [of j i s] \<open>i \<le> length s\<close> by linarith
qed

lemma ceil_char_boundary_near: "utf8_valid s \<Longrightarrow> i \<le> length s \<Longrightarrow> ceil_char_boundary s i \<le> i + 3"
proof -
  assume "utf8_valid s" "i \<le> length s"
  then obtain j where "i \<le> j" "j \<le> i + 3" "j \<le> length s" "is_char_boundary s j"
    by (metis utf8_chars_of boundary_near_chars)
  then show ?thesis using ceil_char_boundary_least [of i j s] by linarith
qed

end
