(* ===== verification/Gguf.thy ===== *)
theory Gguf
  imports Utf8 "HOL-Library.Word"
begin

text \<open>
  The GGUF reader, \<open>pipette-llamacpp/src/gguf_meta.rs\<close>: a projector's metadata and the pieces of a
  vocabulary, read from the bytes of a file. The reader is the file's bytes and the position in
  them; a seek may pass the end of the file, up to the largest position the file system allows.
  Counts and lengths come from the file, so they are any value of their width.
\<close>

section \<open>The file reader\<close>

record reader =
  file_bytes :: "8 word list"
  rd_pos :: nat
  seek_limit :: nat

datatype value_type =
  Uint8 | Int8 | Uint16 | Int16 | Uint32 | Int32 | Float32 | Bool | String | Array
| Uint64 | Int64 | Float64

datatype gguf_error =
  UnexpectedEof
| SeekFailed
| NotGguf
| UnknownVersion nat
| TooManyEntries nat
| KeyTooLong
| UnknownType nat
| NestedArray
| LongerThanAnyFile
| NotUtf8
| TokensNotStrings value_type

type_synonym 'a read_result = "gguf_error + 'a \<times> reader"

definition advance :: "reader \<Rightarrow> nat \<Rightarrow> reader" where
  "advance r n = r\<lparr>rd_pos := rd_pos r + n\<rparr>"

definition read_exact :: "nat \<Rightarrow> reader \<Rightarrow> 8 word list read_result" where
  "read_exact n r =
     (if rd_pos r + n \<le> length (file_bytes r)
      then Inr (take n (drop (rd_pos r) (file_bytes r)), advance r n)
      else Inl UnexpectedEof)"

fun from_le_bytes :: "8 word list \<Rightarrow> nat" where
  "from_le_bytes [] = 0"
| "from_le_bytes (b # bs) = unat b + 256 * from_le_bytes bs"

definition read_u32 :: "reader \<Rightarrow> nat read_result" where
  "read_u32 r = bind_result (read_exact 4 r) (\<lambda>(bs, r). Inr (from_le_bytes bs, r))"

definition read_u64 :: "reader \<Rightarrow> nat read_result" where
  "read_u64 r = bind_result (read_exact 8 r) (\<lambda>(bs, r). Inr (from_le_bytes bs, r))"

definition i64_max :: nat where "i64_max = 2 ^ 63 - 1"

definition skip :: "nat \<Rightarrow> reader \<Rightarrow> unit read_result" where
  "skip n r =
     (if n > i64_max then Inl LongerThanAnyFile
      else if rd_pos r + n > seek_limit r then Inl SeekFailed
      else Inr ((), advance r n))"

definition string_of_bytes :: "8 word list \<Rightarrow> string" where
  "string_of_bytes bs = map (\<lambda>b. char_of (unat b)) bs"

definition read_string :: "nat \<Rightarrow> reader \<Rightarrow> string option read_result" where
  "read_string max_len r =
     bind_result (read_u64 r) (\<lambda>(len, r).
       if len > max_len then bind_result (skip len r) (\<lambda>(_, r). Inr (None, r))
       else bind_result (read_exact len r) (\<lambda>(bs, r).
         if utf8_valid (string_of_bytes bs) then Inr (Some (string_of_bytes bs), r)
         else Inl NotUtf8))"

section \<open>Values\<close>

definition value_type_of :: "nat \<Rightarrow> gguf_error + value_type" where
  "value_type_of tag =
     (if tag = 0 then Inr Uint8 else if tag = 1 then Inr Int8
      else if tag = 2 then Inr Uint16 else if tag = 3 then Inr Int16
      else if tag = 4 then Inr Uint32 else if tag = 5 then Inr Int32
      else if tag = 6 then Inr Float32 else if tag = 7 then Inr Bool
      else if tag = 8 then Inr String else if tag = 9 then Inr Array
      else if tag = 10 then Inr Uint64 else if tag = 11 then Inr Int64
      else if tag = 12 then Inr Float64 else Inl (UnknownType tag))"

fun width :: "value_type \<Rightarrow> nat option" where
  "width Uint8 = Some 1"
| "width Int8 = Some 1"
| "width Bool = Some 1"
| "width Uint16 = Some 2"
| "width Int16 = Some 2"
| "width Uint32 = Some 4"
| "width Int32 = Some 4"
| "width Float32 = Some 4"
| "width Uint64 = Some 8"
| "width Int64 = Some 8"
| "width Float64 = Some 8"
| "width String = None"
| "width Array = None"

definition read_value_type :: "reader \<Rightarrow> value_type read_result" where
  "read_value_type r =
     bind_result (read_u32 r) (\<lambda>(tag, r). bind_result (value_type_of tag) (\<lambda>t. Inr (t, r)))"

definition skip_string :: "reader \<Rightarrow> unit read_result" where
  "skip_string r = bind_result (read_u64 r) (\<lambda>(len, r). skip len r)"

primrec skip_strings :: "nat \<Rightarrow> reader \<Rightarrow> unit read_result" where
  "skip_strings 0 r = Inr ((), r)"
| "skip_strings (Suc n) r = bind_result (skip_string r) (\<lambda>(_, r). skip_strings n r)"

definition skip_value :: "value_type \<Rightarrow> reader \<Rightarrow> unit read_result" where
  "skip_value t r =
     (case width t of
        Some w \<Rightarrow> skip w r
      | None \<Rightarrow>
          if t = String then skip_string r
          else
            bind_result (read_value_type r) (\<lambda>(element_type, r).
            bind_result (read_u64 r) (\<lambda>(len, r).
              if element_type = Array then Inl NestedArray
              else (case width element_type of
                      Some w \<Rightarrow> skip (sat_mul64 len w) r
                    | None \<Rightarrow> skip_strings len r))))"

section \<open>A projector's metadata\<close>

definition MAX_KV_COUNT :: nat where "MAX_KV_COUNT = 2 ^ 20"
definition MAX_KEPT_STRING :: nat where "MAX_KEPT_STRING = 2 ^ 16"
definition MAX_TENSOR_COUNT :: nat where "MAX_TENSOR_COUNT = 2 ^ 16"

definition HAS_AUDIO_ENCODER :: string where "HAS_AUDIO_ENCODER = ''clip.has_audio_encoder''"
definition HAS_VISION_ENCODER :: string where "HAS_VISION_ENCODER = ''clip.has_vision_encoder''"
definition AUDIO_PROJECTOR_TYPE :: string where
  "AUDIO_PROJECTOR_TYPE = ''clip.audio.projector_type''"
definition PROJECTOR_TYPE :: string where "PROJECTOR_TYPE = ''clip.projector_type''"
definition ARCHITECTURE :: string where "ARCHITECTURE = ''general.architecture''"
definition OPENBMB_MINICPMO_AUDIO_ENCODER :: string where
  "OPENBMB_MINICPMO_AUDIO_ENCODER = ''minicpmoa''"
definition WHISPER_ARCHITECTURE :: string where "WHISPER_ARCHITECTURE = ''whisper''"
definition AUDIO_POOL_STEP :: string where "AUDIO_POOL_STEP = ''audio_pool_step''"
definition OPENBMB_PROJECTOR_TENSOR :: string where
  "OPENBMB_PROJECTOR_TENSOR = ''audio_projector.linear2.weight''"
definition TOKENS :: string where "TOKENS = ''tokenizer.ggml.tokens''"

record projector_metadata =
  has_audio_encoder :: bool
  has_vision_encoder :: bool
  audio_projector_type :: "string option"
  projector_type :: "string option"
  openbmb_minicpmo_audio :: bool

definition no_metadata :: projector_metadata where
  "no_metadata = \<lparr>has_audio_encoder = False, has_vision_encoder = False,
     audio_projector_type = None, projector_type = None, openbmb_minicpmo_audio = False\<rparr>"

definition holds_audio_encoder :: "projector_metadata \<Rightarrow> bool" where
  "holds_audio_encoder m \<longleftrightarrow> has_audio_encoder m \<or> openbmb_minicpmo_audio m"

definition audio_encoder_name :: "projector_metadata \<Rightarrow> string option" where
  "audio_encoder_name m =
     (case audio_projector_type m of
        Some name \<Rightarrow> Some name
      | None \<Rightarrow>
          (case projector_type m of
             Some name \<Rightarrow> Some name
           | None \<Rightarrow>
               if openbmb_minicpmo_audio m then Some OPENBMB_MINICPMO_AUDIO_ENCODER else None))"

definition read_counts :: "reader \<Rightarrow> (nat \<times> nat) read_result" where
  "read_counts r =
     bind_result (read_exact 4 r) (\<lambda>(magic, r).
     if string_of_bytes magic \<noteq> ''GGUF'' then Inl NotGguf
     else bind_result (read_u32 r) (\<lambda>(version, r).
     if \<not> (2 \<le> version \<and> version \<le> 3) then Inl (UnknownVersion version)
     else bind_result (read_u64 r) (\<lambda>(tensor_count, r).
     bind_result (read_u64 r) (\<lambda>(kv_count, r).
     if kv_count > MAX_KV_COUNT then Inl (TooManyEntries kv_count)
     else Inr ((tensor_count, kv_count), r)))))"

definition read_header :: "reader \<Rightarrow> nat read_result" where
  "read_header r = bind_result (read_counts r) (\<lambda>((_, kv_count), r). Inr (kv_count, r))"

text \<open>The key and the type of one metadata entry.\<close>

definition read_key :: "reader \<Rightarrow> (string \<times> value_type) read_result" where
  "read_key r =
     bind_result (read_string MAX_KEPT_STRING r) (\<lambda>(key, r).
     bind_result (ok_or KeyTooLong key) (\<lambda>key.
     bind_result (read_value_type r) (\<lambda>(t, r). Inr ((key, t), r))))"

text \<open>What the loop over the entries carries: the metadata, the architecture, the pool step.\<close>

type_synonym scan = "projector_metadata \<times> string option \<times> bool"

text \<open>The arms of the match on the key and the type.\<close>

definition read_value :: "string \<Rightarrow> value_type \<Rightarrow> scan \<Rightarrow> reader \<Rightarrow> scan read_result" where
  "read_value key t acc r =
     (case acc of (found, architecture, audio_pool_step) \<Rightarrow>
     if key = HAS_AUDIO_ENCODER \<and> t = Bool then
       bind_result (read_exact 1 r) (\<lambda>(bs, r).
         Inr ((found\<lparr>has_audio_encoder := hd bs \<noteq> 0\<rparr>, architecture, audio_pool_step), r))
     else if key = HAS_VISION_ENCODER \<and> t = Bool then
       bind_result (read_exact 1 r) (\<lambda>(bs, r).
         Inr ((found\<lparr>has_vision_encoder := hd bs \<noteq> 0\<rparr>, architecture, audio_pool_step), r))
     else if key = AUDIO_PROJECTOR_TYPE \<and> t = String then
       bind_result (read_string MAX_KEPT_STRING r) (\<lambda>(s, r).
         Inr ((found\<lparr>audio_projector_type := s\<rparr>, architecture, audio_pool_step), r))
     else if key = PROJECTOR_TYPE \<and> t = String then
       bind_result (read_string MAX_KEPT_STRING r) (\<lambda>(s, r).
         Inr ((found\<lparr>projector_type := s\<rparr>, architecture, audio_pool_step), r))
     else if key = ARCHITECTURE \<and> t = String then
       bind_result (read_string MAX_KEPT_STRING r) (\<lambda>(s, r).
         Inr ((found, s, audio_pool_step), r))
     else if key = AUDIO_POOL_STEP then
       bind_result (skip_value t r) (\<lambda>(_, r). Inr ((found, architecture, True), r))
     else
       bind_result (skip_value t r) (\<lambda>(_, r). Inr (acc, r)))"

definition read_entry :: "scan \<Rightarrow> reader \<Rightarrow> scan read_result" where
  "read_entry acc r = bind_result (read_key r) (\<lambda>((key, t), r). read_value key t acc r)"

primrec read_entries :: "nat \<Rightarrow> scan \<Rightarrow> reader \<Rightarrow> scan read_result" where
  "read_entries 0 acc r = Inr (acc, r)"
| "read_entries (Suc n) acc r =
     bind_result (read_entry acc r) (\<lambda>(acc, r). read_entries n acc r)"

primrec has_tensor :: "nat \<Rightarrow> string \<Rightarrow> reader \<Rightarrow> bool read_result" where
  "has_tensor 0 wanted r = Inr (False, r)"
| "has_tensor (Suc n) wanted r =
     bind_result (read_string MAX_KEPT_STRING r) (\<lambda>(name, r).
     if name = Some wanted then Inr (True, r)
     else bind_result (read_u32 r) (\<lambda>(dims, r).
     bind_result (skip (sat_add64 (sat_mul64 dims 8) (4 + 8)) r) (\<lambda>(_, r).
     has_tensor n wanted r)))"

definition read_projector_metadata :: "reader \<Rightarrow> gguf_error + projector_metadata" where
  "read_projector_metadata r =
     bind_result (read_counts r) (\<lambda>((tensor_count, kv_count), r).
     bind_result (read_entries kv_count (no_metadata, None, False) r)
       (\<lambda>((found, architecture, audio_pool_step), r).
     if architecture = Some WHISPER_ARCHITECTURE \<and> audio_pool_step
        \<and> tensor_count \<le> MAX_TENSOR_COUNT
     then bind_result (has_tensor tensor_count OPENBMB_PROJECTOR_TENSOR r)
            (\<lambda>(b, _). Inr (found\<lparr>openbmb_minicpmo_audio := b\<rparr>))
     else Inr found))"

section \<open>The pieces of a vocabulary\<close>

text \<open>\<open>read_pieces n index\<close> reads the vocabulary from \<open>index\<close> on, \<open>n\<close> pieces of it.\<close>

primrec read_pieces ::
  "nat \<Rightarrow> nat \<Rightarrow> nat list \<Rightarrow> string option list \<Rightarrow> reader \<Rightarrow> string option list read_result"
where
  "read_pieces 0 index ids pieces r = Inr (pieces, r)"
| "read_pieces (Suc n) index ids pieces r =
     (if list_ex (\<lambda>id. id = index) ids
      then bind_result (read_string MAX_KEPT_STRING r) (\<lambda>(piece, r).
        read_pieces n (Suc index) ids
          (map (\<lambda>(slot, id). if id = index then piece else slot) (zip pieces ids)) r)
      else bind_result (skip_value String r) (\<lambda>(_, r).
        read_pieces n (Suc index) ids pieces r))"

definition last_id :: "nat list \<Rightarrow> nat" where
  "last_id ids = (if ids = [] then 0 else Max (set ids))"

definition read_tokens :: "nat list \<Rightarrow> reader \<Rightarrow> gguf_error + string option list" where
  "read_tokens ids r =
     bind_result (read_value_type r) (\<lambda>(element_type, r).
     if element_type \<noteq> String then Inl (TokensNotStrings element_type)
     else bind_result (read_u64 r) (\<lambda>(len, r).
     bind_result
       (read_pieces (min len (sat_add64 (last_id ids) 1)) 0 ids (replicate (length ids) None) r)
       (\<lambda>(pieces, _). Inr pieces)))"

primrec find_tokens :: "nat \<Rightarrow> nat list \<Rightarrow> reader \<Rightarrow> gguf_error + string option list option" where
  "find_tokens 0 ids r = Inr None"
| "find_tokens (Suc n) ids r =
     bind_result (read_key r) (\<lambda>((key, t), r).
     if key \<noteq> TOKENS \<or> t \<noteq> Array
     then bind_result (skip_value t r) (\<lambda>(_, r). find_tokens n ids r)
     else bind_result (read_tokens ids r) (\<lambda>pieces. Inr (Some pieces)))"

definition read_token_pieces :: "nat list \<Rightarrow> reader \<Rightarrow> gguf_error + string option list option" where
  "read_token_pieces ids r = bind_result (read_header r) (\<lambda>(kv_count, r). find_tokens kv_count ids r)"

section \<open>The file format\<close>

text \<open>
  The format as the GGUF specification lays it out, written from the abstract file. Lengths and
  counts are little-endian; a fixed-size value is its bytes.
\<close>

datatype gguf_value =
  Fixed value_type "8 word list"
| Str string
| Fixed_Array value_type nat "8 word list"
| Str_Array "string list"

record tensor_info =
  tensor_name :: string
  tensor_dims :: "nat list"
  tensor_type :: nat
  tensor_offset :: nat

record gguf =
  version :: nat
  entries :: "(string \<times> gguf_value) list"
  tensors :: "tensor_info list"
  tensor_data :: "8 word list"

primrec to_le_bytes :: "nat \<Rightarrow> nat \<Rightarrow> 8 word list" where
  "to_le_bytes 0 n = []"
| "to_le_bytes (Suc k) n = of_nat (n mod 256) # to_le_bytes k (n div 256)"

definition bytes_of_string :: "string \<Rightarrow> 8 word list" where
  "bytes_of_string s = map (\<lambda>c. of_nat (of_char c)) s"

fun tag_of :: "value_type \<Rightarrow> nat" where
  "tag_of Uint8 = 0"
| "tag_of Int8 = 1"
| "tag_of Uint16 = 2"
| "tag_of Int16 = 3"
| "tag_of Uint32 = 4"
| "tag_of Int32 = 5"
| "tag_of Float32 = 6"
| "tag_of Bool = 7"
| "tag_of String = 8"
| "tag_of Array = 9"
| "tag_of Uint64 = 10"
| "tag_of Int64 = 11"
| "tag_of Float64 = 12"

fun type_of_value :: "gguf_value \<Rightarrow> value_type" where
  "type_of_value (Fixed t _) = t"
| "type_of_value (Str _) = String"
| "type_of_value (Fixed_Array _ _ _) = Array"
| "type_of_value (Str_Array _) = Array"

definition encode_string :: "string \<Rightarrow> 8 word list" where
  "encode_string s = to_le_bytes 8 (length s) @ bytes_of_string s"

definition encode_strings :: "string list \<Rightarrow> 8 word list" where
  "encode_strings ss = concat (map encode_string ss)"

fun encode_value :: "gguf_value \<Rightarrow> 8 word list" where
  "encode_value (Fixed _ bs) = bs"
| "encode_value (Str s) = encode_string s"
| "encode_value (Fixed_Array t n bs) = to_le_bytes 4 (tag_of t) @ to_le_bytes 8 n @ bs"
| "encode_value (Str_Array ss) =
     to_le_bytes 4 (tag_of String) @ to_le_bytes 8 (length ss) @ encode_strings ss"

definition encode_entry :: "string \<times> gguf_value \<Rightarrow> 8 word list" where
  "encode_entry e =
     encode_string (fst e) @ to_le_bytes 4 (tag_of (type_of_value (snd e))) @ encode_value (snd e)"

definition encode_tensor :: "tensor_info \<Rightarrow> 8 word list" where
  "encode_tensor t =
     encode_string (tensor_name t) @ to_le_bytes 4 (length (tensor_dims t)) @
     concat (map (to_le_bytes 8) (tensor_dims t)) @ to_le_bytes 4 (tensor_type t) @
     to_le_bytes 8 (tensor_offset t)"

definition encode_gguf :: "gguf \<Rightarrow> 8 word list" where
  "encode_gguf g =
     bytes_of_string ''GGUF'' @ to_le_bytes 4 (version g) @ to_le_bytes 8 (length (tensors g)) @
     to_le_bytes 8 (length (entries g)) @ concat (map encode_entry (entries g)) @
     concat (map encode_tensor (tensors g)) @ tensor_data g"

text \<open>The short strings the reader keeps are UTF-8; a value is as long as its type says.\<close>

definition readable :: "string \<Rightarrow> bool" where
  "readable s \<longleftrightarrow> (length s \<le> MAX_KEPT_STRING \<longrightarrow> utf8_valid s)"

fun wf_value :: "gguf_value \<Rightarrow> bool" where
  "wf_value (Fixed t bs) \<longleftrightarrow> width t = Some (length bs)"
| "wf_value (Str s) \<longleftrightarrow> readable s"
| "wf_value (Fixed_Array t n bs) \<longleftrightarrow> (case width t of Some w \<Rightarrow> length bs = n * w | None \<Rightarrow> False)"
| "wf_value (Str_Array ss) \<longleftrightarrow> list_all readable ss"

definition wf_entry :: "string \<times> gguf_value \<Rightarrow> bool" where
  "wf_entry e \<longleftrightarrow> length (fst e) \<le> MAX_KEPT_STRING \<and> utf8_valid (fst e) \<and> wf_value (snd e)"

definition wf_tensor :: "tensor_info \<Rightarrow> bool" where
  "wf_tensor t \<longleftrightarrow> readable (tensor_name t) \<and> length (tensor_dims t) < 2 ^ 32"

definition wf_gguf :: "gguf \<Rightarrow> bool" where
  "wf_gguf g \<longleftrightarrow> version g \<in> {2, 3} \<and> length (entries g) \<le> MAX_KV_COUNT \<and>
     list_all wf_entry (entries g) \<and> list_all wf_tensor (tensors g) \<and>
     length (encode_gguf g) \<le> i64_max"

definition open_gguf :: "gguf \<Rightarrow> nat \<Rightarrow> reader" where
  "open_gguf g limit = \<lparr>file_bytes = encode_gguf g, rd_pos = 0, seek_limit = limit\<rparr>"

subsection \<open>What a file says\<close>

fun as_bool :: "gguf_value \<Rightarrow> bool option" where
  "as_bool (Fixed Bool bs) = Some (hd bs \<noteq> 0)"
| "as_bool _ = None"

definition keep :: "string \<Rightarrow> string option" where
  "keep s = (if length s \<le> MAX_KEPT_STRING then Some s else None)"

fun as_kept :: "gguf_value \<Rightarrow> string option option" where
  "as_kept (Str s) = Some (keep s)"
| "as_kept _ = None"

text \<open>The last entry of a key that reads as wanted.\<close>

definition last_of ::
  "(gguf_value \<Rightarrow> 'a option) \<Rightarrow> string \<Rightarrow> 'a \<Rightarrow> (string \<times> gguf_value) list \<Rightarrow> 'a"
where
  "last_of f k d es = last (d # List.map_filter (\<lambda>(k', v). if k' = k then f v else None) es)"

definition is_openbmb :: "gguf \<Rightarrow> bool" where
  "is_openbmb g \<longleftrightarrow>
     last_of as_kept ARCHITECTURE None (entries g) = Some WHISPER_ARCHITECTURE \<and>
     AUDIO_POOL_STEP \<in> fst ` set (entries g) \<and>
     length (tensors g) \<le> MAX_TENSOR_COUNT \<and>
     OPENBMB_PROJECTOR_TENSOR \<in> tensor_name ` set (tensors g)"

definition describe :: "gguf \<Rightarrow> projector_metadata" where
  "describe g =
     \<lparr>has_audio_encoder = last_of as_bool HAS_AUDIO_ENCODER False (entries g),
      has_vision_encoder = last_of as_bool HAS_VISION_ENCODER False (entries g),
      audio_projector_type = last_of as_kept AUDIO_PROJECTOR_TYPE None (entries g),
      projector_type = last_of as_kept PROJECTOR_TYPE None (entries g),
      openbmb_minicpmo_audio = is_openbmb g\<rparr>"

section \<open>Reading what was written\<close>

text \<open>\<open>ahead r bs\<close>: \<open>bs\<close> is all that is left of the file, which the file system can seek in.\<close>

definition ahead :: "reader \<Rightarrow> 8 word list \<Rightarrow> bool" where
  "ahead r bs \<longleftrightarrow>
     rd_pos r + length bs = length (file_bytes r) \<and> drop (rd_pos r) (file_bytes r) = bs \<and>
     length (file_bytes r) \<le> i64_max \<and> length (file_bytes r) \<le> seek_limit r"

lemma ahead_advance: "ahead r (a @ b) \<Longrightarrow> ahead (advance r (length a)) b"
  by (auto simp: ahead_def advance_def) (metis add.commute append_eq_conv_conj drop_drop)

lemma ahead_length: "ahead r bs \<Longrightarrow> length bs \<le> i64_max"
  by (auto simp: ahead_def)

lemma read_exact_ahead:
  "ahead r (a @ b) \<Longrightarrow> length a = n \<Longrightarrow> read_exact n r = Inr (a, advance r (length a))"
  by (auto simp: ahead_def read_exact_def)

lemma skip_ahead:
  assumes "ahead r (a @ b)" "length a = n"
  shows "skip n r = Inr ((), advance r (length a))"
  using assms by (auto simp: ahead_def skip_def)

lemma length_to_le_bytes [simp]: "length (to_le_bytes k n) = k"
  by (induction k arbitrary: n) simp_all

lemma from_to_le_bytes: "n < 256 ^ k \<Longrightarrow> from_le_bytes (to_le_bytes k n) = n"
proof (induction k arbitrary: n)
  case 0
  then show ?case by simp
next
  case (Suc k)
  have "n div 256 < 256 ^ k" using Suc.prems by (simp add: less_mult_imp_div_less mult.commute)
  moreover have "unat (of_nat (n mod 256) :: 8 word) = n mod 256"
    by (simp add: unat_of_nat)
  ultimately show ?case using Suc.IH by simp
qed


lemma length_bytes_of_string [simp]: "length (bytes_of_string s) = length s"
  by (simp add: bytes_of_string_def)

lemma string_of_bytes_of_string [simp]: "string_of_bytes (bytes_of_string s) = s"
  by (simp add: string_of_bytes_def bytes_of_string_def unat_of_nat comp_def)

text \<open>\<open>reads res x b\<close>: a step gave \<open>x\<close> and left \<open>b\<close> to read.\<close>

definition reads :: "'a read_result \<Rightarrow> 'a \<Rightarrow> 8 word list \<Rightarrow> bool" where
  "reads res x b \<longleftrightarrow> (\<exists>r'. res = Inr (x, r') \<and> ahead r' b)"

named_theorems reading \<open>what the reader's steps give on a file that was written\<close>

lemma reads_bind:
  "reads res x b \<Longrightarrow> (\<And>r'. ahead r' b \<Longrightarrow> reads (k (x, r')) y c) \<Longrightarrow> reads (bind_result res k) y c"
  by (auto simp: reads_def)

lemma reads_final:
  "reads res x b \<Longrightarrow> (\<And>r'. ahead r' b \<Longrightarrow> k (x, r') = v) \<Longrightarrow> bind_result res k = v"
  by (auto simp: reads_def)

lemma reads_Inr [intro]: "ahead r b \<Longrightarrow> reads (Inr (x, r)) x b"
  by (auto simp: reads_def)

lemma reads_exact [reading]: "ahead r (a @ b) \<Longrightarrow> length a = n \<Longrightarrow> reads (read_exact n r) a b"
  by (auto simp: reads_def read_exact_ahead ahead_advance)

lemma reads_skip [reading]: "ahead r (a @ b) \<Longrightarrow> length a = n \<Longrightarrow> reads (skip n r) () b"
  by (auto simp: reads_def skip_ahead ahead_advance)

lemma reads_u32 [reading]: "ahead r (to_le_bytes 4 n @ b) \<Longrightarrow> n < 2 ^ 32 \<Longrightarrow> reads (read_u32 r) n b"
  unfolding read_u32_def
  by (rule reads_bind [OF reads_exact]) (auto simp: from_to_le_bytes)

lemma reads_u64 [reading]: "ahead r (to_le_bytes 8 n @ b) \<Longrightarrow> n < 2 ^ 64 \<Longrightarrow> reads (read_u64 r) n b"
  unfolding read_u64_def
  by (rule reads_bind [OF reads_exact]) (auto simp: from_to_le_bytes)

lemma reads_length [reading]:
  assumes "ahead r (encode_string s @ b)"
  shows "reads (read_u64 r) (length s) (bytes_of_string s @ b)"
proof (rule reads_u64)
  show "ahead r (to_le_bytes 8 (length s) @ bytes_of_string s @ b)"
    using assms by (simp add: encode_string_def)
  show "length s < 2 ^ 64"
    using ahead_length [OF assms] by (simp add: encode_string_def i64_max_def)
qed

lemma reads_string [reading]:
  assumes r: "ahead r (encode_string s @ b)" and s: "readable s"
  shows "reads (read_string MAX_KEPT_STRING r) (keep s) b"
  unfolding read_string_def
proof (rule reads_bind [OF reads_length [OF r]], simp, intro conjI impI)
  fix r' assume r': "ahead r' (bytes_of_string s @ b)"
  show "reads (bind_result (skip (length s) r') (\<lambda>(_, r). Inr (None, r))) (keep s) b"
    if "MAX_KEPT_STRING < length s"
    using that by (intro reads_bind [OF reads_skip [OF r']]) (auto simp: keep_def)
  show "reads (bind_result (read_exact (length s) r') (\<lambda>(bs, r).
          if utf8_valid (string_of_bytes bs) then Inr (Some (string_of_bytes bs), r) else Inl NotUtf8))
        (keep s) b" if "\<not> MAX_KEPT_STRING < length s"
    using that s by (intro reads_bind [OF reads_exact [OF r']]) (auto simp: keep_def readable_def)
qed

lemma reads_skip_string [reading]: "ahead r (encode_string s @ b) \<Longrightarrow> reads (skip_string r) () b"
  unfolding skip_string_def
  by (rule reads_bind [OF reads_length]) (auto intro: reads_skip)

lemma encode_strings_simps [simp]:
  "encode_strings [] = []"
  "encode_strings (s # ss) = encode_string s @ encode_strings ss"
  by (simp_all add: encode_strings_def)

lemma reads_skip_strings [reading]:
  "ahead r (encode_strings ss @ b) \<Longrightarrow> reads (skip_strings (length ss) r) () b"
proof (induction ss arbitrary: r)
  case Nil
  then show ?case by auto
next
  case (Cons s ss)
  then have "ahead r (encode_string s @ encode_strings ss @ b)" by simp
  then show ?case
    unfolding list.size skip_strings.simps add_Suc_right add_0_right
    by (rule reads_bind [OF reads_skip_string]) (simp add: Cons.IH)
qed

lemma encode_strings_length: "8 * length ss \<le> length (encode_strings ss)"
  by (induction ss) (auto simp: encode_string_def)

lemma value_type_of_tag [simp]: "value_type_of (tag_of t) = Inr t"
  by (cases t) (simp_all add: value_type_of_def)

lemma tag_of_less: "tag_of t < 4294967296"
  by (cases t) simp_all

lemma reads_type [reading]:
  "ahead r (to_le_bytes 4 (tag_of t) @ b) \<Longrightarrow> reads (read_value_type r) t b"
  unfolding read_value_type_def
  by (rule reads_bind [OF reads_u32]) (auto simp: tag_of_less)

lemma reads_skip_fixed_array:
  assumes "wf_value (Fixed_Array t n bs)" "ahead r (encode_value (Fixed_Array t n bs) @ b)"
  shows "reads (skip_value Array r) () b"
proof -
  from assms(1) obtain w where w: "width t = Some w" "length bs = n * w"
    by (auto split: option.splits)
  then have t: "t \<noteq> Array" "1 \<le> w" by (cases t; auto)+
  have len: "n * w \<le> i64_max" using ahead_length [OF assms(2)] w by simp
  have "n \<le> n * w" using t by simp
  then have "n \<le> i64_max" using len by (rule order_trans)
  then have n: "n < 2 ^ 64" by (simp add: i64_max_def)
  have "sat_mul64 n w = n * w" using len by (simp add: sat_simps i64_max_def u64_max_def)
  then have k: "reads (skip (sat_mul64 n w) r') () b" if "ahead r' (bs @ b)" for r'
    using reads_skip [OF that] w by simp
  have r: "ahead r (to_le_bytes 4 (tag_of t) @ to_le_bytes 8 n @ bs @ b)" using assms(2) by simp
  show ?thesis
    unfolding skip_value_def
    by (simp, rule reads_bind [OF reads_type [OF r]], simp, rule reads_bind [OF reads_u64])
      (use n in \<open>auto simp: t w k\<close>)
qed

lemma reads_skip_str_array:
  assumes "ahead r (encode_value (Str_Array ss) @ b)"
  shows "reads (skip_value Array r) () b"
proof -
  have r: "ahead r (to_le_bytes 4 (tag_of String) @ to_le_bytes 8 (length ss) @ encode_strings ss @ b)"
    using assms by simp
  have n: "length ss < 2 ^ 64"
    using ahead_length [OF r] encode_strings_length [of ss] by (simp add: i64_max_def)
  show ?thesis
    unfolding skip_value_def
    by (simp, rule reads_bind [OF reads_type [OF r]], simp, rule reads_bind [OF reads_u64])
      (use n in \<open>auto intro: reads_skip_strings\<close>)
qed

lemma reads_skip_value [reading]:
  assumes "wf_value v" "ahead r (encode_value v @ b)"
  shows "reads (skip_value (type_of_value v) r) () b"
proof (cases v)
  case (Fixed t bs)
  then show ?thesis using assms by (simp add: skip_value_def reads_skip)
next
  case (Str s)
  then show ?thesis using assms by (simp add: skip_value_def reads_skip_string)
next
  case (Fixed_Array t n bs)
  then show ?thesis using assms reads_skip_fixed_array by simp
next
  case (Str_Array ss)
  then show ?thesis using assms reads_skip_str_array [of r ss b] by simp
qed

lemma reads_key [reading]:
  assumes "wf_entry e" "ahead r (encode_entry e @ b)"
  shows "reads (read_key r) (fst e, type_of_value (snd e)) (encode_value (snd e) @ b)"
proof -
  have r: "ahead r (encode_string (fst e) @ to_le_bytes 4 (tag_of (type_of_value (snd e))) @
      encode_value (snd e) @ b)"
    using assms(2) by (simp add: encode_entry_def)
  have k: "keep (fst e) = Some (fst e)" "readable (fst e)"
    using assms(1) by (auto simp: wf_entry_def keep_def readable_def)
  show ?thesis
    unfolding read_key_def
    by (rule reads_bind [OF reads_string [OF r]], rule k, simp add: k,
        rule reads_bind [OF reads_type]) auto
qed


subsection \<open>The entries\<close>

text \<open>What one entry does to the scan, on the abstract file.\<close>

definition picked :: "(gguf_value \<Rightarrow> 'a option) \<Rightarrow> string \<Rightarrow> 'a \<Rightarrow> string \<times> gguf_value \<Rightarrow> 'a" where
  "picked f k d e = (if fst e = k then (case f (snd e) of Some x \<Rightarrow> x | None \<Rightarrow> d) else d)"

fun scan_entry :: "scan \<Rightarrow> string \<times> gguf_value \<Rightarrow> scan" where
  "scan_entry (found, architecture, step) e =
     (found\<lparr>has_audio_encoder := picked as_bool HAS_AUDIO_ENCODER (has_audio_encoder found) e,
        has_vision_encoder := picked as_bool HAS_VISION_ENCODER (has_vision_encoder found) e,
        audio_projector_type := picked as_kept AUDIO_PROJECTOR_TYPE (audio_projector_type found) e,
        projector_type := picked as_kept PROJECTOR_TYPE (projector_type found) e\<rparr>,
      picked as_kept ARCHITECTURE architecture e,
      step \<or> fst e = AUDIO_POOL_STEP)"

lemmas key_defs = HAS_AUDIO_ENCODER_def HAS_VISION_ENCODER_def AUDIO_PROJECTOR_TYPE_def
  PROJECTOR_TYPE_def ARCHITECTURE_def AUDIO_POOL_STEP_def

lemma distinct_keys [simp]:
  "distinct [HAS_AUDIO_ENCODER, HAS_VISION_ENCODER, AUDIO_PROJECTOR_TYPE, PROJECTOR_TYPE,
     ARCHITECTURE, AUDIO_POOL_STEP]"
  by (simp add: key_defs)

lemma as_bool_type: "type_of_value v \<noteq> Bool \<Longrightarrow> as_bool v = None"
  by (cases v rule: as_bool.cases) auto

lemma as_kept_type: "type_of_value v \<noteq> String \<or> (\<forall>s. v \<noteq> Str s) \<Longrightarrow> as_kept v = None"
  by (cases v) auto

lemma wf_Bool: "wf_value v \<Longrightarrow> type_of_value v = Bool \<Longrightarrow> \<exists>b. v = Fixed Bool [b]"
  by (cases v) (auto simp: length_Suc_conv dest!: sym [of "Suc 0"] split: option.splits)

lemma wf_String: "wf_value v \<Longrightarrow> type_of_value v = String \<Longrightarrow> \<exists>s. v = Str s \<and> readable s"
  by (cases v) (auto split: option.splits)

lemma reads_bool:
  "ahead r (x # b) \<Longrightarrow> reads (read_exact (Suc 0) r) [x] b"
  by (rule reads_exact) simp_all


lemma picked_None: "f (snd e) = None \<or> fst e \<noteq> k \<Longrightarrow> picked f k d e = d"
  by (auto simp: picked_def)

lemma scan_entry_other:
  assumes "as_bool (snd e) = None \<or> fst e \<notin> {HAS_AUDIO_ENCODER, HAS_VISION_ENCODER}"
    and "as_kept (snd e) = None \<or> fst e \<notin> {AUDIO_PROJECTOR_TYPE, PROJECTOR_TYPE, ARCHITECTURE}"
  shows "scan_entry (found, arch, step) e = (found, arch, step \<or> fst e = AUDIO_POOL_STEP)"
proof -
  have "picked as_bool k d e = d" if "k \<in> {HAS_AUDIO_ENCODER, HAS_VISION_ENCODER}" for k d
    using assms(1) that by (intro picked_None) blast
  moreover have "picked as_kept k d e = d"
    if "k \<in> {AUDIO_PROJECTOR_TYPE, PROJECTOR_TYPE, ARCHITECTURE}" for k d
    using assms(2) that by (intro picked_None) blast
  ultimately show ?thesis by simp
qed

lemma reads_skipped:
  assumes "wf_value v" "ahead r (encode_value v @ b)" "x = y"
  shows "reads (bind_result (skip_value (type_of_value v) r) (\<lambda>(_, r). Inr (x, r))) y b"
  by (rule reads_bind [OF reads_skip_value]) (use assms in auto)

lemma reads_bool_value:
  assumes "ahead r (encode_value (Fixed Bool [x]) @ b)" "wf_value (Fixed Bool [x])"
  shows "reads (read_value k Bool acc r) (scan_entry acc (k, Fixed Bool [x])) b"
proof -
  obtain found arch step where acc: "acc = (found, arch, step)" by (cases acc)
  have skip: "reads (bind_result (skip_value Bool r) (\<lambda>(_, r). Inr (a, r))) a b" for a :: scan
    using reads_skipped [OF assms(2,1)] by simp
  show ?thesis
    using distinct_keys assms
    by (auto simp: read_value_def acc picked_def skip
        intro!: reads_bind [OF reads_bool] simp del: distinct_keys)
qed

lemma reads_string_value:
  assumes "ahead r (encode_string s @ b)" "readable s"
  shows "reads (read_value k String acc r) (scan_entry acc (k, Str s)) b"
proof -
  obtain found arch step where acc: "acc = (found, arch, step)" by (cases acc)
  have kept: "reads (bind_result (read_string MAX_KEPT_STRING r) (\<lambda>(s, r). Inr (f s, r))) (f (keep s)) b"
    for f :: "string option \<Rightarrow> scan"
    by (rule reads_bind [OF reads_string [OF assms]]) auto
  have skip: "reads (bind_result (skip_value String r) (\<lambda>(_, r). Inr (a, r))) a b" for a :: scan
    using reads_skipped [of "Str s" r b a a] assms by simp
  consider "k = AUDIO_PROJECTOR_TYPE" | "k = PROJECTOR_TYPE" | "k = ARCHITECTURE"
    | "k \<notin> {AUDIO_PROJECTOR_TYPE, PROJECTOR_TYPE, ARCHITECTURE}" by blast
  then show ?thesis
  proof cases
    case 1
    then show ?thesis
      using kept [of "\<lambda>s. (found\<lparr>audio_projector_type := s\<rparr>, arch, step)"]
      by (simp add: read_value_def acc picked_def key_defs)
  next
    case 2
    then show ?thesis
      using kept [of "\<lambda>s. (found\<lparr>projector_type := s\<rparr>, arch, step)"]
      by (simp add: read_value_def acc picked_def key_defs)
  next
    case 3
    then show ?thesis
      using kept [of "\<lambda>s. (found, s, step)"]
      by (simp add: read_value_def acc picked_def key_defs)
  next
    case 4
    then have "scan_entry acc (k, Str s) = (found, arch, step \<or> k = AUDIO_POOL_STEP)"
      unfolding acc by (subst scan_entry_other) auto
    then show ?thesis using 4 skip by (simp add: read_value_def acc)
  qed
qed

lemma reads_other_value:
  assumes "wf_value v" "ahead r (encode_value v @ b)" "type_of_value v \<notin> {Bool, String}"
  shows "reads (read_value k (type_of_value v) acc r) (scan_entry acc (k, v)) b"
proof -
  obtain found arch step where acc: "acc = (found, arch, step)" by (cases acc)
  have "as_bool v = None" "as_kept v = None" using assms(3) as_bool_type as_kept_type by auto
  then have "scan_entry acc (k, v) = (found, arch, step \<or> k = AUDIO_POOL_STEP)"
    unfolding acc by (subst scan_entry_other) auto
  then show ?thesis
    using assms by (auto simp: read_value_def acc intro: reads_skipped)
qed

lemma reads_entry [reading]:
  assumes e: "wf_entry e" and r: "ahead r (encode_entry e @ b)"
  shows "reads (read_entry acc r) (scan_entry acc e) b"
  unfolding read_entry_def
proof (rule reads_bind [OF reads_key [OF e r]], simp)
  fix r' assume r': "ahead r' (encode_value (snd e) @ b)"
  have v: "wf_value (snd e)" using e by (simp add: wf_entry_def)
  show "reads (read_value (fst e) (type_of_value (snd e)) acc r') (scan_entry acc e) b"
  proof (cases "type_of_value (snd e)")
    case Bool
    then obtain x where x: "snd e = Fixed Bool [x]" using wf_Bool [OF v] by blast
    then have "e = (fst e, Fixed Bool [x])" by (metis prod.collapse)
    then show ?thesis using r' v x reads_bool_value [of r' x b "fst e" acc] by simp
  next
    case String
    then obtain s where s: "snd e = Str s" "readable s" using wf_String [OF v] by blast
    then have "e = (fst e, Str s)" by (metis prod.collapse)
    then show ?thesis using r' s reads_string_value [of r' s b "fst e" acc] by simp
  qed (use reads_other_value [OF v r', of "fst e" acc] in simp_all)
qed

lemma reads_entries [reading]:
  "list_all wf_entry es \<Longrightarrow> ahead r (concat (map encode_entry es) @ b)
    \<Longrightarrow> reads (read_entries (length es) acc r) (foldl scan_entry acc es) b"
proof (induction es arbitrary: acc r)
  case Nil
  then show ?case by auto
next
  case (Cons e es)
  then have r: "ahead r (encode_entry e @ concat (map encode_entry es) @ b)" and e: "wf_entry e"
    and es: "list_all wf_entry es"
    by simp_all
  show ?case
    unfolding list.size read_entries.simps foldl.simps add_Suc_right add_0_right
    by (rule reads_bind [OF reads_entry [OF e r]]) (simp add: Cons.IH es)
qed

lemma last_of_simps:
  "last_of f k d [] = d"
  "last_of f k d (e # es) = last_of f k (picked f k d e) es"
  by (auto simp: last_of_def picked_def List.map_filter_simps split: option.splits prod.splits)

lemma foldl_scan_entry:
  "foldl scan_entry (found, arch, step) es =
     (found\<lparr>has_audio_encoder := last_of as_bool HAS_AUDIO_ENCODER (has_audio_encoder found) es,
        has_vision_encoder := last_of as_bool HAS_VISION_ENCODER (has_vision_encoder found) es,
        audio_projector_type := last_of as_kept AUDIO_PROJECTOR_TYPE (audio_projector_type found) es,
        projector_type := last_of as_kept PROJECTOR_TYPE (projector_type found) es\<rparr>,
      last_of as_kept ARCHITECTURE arch es,
      step \<or> AUDIO_POOL_STEP \<in> fst ` set es)"
  by (induction es arbitrary: found arch step) (auto simp: last_of_simps)

subsection \<open>Tensors and the header\<close>

lemma length_dims: "length (concat (map (to_le_bytes 8) dims)) = 8 * length dims"
  by (induction dims) simp_all

lemma keep_wanted:
  "keep name = Some OPENBMB_PROJECTOR_TENSOR \<longleftrightarrow> name = OPENBMB_PROJECTOR_TENSOR"
  by (auto simp: keep_def OPENBMB_PROJECTOR_TENSOR_def MAX_KEPT_STRING_def)

lemma has_tensor_written:
  "list_all wf_tensor ts \<Longrightarrow> ahead r (concat (map encode_tensor ts) @ b)
    \<Longrightarrow> \<exists>r'. has_tensor (length ts) OPENBMB_PROJECTOR_TENSOR r
          = Inr (OPENBMB_PROJECTOR_TENSOR \<in> tensor_name ` set ts, r')"
proof (induction ts arbitrary: r)
  case Nil
  then show ?case by simp
next
  case (Cons t ts)
  let ?more = "concat (map encode_tensor ts) @ b"
  let ?shape = "concat (map (to_le_bytes 8) (tensor_dims t)) @ to_le_bytes 4 (tensor_type t) @
      to_le_bytes 8 (tensor_offset t)"
  have t: "readable (tensor_name t)" "length (tensor_dims t) < 2 ^ 32" "list_all wf_tensor ts"
    using Cons.prems(1) by (simp_all only: list.pred_inject wf_tensor_def [of t])
  have r: "ahead r (encode_string (tensor_name t) @ to_le_bytes 4 (length (tensor_dims t)) @
      ?shape @ ?more)"
    using Cons.prems(2) by (simp add: encode_tensor_def [of t])
  obtain r1 where r1: "read_string MAX_KEPT_STRING r = Inr (keep (tensor_name t), r1)"
    "ahead r1 (to_le_bytes 4 (length (tensor_dims t)) @ ?shape @ ?more)"
    using reads_string [OF r t(1)] by (auto simp: reads_def)
  obtain r2 where r2: "read_u32 r1 = Inr (length (tensor_dims t), r2)" "ahead r2 (?shape @ ?more)"
    using reads_u32 [OF r1(2) t(2)] by (auto simp: reads_def)
  have n: "length ?shape = sat_add64 (sat_mul64 (length (tensor_dims t)) 8) (4 + 8)"
    using t(2) by (simp only: length_append length_dims length_to_le_bytes sat_simps u64_max_def) simp
  obtain r3 where r3: "skip (sat_add64 (sat_mul64 (length (tensor_dims t)) 8) (4 + 8)) r2 = Inr ((), r3)"
    "ahead r3 ?more"
    using reads_skip [OF r2(2) n] by (auto simp: reads_def)
  show ?case using Cons.IH [OF t(3) r3(2)] r1(1) r2(1) r3(1) by (auto simp: keep_wanted)
qed

lemma reads_counts [reading]:
  assumes "wf_gguf g" "ahead r (encode_gguf g)"
  shows "reads (read_counts r) (length (tensors g), length (entries g))
     (concat (map encode_entry (entries g)) @ concat (map encode_tensor (tensors g)) @ tensor_data g)"
proof -
  let ?more = "concat (map encode_entry (entries g)) @ concat (map encode_tensor (tensors g)) @ tensor_data g"
  have r: "ahead r (bytes_of_string ''GGUF'' @ to_le_bytes 4 (version g) @
      to_le_bytes 8 (length (tensors g)) @ to_le_bytes 8 (length (entries g)) @ ?more)"
    using assms(2) by (simp add: encode_gguf_def)
  have "length ts \<le> length (concat (map encode_tensor ts))" for ts
    by (induction ts) (auto simp: encode_tensor_def)
  from this [of "tensors g"] have nt: "length (tensors g) < 2 ^ 64"
    using ahead_length [OF r] by (simp add: i64_max_def)
  have ne: "length (entries g) \<le> MAX_KV_COUNT" "version g = 2 \<or> version g = 3"
    using assms(1) by (auto simp: wf_gguf_def)
  then have ne': "length (entries g) < 2 ^ 64" "version g < 2 ^ 32" by (auto simp: MAX_KV_COUNT_def)
  obtain r1 where 1: "read_exact 4 r = Inr (bytes_of_string ''GGUF'', r1)" "ahead r1
      (to_le_bytes 4 (version g) @ to_le_bytes 8 (length (tensors g)) @
       to_le_bytes 8 (length (entries g)) @ ?more)"
    using reads_exact [OF r, of 4] by (auto simp: reads_def)
  obtain r2 where 2: "read_u32 r1 = Inr (version g, r2)" "ahead r2
      (to_le_bytes 8 (length (tensors g)) @ to_le_bytes 8 (length (entries g)) @ ?more)"
    using reads_u32 [OF 1(2) ne'(2)] by (auto simp: reads_def)
  obtain r3 where 3: "read_u64 r2 = Inr (length (tensors g), r3)" "ahead r3
      (to_le_bytes 8 (length (entries g)) @ ?more)"
    using reads_u64 [OF 2(2) nt] by (auto simp: reads_def)
  obtain r4 where 4: "read_u64 r3 = Inr (length (entries g), r4)" "ahead r4 ?more"
    using reads_u64 [OF 3(2) ne'(1)] by (auto simp: reads_def)
  show ?thesis
    using ne 4(2) by (auto simp: read_counts_def 1(1) 2(1) 3(1) 4(1))
qed

lemma ahead_open: "wf_gguf g \<Longrightarrow> length (encode_gguf g) \<le> limit \<Longrightarrow> ahead (open_gguf g limit) (encode_gguf g)"
  by (simp add: ahead_def open_gguf_def wf_gguf_def)

text \<open>C30. The reader recovers a projector's metadata from every well-formed file of the format, of
  version 2 or 3: the flags and names of the last entry of their key and type, whatever other
  entries, arrays, tensors and data the file has; a file is OpenBMB's audio encoder when its
  architecture is whisper, it has the pool step key, and one of its tensors is the projector's.
\<close>

theorem projector_metadata_written:
  assumes "wf_gguf g" "length (encode_gguf g) \<le> limit"
  shows "read_projector_metadata (open_gguf g limit) = Inr (describe g)"
proof -
  obtain r1 where 1: "read_counts (open_gguf g limit) = Inr ((length (tensors g), length (entries g)), r1)"
    "ahead r1 (concat (map encode_entry (entries g)) @ concat (map encode_tensor (tensors g)) @ tensor_data g)"
    using reads_counts [OF assms(1) ahead_open [OF assms]] by (auto simp: reads_def)
  have wf: "list_all wf_entry (entries g)" "list_all wf_tensor (tensors g)"
    using assms(1) by (simp_all add: wf_gguf_def)
  obtain r2 where 2: "read_entries (length (entries g)) (no_metadata, None, False) r1
      = Inr (foldl scan_entry (no_metadata, None, False) (entries g), r2)"
    "ahead r2 (concat (map encode_tensor (tensors g)) @ tensor_data g)"
    using reads_entries [OF wf(1) 1(2), of "(no_metadata, None, False)"] by (auto simp: reads_def)
  from has_tensor_written [OF wf(2) 2(2)] show ?thesis
    unfolding read_projector_metadata_def 1(1) bind_result_simps prod.case 2(1) foldl_scan_entry
    by (auto simp: describe_def is_openbmb_def no_metadata_def)
qed


section \<open>The vocabulary of a file\<close>

text \<open>What the file says of the pieces: of the first array under the vocabulary's key.\<close>

definition piece_of :: "string list \<Rightarrow> nat \<Rightarrow> string option" where
  "piece_of ss i = (if i < length ss then keep (ss ! i) else None)"

definition vocabulary :: "nat list \<Rightarrow> gguf \<Rightarrow> gguf_error + string option list option" where
  "vocabulary ids g =
     (case find (\<lambda>(k, v). k = TOKENS \<and> type_of_value v = Array) (entries g) of
        Some (_, Str_Array ss) \<Rightarrow> Inr (Some (map (piece_of ss) ids))
      | Some (_, Fixed_Array t _ _) \<Rightarrow> Inl (TokensNotStrings t)
      | _ \<Rightarrow> Inr None)"

definition fill :: "nat \<Rightarrow> nat \<Rightarrow> string list \<Rightarrow> nat list \<Rightarrow> string option list \<Rightarrow> string option list" where
  "fill n index ss ids pieces =
     map (\<lambda>(slot, id). if index \<le> id \<and> id < index + n then keep (ss ! (id - index)) else slot)
       (zip pieces ids)"

lemma fill_0: "length pieces = length ids \<Longrightarrow> fill 0 index ss ids pieces = pieces"
  by (auto simp: fill_def intro!: nth_equalityI)

lemma fill_Suc:
  assumes "length pieces = length ids"
  shows "fill (Suc n) index (s # ss) ids pieces
    = fill n (Suc index) ss ids (map (\<lambda>(slot, id). if id = index then keep s else slot) (zip pieces ids))"
  using assms by (auto simp: fill_def nth_Cons' Suc_diff_le intro!: nth_equalityI)

lemma fill_skip:
  assumes "length pieces = length ids" "index \<notin> set ids"
  shows "fill (Suc n) index (s # ss) ids pieces = fill n (Suc index) ss ids pieces"
proof -
  have "map (\<lambda>(slot, id). if id = index then keep s else slot) (zip pieces ids) = pieces"
    using assms by (auto intro!: nth_equalityI)
  then show ?thesis using fill_Suc [OF assms(1), of n index s ss] by simp
qed

lemma reads_pieces:
  assumes "list_all readable ss" "n \<le> length ss" "length pieces = length ids"
    and "ahead r (encode_strings ss @ b)"
  shows "\<exists>r'. read_pieces n index ids pieces r = Inr (fill n index ss ids pieces, r')"
  using assms
proof (induction n arbitrary: index pieces r ss)
  case 0
  then show ?case by (simp add: fill_0)
next
  case (Suc n)
  then obtain s ss' where ss: "ss = s # ss'" by (cases ss) auto
  have r: "ahead r (encode_string s @ encode_strings ss' @ b)" and s: "readable s"
    and ss': "list_all readable ss'" "n \<le> length ss'"
    using Suc.prems ss by simp_all
  obtain r1 where 1: "read_string MAX_KEPT_STRING r = Inr (keep s, r1)" "ahead r1 (encode_strings ss' @ b)"
    using reads_string [OF r s] by (auto simp: reads_def)
  obtain r2 where 2: "skip_value String r = Inr ((), r2)" "ahead r2 (encode_strings ss' @ b)"
    using reads_skip_string [OF r] by (auto simp: reads_def skip_value_def)
  note IH = Suc.IH [OF ss', of _ _ "Suc index"]
  show ?case
  proof (cases "index \<in> set ids")
    case True
    then show ?thesis
      using IH [OF _ 1(2)] Suc.prems(3) by (simp add: list_ex_iff 1(1) ss fill_Suc)
  next
    case False
    then have "\<not> list_ex (\<lambda>id. id = index) ids" by (auto simp: list_ex_iff)
    then show ?thesis
      using IH [OF _ 2(2)] Suc.prems(3) False by (simp add: 2(1) ss fill_skip)
  qed
qed

lemma fill_all:
  assumes "list_all (\<lambda>id. id < 2 ^ 32) ids"
  shows "fill (min (length ss) (sat_add64 (last_id ids) 1)) 0 ss ids (replicate (length ids) None)
    = map (piece_of ss) ids"
proof -
  have "id < sat_add64 (last_id ids) 1" if "id \<in> set ids" for id
  proof -
    have "id \<le> Max (set ids)" "id < 2 ^ 32" "ids \<noteq> []"
      using that assms by (auto simp: list_all_iff)
    then show ?thesis by (auto simp: last_id_def sat_simps u64_max_def)
  qed
  then show ?thesis
    by (auto simp: fill_def piece_of_def intro!: nth_equalityI)
qed

lemma read_tokens_strings:
  assumes "list_all readable ss" "list_all (\<lambda>id. id < 2 ^ 32) ids"
    and "ahead r (encode_value (Str_Array ss) @ b)"
  shows "read_tokens ids r = Inr (map (piece_of ss) ids)"
proof -
  have r: "ahead r (to_le_bytes 4 (tag_of String) @ to_le_bytes 8 (length ss) @ encode_strings ss @ b)"
    using assms(3) by simp
  obtain r1 where 1: "read_value_type r = Inr (String, r1)"
    "ahead r1 (to_le_bytes 8 (length ss) @ encode_strings ss @ b)"
    using reads_type [OF r] by (auto simp: reads_def)
  have "length ss < 2 ^ 64"
    using ahead_length [OF r] encode_strings_length [of ss] by (simp add: i64_max_def)
  then obtain r2 where 2: "read_u64 r1 = Inr (length ss, r2)" "ahead r2 (encode_strings ss @ b)"
    using reads_u64 [OF 1(2)] by (auto simp: reads_def)
  from reads_pieces [OF assms(1) _ _ 2(2), of "min (length ss) (sat_add64 (last_id ids) 1)"
      "replicate (length ids) None" ids 0]
  show ?thesis using fill_all [OF assms(2), of ss] by (auto simp: read_tokens_def 1(1) 2(1))
qed


lemma read_tokens_fixed:
  assumes "width t \<noteq> None" "ahead r (encode_value (Fixed_Array t n bs) @ b)"
  shows "read_tokens ids r = Inl (TokensNotStrings t)"
proof -
  have r: "ahead r (to_le_bytes 4 (tag_of t) @ to_le_bytes 8 n @ bs @ b)" using assms(2) by simp
  show ?thesis
    unfolding read_tokens_def
    by (rule reads_final [OF reads_type [OF r]]) (use assms(1) in auto)
qed

lemma find_tokens_written:
  assumes "list_all wf_entry es" "list_all (\<lambda>id. id < 2 ^ 32) ids"
    and "ahead r (concat (map encode_entry es) @ b)" "entries g = es"
  shows "find_tokens (length es) ids r = vocabulary ids g"
  using assms
proof (induction es arbitrary: r g)
  case Nil
  then show ?case by (simp add: vocabulary_def)
next
  case (Cons e es)
  obtain k v where e: "e = (k, v)" by (cases e)
  have wf: "wf_entry e" "wf_value v" "list_all wf_entry es"
    using Cons.prems(1) e by (simp_all add: wf_entry_def [of "(k, v)"])
  have "ahead r (encode_entry e @ concat (map encode_entry es) @ b)" using Cons.prems(3) by simp
  then obtain r1 where 1: "read_key r = Inr ((k, type_of_value v), r1)"
    "ahead r1 (encode_value v @ concat (map encode_entry es) @ b)"
    using reads_key [OF wf(1)] e by (fastforce simp: reads_def)
  show ?case
  proof (cases "k = TOKENS \<and> type_of_value v = Array")
    case True
    then consider ss where "v = Str_Array ss" | t n bs where "v = Fixed_Array t n bs"
      using wf(2) by (cases v) auto
    then show ?thesis
    proof cases
      case 1
      then show ?thesis
        using True \<open>read_key r = _\<close> Cons.prems(2,4) e wf(2) read_tokens_strings [of ss ids r1]
          \<open>ahead r1 _\<close>
        by (simp add: vocabulary_def)
    next
      case 2
      then have "width t \<noteq> None" using wf(2) by (auto split: option.splits)
      then show ?thesis
        using 2 True \<open>read_key r = _\<close> Cons.prems(4) e read_tokens_fixed [of t r1 n bs _ ids]
          \<open>ahead r1 _\<close>
        by (simp add: vocabulary_def)
    qed
  next
    case False
    obtain r2 where 2: "skip_value (type_of_value v) r1 = Inr ((), r2)"
      "ahead r2 (concat (map encode_entry es) @ b)"
      using reads_skip_value [OF wf(2) 1(2)] by (auto simp: reads_def)
    have "vocabulary ids g = vocabulary ids (g\<lparr>entries := es\<rparr>)"
      using False Cons.prems(4) e by (auto simp: vocabulary_def)
    moreover have "find_tokens (length es) ids r2 = vocabulary ids (g\<lparr>entries := es\<rparr>)"
      using Cons.IH [OF wf(3) Cons.prems(2) 2(2)] by simp
    ultimately show ?thesis using False by (auto simp: 1(1) 2(1))
  qed
qed

text \<open>C31. The pieces of a vocabulary: for every well-formed file and every list of 32-bit ids, the
  reader answers the piece at each id, in the order asked, none past the vocabulary's end or for a
  piece longer than it keeps. A file with no vocabulary gives none, and a vocabulary that does not
  hold strings is an error.
\<close>

theorem token_pieces_written:
  assumes "wf_gguf g" "length (encode_gguf g) \<le> limit" "list_all (\<lambda>id. id < 2 ^ 32) ids"
  shows "read_token_pieces ids (open_gguf g limit) = vocabulary ids g"
proof -
  obtain r1 where 1: "read_counts (open_gguf g limit) = Inr ((length (tensors g), length (entries g)), r1)"
    "ahead r1 (concat (map encode_entry (entries g)) @ concat (map encode_tensor (tensors g)) @ tensor_data g)"
    using reads_counts [OF assms(1) ahead_open [OF assms(1,2)]] by (auto simp: reads_def)
  have "list_all wf_entry (entries g)" using assms(1) by (simp add: wf_gguf_def)
  from find_tokens_written [OF this assms(3) 1(2)] show ?thesis
    by (simp add: read_token_pieces_def read_header_def 1(1))
qed

section \<open>Counts that lie\<close>

lemma skip_string_moves:
  "skip_string r = Inr (u, r') \<Longrightarrow>
     file_bytes r' = file_bytes r \<and> rd_pos r + 8 \<le> length (file_bytes r) \<and> rd_pos r + 8 \<le> rd_pos r'"
  by (auto simp: skip_string_def read_u64_def read_exact_def skip_def advance_def bind_result_Inr
      split: if_splits)

lemma skip_strings_stops:
  "0 < m \<Longrightarrow> length (file_bytes r) < rd_pos r + 8 * m \<Longrightarrow> skip_strings (m + k) r = skip_strings m r"
proof (induction m arbitrary: r)
  case 0
  then show ?case by simp
next
  case (Suc m)
  show ?case
  proof (cases "skip_string r")
    case (Inr x)
    then obtain u r' where x: "skip_string r = Inr (u, r')" by (cases x) auto
    from skip_string_moves [OF this] Suc.prems
    have "0 < m" "length (file_bytes r') < rd_pos r' + 8 * m" by (cases m; simp)+
    then show ?thesis using Suc.IH x by simp
  qed simp
qed

text \<open>C32. The count of an array of strings is the file's word, any 64-bit value: the strings the
  reader visits are at most one more than the file's eighth, whatever the count says.
\<close>

theorem skip_strings_bounded:
  "skip_strings n r = skip_strings (min n (length (file_bytes r) div 8 + 1)) r"
proof (cases "n \<le> length (file_bytes r) div 8 + 1")
  case False
  then obtain k where "n = (length (file_bytes r) div 8 + 1) + k"
    by (metis le_add_diff_inverse nat_le_linear)
  moreover have "skip_strings ((length (file_bytes r) div 8 + 1) + k) r
      = skip_strings (length (file_bytes r) div 8 + 1) r"
    by (rule skip_strings_stops) presburger+
  ultimately show ?thesis by (simp add: min_def)
qed (simp add: min_def)

section \<open>Witnesses\<close>

definition sample_file :: gguf where
  "sample_file =
     \<lparr>version = 3,
      entries =
        [(HAS_AUDIO_ENCODER, Fixed Bool [1]), (''a.b'', Fixed_Array Uint16 2 [1, 2, 3, 4]),
         (TOKENS, Str_Array [''<s>'', ''a'', ''bc'']), (PROJECTOR_TYPE, Str ''qwen3a''),
         (HAS_AUDIO_ENCODER, Fixed Uint8 [0])],
      tensors = [], tensor_data = [7]\<rparr>"

lemma sample_file_wf: "wf_gguf sample_file" "length (encode_gguf sample_file) \<le> 1000"
  by (simp_all add: sample_file_def wf_gguf_def wf_entry_def encode_gguf_def encode_entry_def
      encode_string_def readable_def i64_max_def MAX_KV_COUNT_def MAX_KEPT_STRING_def key_defs TOKENS_def
      ascii_utf8_valid ascii_def)

theorem projector_metadata_written_witness:
  "wf_gguf sample_file \<and>
   read_projector_metadata (open_gguf sample_file 1000)
     = Inr \<lparr>has_audio_encoder = True, has_vision_encoder = False, audio_projector_type = None,
            projector_type = Some ''qwen3a'', openbmb_minicpmo_audio = False\<rparr>"
proof -
  have "describe sample_file
     = \<lparr>has_audio_encoder = True, has_vision_encoder = False, audio_projector_type = None,
        projector_type = Some ''qwen3a'', openbmb_minicpmo_audio = False\<rparr>"
    by (simp add: describe_def is_openbmb_def sample_file_def last_of_simps picked_def keep_def
        MAX_KEPT_STRING_def key_defs TOKENS_def)
  then show ?thesis
    using projector_metadata_written [OF sample_file_wf] sample_file_wf(1) by simp
qed

theorem token_pieces_written_witness:
  "read_token_pieces [2, 7, 0] (open_gguf sample_file 1000)
     = Inr (Some [Some ''bc'', None, Some ''<s>''])"
proof -
  have "vocabulary [2, 7, 0] sample_file = Inr (Some [Some ''bc'', None, Some ''<s>''])"
    by (simp add: vocabulary_def sample_file_def piece_of_def keep_def MAX_KEPT_STRING_def
        key_defs TOKENS_def)
  then show ?thesis
    using token_pieces_written [OF sample_file_wf, of "[2, 7, 0]"] by simp
qed

end
