(* ===== verification/Failure_Report.thy ===== *)
theory Failure_Report
  imports Utf8 Retry Readiness
begin

text \<open>
  What a failed job tells the management server, \<open>pipette-cli/src/client/worker/protocol.rs\<close> and
  \<open>client/claim.rs\<close>: whether a run error is retriable, the failure reason held to its size, and the
  claim's payload with its access tokens removed. The errors are those of \<open>pipette-mgmt-client\<close>,
  \<open>pipette-artifacts/src/vault.rs\<close> and \<open>pipette-subprocess\<close>. An \<open>anyhow::Error\<close> is the list of its
  causes with their messages; \<open>downcast_ref\<close> looks into its first layers (the contexts and the
  error they wrap), a chain walk into all of it. An error of \<open>reqwest\<close> is what it answers.
\<close>

section \<open>Errors\<close>

datatype mgmt_error =
  InvalidUrl
| TimestampFormat
| UnusableTimestamp
| InvalidPrivateKey
| InvalidPublicKey
| UnusableKeyId
| OsEntropy
| Signer
| DotSegment
| EncodeJson
| Transport
| HttpStatus nat string
| StreamEnded
| DecodeJson
| BuildClient

fun http_status :: "mgmt_error \<Rightarrow> nat option" where
  "http_status (HttpStatus status _) = Some status"
| "http_status _ = None"

fun is_transient :: "mgmt_error \<Rightarrow> bool" where
  "is_transient Transport \<longleftrightarrow> True"
| "is_transient (HttpStatus status _) \<longleftrightarrow> 500 \<le> status"
| "is_transient _ \<longleftrightarrow> False"

datatype io_error_kind =
  StorageFull | QuotaExceeded | PermissionRefused | ReadOnlyFilesystem | OutOfMemory | ResourceBusy
| OtherKind

definition names_the_host :: "io_error_kind \<Rightarrow> bool" where
  "names_the_host kind \<longleftrightarrow> kind \<noteq> OtherKind"

text \<open>The source of an archive error: for each of its causes, the kind of the I/O error it is.\<close>

datatype vault_fetch_error =
  Unregistered
| Refused nat
| PinDisagrees
| Drift
| ResumedDrift
| VaultMgmt mgmt_error
| VaultIo io_error_kind
| VaultArchive "io_error_kind option list"

definition host_refused :: "io_error_kind option list \<Rightarrow> bool" where
  "host_refused causes = list_ex names_the_host (List.map_filter id causes)"

fun is_permanent :: "vault_fetch_error \<Rightarrow> bool" where
  "is_permanent (Refused _) \<longleftrightarrow> True"
| "is_permanent PinDisagrees \<longleftrightarrow> True"
| "is_permanent Drift \<longleftrightarrow> True"
| "is_permanent Unregistered \<longleftrightarrow> True"
| "is_permanent (VaultArchive source) \<longleftrightarrow> \<not> host_refused source"
| "is_permanent (VaultMgmt source) \<longleftrightarrow> \<not> is_transient source \<and> http_status source \<noteq> Some 401"
| "is_permanent (VaultIo _) \<longleftrightarrow> False"
| "is_permanent ResumedDrift \<longleftrightarrow> False"

text \<open>Whether another attempt in this process can succeed.\<close>

fun vault_disposition :: "vault_fetch_error \<Rightarrow> disposition" where
  "vault_disposition (VaultMgmt source) =
     (if is_transient source \<or> http_status source = Some 429 then TRANSIENT else Permanent)"
| "vault_disposition (VaultIo source) = (if \<not> names_the_host source then TRANSIENT else Permanent)"
| "vault_disposition ResumedDrift = TRANSIENT"
| "vault_disposition Unregistered = Permanent"
| "vault_disposition (Refused _) = Permanent"
| "vault_disposition PinDisagrees = Permanent"
| "vault_disposition Drift = Permanent"
| "vault_disposition (VaultArchive _) = Permanent"

definition refusal :: "mgmt_error \<Rightarrow> vault_fetch_error" where
  "refusal err =
     (case http_status err of
        Some status \<Rightarrow> (if status = 403 \<or> status = 404 then Refused status else VaultMgmt err)
      | None \<Rightarrow> VaultMgmt err)"

datatype exit_error = ExitStatusError | ExitFailed string string | ExitTimedOut string duration string

datatype ready_error =
  ReadyStatusError | ReadyExited string string | ReadyFailed string string
| ReadyTimedOut string duration string

record reqwest_error =
  req_is_timeout :: bool
  req_is_request :: bool
  req_is_connect :: bool
  req_is_builder :: bool
  req_is_redirect :: bool

datatype http_error =
  CryptoProviderInstall | ClientBuild | Request reqwest_error | HttpTimedOut reqwest_error
| HttpRefused nat "duration option" | HttpJson

datatype cause =
  UnrunnableClaim
| Vault vault_fetch_error
| Exit exit_error
| Ready ready_error
| Stopped
| Gate readiness_error
| SubmitRefused mgmt_error
| Http http_error
| Reqwest reqwest_error
| IoAround "reqwest_error option"
| Message

record error_link =
  link_cause :: cause
  link_text :: string

record anyhow_error =
  err_chain :: "error_link list"
  err_layers :: nat

definition chain_any :: "(cause \<Rightarrow> bool) \<Rightarrow> anyhow_error \<Rightarrow> bool" where
  "chain_any p err = list_ex (\<lambda>l. p (link_cause l)) (err_chain err)"

definition downcast_any :: "(cause \<Rightarrow> bool) \<Rightarrow> anyhow_error \<Rightarrow> bool" where
  "downcast_any p err = list_ex (\<lambda>l. p (link_cause l)) (take (err_layers err) (err_chain err))"

text \<open>\<open>{err:#}\<close>.\<close>

definition display_chain :: "anyhow_error \<Rightarrow> string" where
  "display_chain err = error_chain (map link_text (err_chain err))"

fun is_timeout :: "cause \<Rightarrow> bool" where
  "is_timeout (Http (Request e)) = req_is_timeout e"
| "is_timeout (Http (HttpTimedOut e)) = req_is_timeout e"
| "is_timeout (Reqwest e) = req_is_timeout e"
| "is_timeout (IoAround (Some e)) = req_is_timeout e"
| "is_timeout _ = False"

section \<open>Whether a run error is retriable\<close>

definition MEASURING_PROGRAMS :: "string list" where
  "MEASURING_PROGRAMS = [''llama-bench'', ''llama-batched-bench'']"

definition MODEL_LOAD_FAILED :: "string list" where
  "MODEL_LOAD_FAILED =
     [''failed to load model'', ''error loading model'', ''exiting due to model loading error'']"

definition LOAD_FAILED_ON_FILE_OR_MEMORY :: "string list" where
  "LOAD_FAILED_ON_FILE_OR_MEMORY =
     [''failed to open'', ''failed to read magic'', ''corrupted or incomplete'',
      ''unable to allocate'', ''failed to allocate'', ''out of memory'', ''cannot allocate memory'',
      ''not enough memory resources'', ''paging file is too small'', ''outofdevicememory'',
      ''outofhostmemory'']"

definition DSP_REFUSED_OP :: string where "DSP_REFUSED_OP = ''dsp-error no-support''"

fun measuring_overrun :: "cause \<Rightarrow> bool" where
  "measuring_overrun (Exit (ExitTimedOut name _ _)) = (name \<in> set MEASURING_PROGRAMS)"
| "measuring_overrun _ = False"

definition is_ready_error :: "cause \<Rightarrow> bool" where
  "is_ready_error c = (case c of Ready _ \<Rightarrow> True | _ \<Rightarrow> False)"

definition measurement_timed_out :: "anyhow_error \<Rightarrow> bool" where
  "measurement_timed_out err \<longleftrightarrow>
     chain_any measuring_overrun err \<or>
     (downcast_any (\<lambda>c. c = Stopped) err \<and> \<not> chain_any is_ready_error err \<and> chain_any is_timeout err)"

definition load_failure :: "string \<Rightarrow> bool" where
  "load_failure tail =
     (let low = to_ascii_lowercase tail in
      list_ex (str_contains low) MODEL_LOAD_FAILED \<and>
      \<not> list_ex (str_contains low) LOAD_FAILED_ON_FILE_OR_MEMORY)"

fun cause_failed_to_load :: "cause \<Rightarrow> bool" where
  "cause_failed_to_load (Exit (ExitFailed _ tail)) = load_failure tail"
| "cause_failed_to_load (Ready (ReadyExited _ tail)) = load_failure tail"
| "cause_failed_to_load _ = False"

definition model_failed_to_load :: "anyhow_error \<Rightarrow> bool" where
  "model_failed_to_load err = chain_any cause_failed_to_load err"

definition non_retriable_markers :: "string list" where
  "non_retriable_markers =
     [''benchmark not found'', ''is not a known, valid definition'', ''runs on-device only'',
      DSP_REFUSED_OP]"

definition permanent_vault :: "cause \<Rightarrow> bool" where
  "permanent_vault c = (case c of Vault e \<Rightarrow> is_permanent e | _ \<Rightarrow> False)"

definition classify_run_error :: "anyhow_error \<Rightarrow> bool" where
  "classify_run_error err =
     (if chain_any (\<lambda>c. c = UnrunnableClaim) err then False
      else if chain_any permanent_vault err then False
      else if measurement_timed_out err \<or> model_failed_to_load err then False
      else (let msg = to_ascii_lowercase (display_chain err) in
            \<not> list_ex (str_contains msg) non_retriable_markers))"

section \<open>The reason of a failure\<close>

definition device_time_ms :: "duration \<Rightarrow> nat" where
  "device_time_ms d = min (as_millis d) u64_max"

definition MAX_DETAIL_BYTES :: nat where "MAX_DETAIL_BYTES = 8 * 1024"

definition elision :: "nat \<Rightarrow> string" where
  "elision dropped = [CHR 0x0A] @ ''[... '' @ decimal dropped @ '' bytes elided ...]'' @ [CHR 0x0A]"

definition elide_middle :: "string \<Rightarrow> string" where
  "elide_middle detail =
     (if length detail \<le> MAX_DETAIL_BYTES then detail
      else
        let head_budget = MAX_DETAIL_BYTES div 2;
            tail_budget = MAX_DETAIL_BYTES - head_budget;
            head = floor_char_boundary detail head_budget;
            tail = ceil_char_boundary detail (length detail - tail_budget)
        in take head detail @ elision (tail - head) @ drop tail detail)"

definition format_failure_reason :: "string option \<Rightarrow> string \<Rightarrow> string" where
  "format_failure_reason formatted_now detail =
     ''['' @ (case formatted_now of Some ts \<Rightarrow> ts | None \<Rightarrow> ''unknown-time'') @ ''] '' @
     elide_middle detail"

section \<open>The claim's payload in a log\<close>

datatype json =
  JNull | JBool bool | JNumber string | JString string | JArray "json list"
| JObject "(string \<times> json) list"


lemma json_size_field [termination_simp]:
  "(k, v) \<in> set fs \<Longrightarrow> size v < Suc (size_list (size_prod (\<lambda>_. 0) size) fs)"
  by (induction fs) auto



section \<open>Both ends of a long detail\<close>

lemma decimal_ascii: "ascii (decimal n)"
proof (induction n rule: decimal.induct)
  case (1 n)
  have "of_char (char_of (48 + n mod 10) :: char) < (0x80 :: nat)" by simp
  then show ?case using 1 by (subst decimal.simps) (auto simp: ascii_def)
qed

lemma elision_utf8: "utf8_valid (elision n)"
  by (rule ascii_utf8_valid) (use decimal_ascii [of n] in \<open>simp add: elision_def ascii_def\<close>)

lemma elide_middle_cuts:
  assumes "utf8_valid d" "MAX_DETAIL_BYTES < length d"
  obtains h t where
    "elide_middle d = take h d @ elision (t - h) @ drop t d" "h \<le> t" "t \<le> length d"
    "h \<le> 4096" "4093 \<le> h" "length d - t \<le> 4096" "4093 \<le> length d - t"
    "is_char_boundary d h" "is_char_boundary d t"
proof
  let ?h = "floor_char_boundary d 4096"
  let ?t = "ceil_char_boundary d (length d - 4096)"
  have len: "8192 < length d" using assms(2) by (simp add: MAX_DETAIL_BYTES_def)
  then show "elide_middle d = take ?h d @ elision (?t - ?h) @ drop ?t d"
    by (simp add: elide_middle_def MAX_DETAIL_BYTES_def Let_def)
  show "?h \<le> 4096" by (rule floor_char_boundary_le)
  show "4093 \<le> ?h" using floor_char_boundary_near [OF assms(1), of 4096] len by linarith
  have t: "length d - 4096 \<le> ?t" by (rule ceil_char_boundary_ge) simp
  then show "length d - ?t \<le> 4096" "?h \<le> ?t" using \<open>?h \<le> 4096\<close> len by linarith+
  show "4093 \<le> length d - ?t"
    using ceil_char_boundary_near [OF assms(1), of "length d - 4096"] len by linarith
  show "?t \<le> length d" by (rule ceil_char_boundary_len)
  show "is_char_boundary d ?h" "is_char_boundary d ?t"
    by (rule floor_char_boundary_boundary, rule ceil_char_boundary_boundary)
qed

text \<open>C39. The detail of a failure of any length: one of at most 8 KiB is sent whole; of a longer one
  the first and the last 4 KiB are kept, each cut by at most three bytes so that no character is
  split, with the number of bytes left out between them. What is sent is valid UTF-8.
\<close>

theorem elide_middle_keeps_ends:
  assumes "utf8_valid d"
  shows "utf8_valid (elide_middle d) \<and>
    (if length d \<le> 8192 then elide_middle d = d
     else \<exists>pre mid post. d = pre @ mid @ post \<and>
       elide_middle d = pre @ elision (length mid) @ post \<and>
       length pre \<in> {4093..4096} \<and> length post \<in> {4093..4096})"
proof (cases "length d \<le> 8192")
  case True
  then show ?thesis using assms by (simp add: elide_middle_def MAX_DETAIL_BYTES_def)
next
  case False
  then have "MAX_DETAIL_BYTES < length d" by (simp add: MAX_DETAIL_BYTES_def)
  from elide_middle_cuts [OF assms this] obtain h t where
    e: "elide_middle d = take h d @ elision (t - h) @ drop t d" and
    ht: "h \<le> t" "t \<le> length d" "h \<le> 4096" "4093 \<le> h" "length d - t \<le> 4096" "4093 \<le> length d - t"
    and b: "is_char_boundary d h" "is_char_boundary d t" .
  have "utf8_valid (take h d)" "utf8_valid (drop t d)"
    using utf8_split [OF assms b(1)] utf8_split [OF assms b(2)] ht by auto
  then have "utf8_valid (elide_middle d)" unfolding e by (intro utf8_append elision_utf8)
  moreover have "\<exists>pre mid post. d = pre @ mid @ post \<and>
      elide_middle d = pre @ elision (length mid) @ post \<and>
      length pre \<in> {4093..4096} \<and> length post \<in> {4093..4096}"
  proof (intro exI conjI)
    show "d = take h d @ take (t - h) (drop h d) @ drop t d"
      using ht(1) by (metis append_take_drop_id drop_drop le_add_diff_inverse2)
    show "elide_middle d = take h d @ elision (length (take (t - h) (drop h d))) @ drop t d"
      using e ht by simp
  qed (use ht in auto)
  ultimately show ?thesis using False by simp
qed

theorem elide_middle_keeps_ends_witness:
  "utf8_valid ''out of memory'' \<and> elide_middle ''out of memory'' = ''out of memory''"
proof -
  have "utf8_valid ''out of memory''" by (rule ascii_utf8_valid) (simp add: ascii_def)
  then show ?thesis using elide_middle_keeps_ends [of "''out of memory''"] by simp
qed

section \<open>No token in a log\<close>





end
