(* ===== verification/Lease_Protocol.thy ===== *)
theory Lease_Protocol
  imports Failure_Report Worker_Timing
begin

text \<open>
  The planner wire protocol, \<open>pipette-cli/src/client/worker/protocol.rs\<close>, and the retry loops and
  the heartbeat thread of \<open>pipette-cli/src/commands/worker.rs\<close> over it: claim a job, keep its lease
  alive, submit its outcome. The management server is a record of calls on the world, each with
  any answer.
\<close>

section \<open>One call each\<close>

record ('w, 'j, 'b) client_api =
  api_claim :: "'w \<Rightarrow> (mgmt_error + 'j option) \<times> 'w"
  api_heartbeat :: "string \<Rightarrow> 'w \<Rightarrow> (mgmt_error + unit) \<times> 'w"
  api_reclaim :: "string \<Rightarrow> 'w \<Rightarrow> (mgmt_error + unit) \<times> 'w"
  api_submit :: "'b \<Rightarrow> 'w \<Rightarrow> (mgmt_error + string) \<times> 'w"

datatype 'j claim_poll =
  Job 'j
| Idle
| ClaimRefused mgmt_error
| ClaimTransient mgmt_error
| ClaimFatal mgmt_error

definition poll_claim :: "('w, 'j, 'b) client_api \<Rightarrow> 'w \<Rightarrow> 'j claim_poll \<times> 'w" where
  "poll_claim api w =
     (let (r, w1) = api_claim api w in
      (case r of
         Inr (Some job) \<Rightarrow> Job job
       | Inr None \<Rightarrow> Idle
       | Inl e \<Rightarrow>
           if http_status e = Some 403 then ClaimRefused e
           else if is_transient e then ClaimTransient e
           else ClaimFatal e, w1))"

datatype lease_keepalive = LeaseOk | LeaseAbort | LeaseRetry

definition keepalive_lease :: "('w, 'j, 'b) client_api \<Rightarrow> string \<Rightarrow> 'w \<Rightarrow> lease_keepalive \<times> 'w" where
  "keepalive_lease api job_id w =
     (let (r, w1) = api_heartbeat api job_id w in
      case r of
        Inr _ \<Rightarrow> (LeaseOk, w1)
      | Inl e \<Rightarrow>
          if http_status e = Some 409 then (LeaseAbort, w1)
          else if http_status e = Some 404 then
            (let (rr, w2) = api_reclaim api job_id w1 in
             (case rr of
                Inr _ \<Rightarrow> LeaseOk
              | Inl re \<Rightarrow>
                  if http_status re = Some 404 \<or> http_status re = Some 409 then LeaseAbort
                  else if is_transient re then LeaseRetry
                  else LeaseAbort, w2))
          else if is_transient e then (LeaseRetry, w1)
          else (LeaseRetry, w1))"

datatype submit_disposition = Accepted string | Dropped | RetryTransient | SubmitFatal mgmt_error

definition try_submit_plan_result ::
  "('w, 'j, 'b) client_api \<Rightarrow> string \<Rightarrow> 'b \<Rightarrow> 'w \<Rightarrow> submit_disposition \<times> 'w" where
  "try_submit_plan_result api job_id payload w =
     (let (r, w1) = api_submit api payload w in
      case r of
        Inr accepted_id \<Rightarrow> (Accepted accepted_id, w1)
      | Inl e \<Rightarrow>
          if http_status e = Some 409 then (Dropped, w1)
          else if http_status e = Some 404 then
            (let (rr, w2) = api_reclaim api job_id w1 in
             (case rr of
                Inr _ \<Rightarrow> RetryTransient
              | Inl re \<Rightarrow>
                  if http_status re = Some 404 \<or> http_status re = Some 409 then Dropped
                  else if is_transient re then RetryTransient
                  else Dropped, w2))
          else if is_transient e then (RetryTransient, w1)
          else (SubmitFatal e, w1))"

section \<open>Submitting and claiming with retries\<close>

definition SUBMIT_ATTEMPTS :: nat where "SUBMIT_ATTEMPTS = 32"
definition SUBMIT_BACKOFF_FIRST :: duration where "SUBMIT_BACKOFF_FIRST = from_secs 1"
definition SUBMIT_BACKOFF_CAP :: duration where "SUBMIT_BACKOFF_CAP = from_secs 30"

definition settled_or_again ::
  "submit_disposition \<times> 'w \<Rightarrow> (submit_disposition, unit) control_flow \<times> 'w" where
  "settled_or_again r =
     (case r of (d, w) \<Rightarrow> (if d = RetryTransient then Continue () else Break d, w))"

definition submit_plan_result_with_backoff ::
  "('w, 'j, 'b) client_api \<Rightarrow> string \<Rightarrow> 'b \<Rightarrow> (duration \<Rightarrow> 'w \<Rightarrow> (unit, unit) control_flow \<times> 'w)
     \<Rightarrow> 'w \<Rightarrow> submit_disposition \<times> 'w" where
  "submit_plan_result_with_backoff api job_id payload sleep w =
     (let (settled, w1) =
        retry_with_backoff [1..<Suc SUBMIT_ATTEMPTS] SUBMIT_BACKOFF_FIRST SUBMIT_BACKOFF_CAP
          (\<lambda>_ w. settled_or_again (try_submit_plan_result api job_id payload w)) sleep w
      in (case settled of Some d \<Rightarrow> d | None \<Rightarrow> RetryTransient, w1))"

definition submit_refused_error :: "mgmt_error \<Rightarrow> anyhow_error" where
  "submit_refused_error e = \<lparr>err_chain = [\<lparr>link_cause = SubmitRefused e, link_text = []\<rparr>], err_layers = 1\<rparr>"

text \<open>\<open>Inr True\<close>: the server has the report; \<open>Inr False\<close>: it never reached the server.\<close>

definition post_completion ::
  "('w, 'j, 'b) client_api \<Rightarrow> string \<Rightarrow> 'b \<Rightarrow> (duration \<Rightarrow> 'w \<Rightarrow> (unit, unit) control_flow \<times> 'w)
     \<Rightarrow> 'w \<Rightarrow> (anyhow_error + bool) \<times> 'w" where
  "post_completion api job_id payload sleep w =
     (let (d, w1) = submit_plan_result_with_backoff api job_id payload sleep w in
      (case d of
         Accepted _ \<Rightarrow> Inr True
       | Dropped \<Rightarrow> Inr True
       | RetryTransient \<Rightarrow> Inr False
       | SubmitFatal e \<Rightarrow> Inl (submit_refused_error e), w1))"

definition CLAIM_BACKOFF_FIRST :: duration where "CLAIM_BACKOFF_FIRST = from_secs 1"
definition CLAIM_BACKOFF_CAP :: duration where "CLAIM_BACKOFF_CAP = from_secs 60"

text \<open>
  The claim loop never gives up on a server that is down: \<^const>\<open>None\<close> outside is a loop that does
  not return, \<^const>\<open>None\<close> inside a sleep that said stop. The attempts stay below \<open>u32\<close>'s range for
  the eight thousand years the capped backoff takes to leave it.
\<close>

partial_function (option) claim_retries ::
  "('w, 'j, 'b) client_api \<Rightarrow> (duration \<Rightarrow> 'w \<Rightarrow> (unit, unit) control_flow \<times> 'w) \<Rightarrow> nat \<Rightarrow> 'w
     \<Rightarrow> ('j claim_poll option \<times> 'w) option" where
  "claim_retries api sleep attempt w =
     (case poll_claim api w of (poll, w1) \<Rightarrow>
      (case poll of
         ClaimTransient _ \<Rightarrow>
           (case sleep (exponential_backoff attempt CLAIM_BACKOFF_FIRST CLAIM_BACKOFF_CAP) w1 of (c, w2) \<Rightarrow>
            if is_break c then Some (None, w2) else claim_retries api sleep (Suc attempt) w2)
       | other \<Rightarrow> Some (Some other, w1)))"

definition claim_with_retry ::
  "('w, 'j, 'b) client_api \<Rightarrow> (duration \<Rightarrow> 'w \<Rightarrow> (unit, unit) control_flow \<times> 'w) \<Rightarrow> 'w
     \<Rightarrow> ('j claim_poll option \<times> 'w) option" where
  "claim_with_retry api sleep w = claim_retries api sleep 1 w"

section \<open>The heartbeat thread\<close>

definition RETRY_FIRST :: duration where "RETRY_FIRST = from_secs 2"

text \<open>
  \<open>recv_timeout d\<close> is \<^const>\<open>True\<close> when \<open>d\<close> passed, \<^const>\<open>False\<close> when the run's end closed the
  channel first. The thread answers whether it flagged the lease as lost.
\<close>

partial_function (option) heartbeat_loop ::
  "('w, 'j, 'b) client_api \<Rightarrow> (duration \<Rightarrow> 'w \<Rightarrow> bool \<times> 'w) \<Rightarrow> ('w \<Rightarrow> nat \<times> 'w) \<Rightarrow> string
     \<Rightarrow> duration \<Rightarrow> duration \<Rightarrow> nat \<Rightarrow> 'w \<Rightarrow> (bool \<times> 'w) option" where
  "heartbeat_loop api recv_timeout random_u64 job_id every wait failures w =
     (case recv_timeout wait w of (passed, w1) \<Rightarrow>
      if \<not> passed then Some (False, w1)
      else (case keepalive_lease api job_id w1 of (k, w2) \<Rightarrow>
        (case k of
           LeaseOk \<Rightarrow> heartbeat_loop api recv_timeout random_u64 job_id every every 0 w2
         | LeaseAbort \<Rightarrow> Some (True, w2)
         | LeaseRetry \<Rightarrow>
             (case jittered random_u64
                     (exponential_backoff (min (failures + 1) u32_max) RETRY_FIRST (every div 4)) w2 of
                (next_wait, w3) \<Rightarrow>
                  heartbeat_loop api recv_timeout random_u64 job_id every next_wait
                    (min (failures + 1) u32_max) w3))))"

definition heartbeat_thread ::
  "('w, 'j, 'b) client_api \<Rightarrow> (duration \<Rightarrow> 'w \<Rightarrow> bool \<times> 'w) \<Rightarrow> ('w \<Rightarrow> nat \<times> 'w) \<Rightarrow> string
     \<Rightarrow> duration \<Rightarrow> 'w \<Rightarrow> (bool \<times> 'w) option" where
  "heartbeat_thread api recv_timeout random_u64 job_id every w =
     heartbeat_loop api recv_timeout random_u64 job_id every every 0 w"

section \<open>A scripted server\<close>

text \<open>
  The world counts the calls and keeps the waits: the server answers call \<open>k\<close> with the scripts'
  answer at \<open>k\<close>, and a reclaim within call \<open>k\<close> with \<open>rc k\<close>. The sleep after call \<open>k\<close> is broken when
  \<open>breaks k\<close>.
\<close>

record net_log =
  turn :: nat
  naps :: "duration list"

definition scripted_api ::
  "(nat \<Rightarrow> mgmt_error + 'j option) \<Rightarrow> (nat \<Rightarrow> mgmt_error + unit) \<Rightarrow> (nat \<Rightarrow> mgmt_error + unit)
     \<Rightarrow> ('b \<Rightarrow> nat \<Rightarrow> mgmt_error + string) \<Rightarrow> (net_log, 'j, 'b) client_api" where
  "scripted_api cl hb rc sub =
     \<lparr>api_claim = \<lambda>w. (cl (Suc (turn w)), w\<lparr>turn := Suc (turn w)\<rparr>),
      api_heartbeat = \<lambda>_ w. (hb (Suc (turn w)), w\<lparr>turn := Suc (turn w)\<rparr>),
      api_reclaim = \<lambda>_ w. (rc (turn w), w),
      api_submit = \<lambda>body w. (sub body (Suc (turn w)), w\<lparr>turn := Suc (turn w)\<rparr>)\<rparr>"

definition scripted_nap :: "(nat \<Rightarrow> bool) \<Rightarrow> duration \<Rightarrow> net_log \<Rightarrow> (unit, unit) control_flow \<times> net_log" where
  "scripted_nap breaks d w =
     (if breaks (turn w) then Break () else Continue (), w\<lparr>naps := naps w @ [d]\<rparr>)"

definition reclaim_gone :: "mgmt_error + unit \<Rightarrow> bool" where
  "reclaim_gone r = (case r of Inr _ \<Rightarrow> False | Inl e \<Rightarrow> \<not> is_transient e)"

definition submit_verdict ::
  "(nat \<Rightarrow> mgmt_error + unit) \<Rightarrow> (nat \<Rightarrow> mgmt_error + string) \<Rightarrow> nat \<Rightarrow> submit_disposition" where
  "submit_verdict rc sub k =
     (case sub k of
        Inr accepted_id \<Rightarrow> Accepted accepted_id
      | Inl e \<Rightarrow>
          if is_transient e then RetryTransient
          else if http_status e = Some 404 then (if reclaim_gone (rc k) then Dropped else RetryTransient)
          else if http_status e = Some 409 then Dropped
          else SubmitFatal e)"

definition keepalive_verdict ::
  "(nat \<Rightarrow> mgmt_error + unit) \<Rightarrow> (nat \<Rightarrow> mgmt_error + unit) \<Rightarrow> nat \<Rightarrow> lease_keepalive" where
  "keepalive_verdict hb rc k =
     (case hb k of
        Inr _ \<Rightarrow> LeaseOk
      | Inl e \<Rightarrow>
          if http_status e = Some 409 then LeaseAbort
          else if http_status e = Some 404
          then (if reclaim_gone (rc k) then LeaseAbort
                else if \<exists>u. rc k = Inr u then LeaseOk else LeaseRetry)
          else LeaseRetry)"

lemma transient_status: "is_transient e \<Longrightarrow> http_status e = Some s \<Longrightarrow> 500 \<le> s"
  by (cases e) auto

lemma try_submit_scripted:
  "try_submit_plan_result (scripted_api cl hb rc sub) job_id body w =
     (submit_verdict rc (sub body) (Suc (turn w)), w\<lparr>turn := Suc (turn w)\<rparr>)"
  by (auto simp: try_submit_plan_result_def scripted_api_def submit_verdict_def reclaim_gone_def
      split: sum.splits dest: transient_status)

lemma keepalive_scripted:
  "keepalive_lease (scripted_api cl hb rc sub) job_id w =
     (keepalive_verdict hb rc (Suc (turn w)), w\<lparr>turn := Suc (turn w)\<rparr>)"
  by (auto simp: keepalive_lease_def scripted_api_def keepalive_verdict_def reclaim_gone_def
      split: sum.splits dest: transient_status)

section \<open>A submit settles\<close>

text \<open>The attempt a submit ends at: the first that settles or whose sleep is broken, or the last.\<close>

definition settle_at :: "(nat \<Rightarrow> submit_disposition) \<Rightarrow> (nat \<Rightarrow> bool) \<Rightarrow> nat \<Rightarrow> nat \<Rightarrow> nat" where
  "settle_at verdict breaks k final =
     hd (filter (\<lambda>n. verdict n \<noteq> RetryTransient \<or> breaks n) [k..<final] @ [final])"

lemma settle_at_step:
  assumes "k < final"
  shows "settle_at verdict breaks k final =
    (if verdict k \<noteq> RetryTransient \<or> breaks k then k else settle_at verdict breaks (Suc k) final)"
  using assms by (simp add: settle_at_def upt_conv_Cons)

lemma settle_at_range: "k \<le> final \<Longrightarrow> k \<le> settle_at verdict breaks k final \<and> settle_at verdict breaks k final \<le> final"
proof (induction "final - k" arbitrary: k)
  case 0
  then show ?case by (simp add: settle_at_def)
next
  case (Suc d)
  then have "k < final" by simp
  then have "Suc k \<le> settle_at verdict breaks (Suc k) final \<and> settle_at verdict breaks (Suc k) final \<le> final"
    using Suc.hyps by (intro Suc.hyps(1)) auto
  then show ?case using \<open>k < final\<close> by (auto simp: settle_at_step)
qed

definition scripted_attempt ::
  "(nat \<Rightarrow> mgmt_error + unit) \<Rightarrow> (nat \<Rightarrow> mgmt_error + string) \<Rightarrow> nat \<Rightarrow> net_log
     \<Rightarrow> (submit_disposition, unit) control_flow \<times> net_log" where
  "scripted_attempt rc sub i w =
     settled_or_again (submit_verdict rc sub (Suc (turn w)), w\<lparr>turn := Suc (turn w)\<rparr>)"

lemma submit_attempts_scripted:
  assumes "k \<le> final" "turn w = k - 1" "1 \<le> k"
  shows "retry_with_backoff [k..<Suc final] f cap (scripted_attempt rc sub) (scripted_nap breaks) w =
    (let n = settle_at (submit_verdict rc sub) breaks k final;
         again = (submit_verdict rc sub n = RetryTransient)
     in (if again then None else Some (submit_verdict rc sub n),
         w\<lparr>turn := n,
           naps := naps w @ map (\<lambda>i. exponential_backoff i f cap) ([k..<n] @ (if again then [n] else []))\<rparr>))"
  using assms
proof (induction "final - k" arbitrary: k w)
  case 0
  then have k: "k = final" by simp
  show ?case
    using 0
    by (simp add: k settle_at_def scripted_attempt_def settled_or_again_def scripted_nap_def)
next
  case (Suc d)
  then have lt: "k < final" "d = final - Suc k" by simp_all
  let ?v = "submit_verdict rc sub"
  let ?w1 = "w\<lparr>turn := k, naps := naps w @ [exponential_backoff k f cap]\<rparr>"
  have step: "retry_with_backoff [k..<Suc final] f cap (scripted_attempt rc sub) (scripted_nap breaks) w =
      (if ?v k \<noteq> RetryTransient then (Some (?v k), w\<lparr>turn := k\<rparr>)
       else if breaks k then (None, ?w1)
       else retry_with_backoff [Suc k..<Suc final] f cap (scripted_attempt rc sub) (scripted_nap breaks) ?w1)"
    using lt Suc.prems
    by (simp add: upt_conv_Cons scripted_attempt_def settled_or_again_def scripted_nap_def
        del: upt_Suc)
  show ?case
  proof (cases "?v k \<noteq> RetryTransient \<or> breaks k")
    case True
    then show ?thesis using lt unfolding step by (auto simp: settle_at_step Let_def)
  next
    case False
    let ?n = "settle_at ?v breaks (Suc k) final"
    have "Suc k \<le> ?n" using settle_at_range [of "Suc k" final ?v breaks] lt by simp
    then have "[k..<?n] = k # [Suc k..<?n]" by (simp add: upt_conv_Cons)
    then show ?thesis
      using False lt Suc.hyps(1) [of "Suc k" ?w1] unfolding step
      by (simp add: settle_at_step Let_def del: upt_Suc)
  qed
qed

lemma backoff_naps_sum:
  "n \<le> 32 \<Longrightarrow> sum_list (map (\<lambda>i. exponential_backoff i (from_secs 1) (from_secs 30)) [1..<Suc n]) \<le> from_secs 841"
proof -
  assume "n \<le> 32"
  let ?b = "\<lambda>i. exponential_backoff i (from_secs 1) (from_secs 30)"
  have "[1..<33] = [1..<Suc n] @ [Suc n..<33]"
    using \<open>n \<le> 32\<close> upt_add_eq_append [of 1 "Suc n" "32 - n"] by simp
  then have "sum_list (map ?b [1..<Suc n]) \<le> sum_list (map ?b [1..<33])" by simp
  also have "\<dots> = from_secs 841" by (simp add: upt_rec exponential_backoff_def dur_sat_mul_def from_secs_def DURATION_MAX_def)
  finally show ?thesis .
qed

definition submit_end :: "(nat \<Rightarrow> mgmt_error + unit) \<Rightarrow> (nat \<Rightarrow> mgmt_error + string) \<Rightarrow> (nat \<Rightarrow> bool) \<Rightarrow> nat" where
  "submit_end rc sub breaks = settle_at (submit_verdict rc sub) breaks 1 32"

definition submit_naps ::
  "(nat \<Rightarrow> mgmt_error + unit) \<Rightarrow> (nat \<Rightarrow> mgmt_error + string) \<Rightarrow> (nat \<Rightarrow> bool) \<Rightarrow> duration list" where
  "submit_naps rc sub breaks =
     (let n = submit_end rc sub breaks in
      map (\<lambda>i. exponential_backoff i (from_secs 1) (from_secs 30))
        ([1..<n] @ (if submit_verdict rc sub n = RetryTransient then [n] else [])))"

text \<open>C35. Submitting an outcome, whatever the server answers: the body is posted at most 32 times, and
  the submit ends at the first attempt that is accepted (202), dropped (409, or a 404 whose reclaim
  is refused) or definitively refused, at the first broken sleep, or at the last attempt, with that
  attempt's disposition. Between attempts it sleeps the doubling backoff from one second, capped at
  thirty, 841 seconds at most in all.
\<close>

theorem submit_settles:
  "submit_plan_result_with_backoff (scripted_api cl hb rc sub) job_id body (scripted_nap breaks)
      \<lparr>turn = 0, naps = []\<rparr>
    = (submit_verdict rc (sub body) (submit_end rc (sub body) breaks),
       \<lparr>turn = submit_end rc (sub body) breaks, naps = submit_naps rc (sub body) breaks\<rparr>)
   \<and> submit_end rc (sub body) breaks \<in> {1..32}
   \<and> sum_list (submit_naps rc (sub body) breaks) \<le> from_secs 841"
proof -
  let ?n = "submit_end rc (sub body) breaks"
  have n: "1 \<le> ?n" "?n \<le> 32"
    unfolding submit_end_def using settle_at_range [of 1 32 "submit_verdict rc (sub body)" breaks] by simp_all
  have "sum_list (submit_naps rc (sub body) breaks)
      \<le> sum_list (map (\<lambda>i. exponential_backoff i (from_secs 1) (from_secs 30)) [1..<Suc ?n])"
    using n by (simp add: submit_naps_def Let_def)
  also have "\<dots> \<le> from_secs 841" by (rule backoff_naps_sum [OF n(2)])
  finally have sum: "sum_list (submit_naps rc (sub body) breaks) \<le> from_secs 841" .
  have "(\<lambda>_ w. settled_or_again (try_submit_plan_result (scripted_api cl hb rc sub) job_id body w))
      = scripted_attempt rc (sub body)"
    by (intro ext) (simp add: scripted_attempt_def try_submit_scripted)
  then have "submit_plan_result_with_backoff (scripted_api cl hb rc sub) job_id body (scripted_nap breaks)
      \<lparr>turn = 0, naps = []\<rparr>
    = (submit_verdict rc (sub body) ?n, \<lparr>turn = ?n, naps = submit_naps rc (sub body) breaks\<rparr>)"
    using submit_attempts_scripted [of 1 32 "\<lparr>turn = 0, naps = []\<rparr>" "from_secs 1" "from_secs 30"]
    unfolding submit_plan_result_with_backoff_def SUBMIT_ATTEMPTS_def SUBMIT_BACKOFF_FIRST_def
      SUBMIT_BACKOFF_CAP_def submit_end_def submit_naps_def
    by (simp only:) (simp add: Let_def del: upt_Suc upt_rec_numeral)
  then show ?thesis using n sum by simp
qed


section \<open>A claim is retried for ever\<close>

definition claim_verdict :: "(nat \<Rightarrow> mgmt_error + 'j option) \<Rightarrow> nat \<Rightarrow> 'j claim_poll" where
  "claim_verdict cl k =
     (case cl k of
        Inr (Some job) \<Rightarrow> Job job
      | Inr None \<Rightarrow> Idle
      | Inl e \<Rightarrow>
          if http_status e = Some 403 then ClaimRefused e
          else if is_transient e then ClaimTransient e
          else ClaimFatal e)"

definition transient_claim :: "(nat \<Rightarrow> mgmt_error + 'j option) \<Rightarrow> nat \<Rightarrow> bool" where
  "transient_claim cl k \<longleftrightarrow> (\<exists>e. cl k = Inl e \<and> is_transient e)"

definition claim_ends :: "(nat \<Rightarrow> mgmt_error + 'j option) \<Rightarrow> (nat \<Rightarrow> bool) \<Rightarrow> nat \<Rightarrow> bool" where
  "claim_ends cl breaks k \<longleftrightarrow> 1 \<le> k \<and> (\<not> transient_claim cl k \<or> breaks k)"

definition claim_outcome :: "(nat \<Rightarrow> mgmt_error + 'j option) \<Rightarrow> nat \<Rightarrow> 'j claim_poll option \<times> net_log" where
  "claim_outcome cl n =
     (if transient_claim cl n then None else Some (claim_verdict cl n),
      \<lparr>turn = n,
       naps = map (\<lambda>i. exponential_backoff i (from_secs 1) (from_secs 60))
         ([1..<n] @ (if transient_claim cl n then [n] else []))\<rparr>)"

lemma transient_not_403: "is_transient e \<Longrightarrow> http_status e \<noteq> Some 403"
  using transient_status [of e 403] by auto

lemma poll_claim_scripted:
  "poll_claim (scripted_api cl hb rc sub) w = (claim_verdict cl (Suc (turn w)), w\<lparr>turn := Suc (turn w)\<rparr>)"
  by (simp add: poll_claim_def scripted_api_def claim_verdict_def)

lemma claim_verdict_transient: "(\<exists>e. claim_verdict cl k = ClaimTransient e) \<longleftrightarrow> transient_claim cl k"
  using transient_not_403
  by (auto simp: claim_verdict_def transient_claim_def split: sum.splits option.splits if_splits)

lemma claim_retries_step:
  assumes api: "api = scripted_api cl hb rc sub" and "turn w = k - 1" "1 \<le> k"
  shows "claim_retries api (scripted_nap breaks) k w =
    (if \<not> transient_claim cl k then Some (Some (claim_verdict cl k), w\<lparr>turn := k\<rparr>)
     else
       let w1 = w\<lparr>turn := k, naps := naps w @ [exponential_backoff k (from_secs 1) (from_secs 60)]\<rparr> in
       if breaks k then Some (None, w1)
       else claim_retries api (scripted_nap breaks) (Suc k) w1)"
proof -
  have k: "Suc (turn w) = k" using assms by simp
  show ?thesis
    using claim_verdict_transient [of cl k]
    by (subst claim_retries.simps)
      (cases "claim_verdict cl k"; auto simp: api poll_claim_scripted k scripted_nap_def
        CLAIM_BACKOFF_FIRST_def CLAIM_BACKOFF_CAP_def)
qed

lemma claim_retries_ends:
  assumes api: "api = scripted_api cl hb rc sub" and "k \<le> n" "1 \<le> k" "\<And>i. k \<le> i \<Longrightarrow> i < n \<Longrightarrow> \<not> claim_ends cl breaks i" "claim_ends cl breaks n"
    and "turn w = k - 1"
    and "naps w = map (\<lambda>i. exponential_backoff i (from_secs 1) (from_secs 60)) [1..<k]"
  shows "claim_retries api (scripted_nap breaks) k w = Some (claim_outcome cl n)"
  using assms(2-)
proof (induction "n - k" arbitrary: k w)
  case 0
  then have "k = n" by simp
  with 0 show ?case
    by (auto simp: claim_retries_step [OF api] claim_outcome_def claim_ends_def Let_def)
next
  case (Suc d)
  then have k: "k < n" "transient_claim cl k" "\<not> breaks k" by (auto simp: claim_ends_def)
  let ?w1 = "w\<lparr>turn := k, naps := naps w @ [exponential_backoff k (from_secs 1) (from_secs 60)]\<rparr>"
  have "claim_retries api (scripted_nap breaks) (Suc k) ?w1 = Some (claim_outcome cl n)"
    using Suc.hyps(2) Suc.prems k by (intro Suc.hyps(1)) auto
  then show ?case using Suc.prems k by (simp add: claim_retries_step [OF api] Let_def)
qed

lemmas claim_retries_induct = claim_retries.raw_induct [rotated, consumes 1, case_names step]

lemma claim_retries_returns:
  assumes "claim_retries api sleep k w = Some r"
    and "api = scripted_api cl hb rc sub" "sleep = scripted_nap breaks" "turn w = k - 1" "1 \<le> k"
  shows "\<exists>n\<ge>k. claim_ends cl breaks n"
  using assms
proof (induction api sleep k w r rule: claim_retries_induct)
  case (step f api sleep k w r)
  show ?case
  proof (cases "claim_ends cl breaks k")
    case False
    then have t: "transient_claim cl k" "\<not> breaks k" using step.prems by (auto simp: claim_ends_def)
    then obtain e where "claim_verdict cl k = ClaimTransient e"
      using claim_verdict_transient [of cl k] by blast
    then obtain w1 where w1: "f api sleep (Suc k) w1 = Some r" "turn w1 = k"
      using step t by (auto simp: poll_claim_scripted scripted_nap_def)
    have "\<exists>n\<ge>Suc k. claim_ends cl breaks n"
      using step.prems w1(2) by (intro step(1) [OF w1(1)]) auto
    then show ?thesis by (meson Suc_leD)
  qed auto
qed


text \<open>C36. Claiming, whatever the server answers: the loop returns exactly when some attempt gets an
  answer that is not transient, or some sleep is broken, and it ends at the first such attempt, with
  that answer or with stop, having slept the doubling backoff from one second, capped at a minute,
  after every attempt before. A server that stays down is asked for ever.
\<close>

theorem claim_with_retry_exact:
  "claim_with_retry (scripted_api cl hb rc sub) (scripted_nap breaks) \<lparr>turn = 0, naps = []\<rparr> =
     (if \<exists>n. claim_ends cl breaks n
      then Some (claim_outcome cl (LEAST n. claim_ends cl breaks n))
      else None)"
proof (cases "\<exists>n. claim_ends cl breaks n")
  case True
  define n where "n = (LEAST n. claim_ends cl breaks n)"
  have n: "claim_ends cl breaks n" unfolding n_def using True by (rule LeastI_ex)
  have "\<not> claim_ends cl breaks i" if "i < n" for i
    using that unfolding n_def by (rule not_less_Least)
  then have "claim_retries (scripted_api cl hb rc sub) (scripted_nap breaks) 1 \<lparr>turn = 0, naps = []\<rparr>
      = Some (claim_outcome cl n)"
    using n by (intro claim_retries_ends [OF refl]) (auto simp: claim_ends_def)
  then show ?thesis using True by (simp add: claim_with_retry_def n_def)
next
  case False
  have "claim_with_retry (scripted_api cl hb rc sub) (scripted_nap breaks) \<lparr>turn = 0, naps = []\<rparr> = None"
  proof (rule ccontr)
    assume "\<not> ?thesis"
    then obtain r where
      "claim_retries (scripted_api cl hb rc sub) (scripted_nap breaks) 1 \<lparr>turn = 0, naps = []\<rparr> = Some r"
      by (auto simp: claim_with_retry_def)
    from claim_retries_returns [OF this refl refl] False show "False" by simp
  qed
  then show ?thesis using False by simp
qed

section \<open>The heartbeats of a run\<close>

text \<open>
  The run ends after \<open>ends\<close> timeouts, and the generator's \<open>k\<close>-th number is \<open>rolls k\<close>. \<open>fails v k\<close>
  counts the retries since the last answer that was none, \<open>beat_wait k\<close> is the wait after call \<open>k\<close>.
\<close>

definition scripted_recv :: "nat \<Rightarrow> duration \<Rightarrow> net_log \<Rightarrow> bool \<times> net_log" where
  "scripted_recv ends d w = (turn w < ends, w\<lparr>naps := naps w @ [d]\<rparr>)"

definition scripted_roll :: "(nat \<Rightarrow> nat) \<Rightarrow> net_log \<Rightarrow> nat \<times> net_log" where
  "scripted_roll rolls w = (rolls (turn w), w)"

primrec fails :: "(nat \<Rightarrow> lease_keepalive) \<Rightarrow> nat \<Rightarrow> nat" where
  "fails v 0 = 0"
| "fails v (Suc k) = (if v (Suc k) = LeaseRetry then min (fails v k + 1) u32_max else 0)"

definition beat_wait :: "(nat \<Rightarrow> lease_keepalive) \<Rightarrow> (nat \<Rightarrow> nat) \<Rightarrow> duration \<Rightarrow> nat \<Rightarrow> duration" where
  "beat_wait v rolls every k =
     (if fails v k = 0 then every
      else full_jitter (exponential_backoff (fails v k) RETRY_FIRST (every div 4)) (rolls k))"

definition beats :: "(nat \<Rightarrow> lease_keepalive) \<Rightarrow> nat \<Rightarrow> nat \<Rightarrow> nat" where
  "beats v k ends = hd (filter (\<lambda>i. v i = LeaseAbort) [Suc k..<Suc ends] @ [ends])"

lemma beats_step:
  assumes "k < ends"
  shows "beats v k ends = (if v (Suc k) = LeaseAbort then Suc k else beats v (Suc k) ends)"
proof -
  have "[Suc k..<Suc ends] = Suc k # [Suc (Suc k)..<Suc ends]"
    using assms by (simp add: upt_conv_Cons del: upt_Suc)
  then show ?thesis by (simp add: beats_def del: upt_Suc)
qed

lemma beats_range: "k \<le> ends \<Longrightarrow> k \<le> beats v k ends \<and> beats v k ends \<le> ends"
proof (induction "ends - k" arbitrary: k)
  case 0
  then show ?case by (simp add: beats_def)
next
  case (Suc d)
  then have "k < ends" "Suc k \<le> beats v (Suc k) ends \<and> beats v (Suc k) ends \<le> ends"
    using Suc.hyps(1) [of "Suc k"] by auto
  then show ?case by (auto simp: beats_step)
qed

lemma heartbeat_loop_step:
  assumes api: "api = scripted_api cl hb rc sub" and v: "v = keepalive_verdict hb rc"
    and "turn w = k" "wait = beat_wait v rolls every k" "failures = fails v k"
  shows "heartbeat_loop api (scripted_recv ends) (scripted_roll rolls) job_id every wait failures w =
    (let w1 = w\<lparr>naps := naps w @ [beat_wait v rolls every k]\<rparr> in
     if k \<ge> ends then Some (False, w1)
     else if v (Suc k) = LeaseAbort then Some (True, w1\<lparr>turn := Suc k\<rparr>)
     else heartbeat_loop api (scripted_recv ends) (scripted_roll rolls) job_id every
       (beat_wait v rolls every (Suc k)) (fails v (Suc k)) (w1\<lparr>turn := Suc k\<rparr>))"
proof -
  have u: "u32_max \<noteq> 0" by (simp add: u32_max_def)
  show ?thesis
    using assms(3-5) u
    by (subst heartbeat_loop.simps)
      (cases "v (Suc k)"; auto simp: api keepalive_scripted scripted_recv_def scripted_roll_def jittered_def
        beat_wait_def v min_def)
qed

lemma heartbeat_loop_run:
  assumes api: "api = scripted_api cl hb rc sub" and v: "v = keepalive_verdict hb rc"
    and "k \<le> ends" "turn w = k"
  shows "heartbeat_loop api (scripted_recv ends) (scripted_roll rolls) job_id every
      (beat_wait v rolls every k) (fails v k) w =
    (let n = beats v k ends; lost = (\<exists>i\<in>{Suc k..ends}. v i = LeaseAbort) in
     Some (lost, w\<lparr>turn := n,
       naps := naps w @ map (beat_wait v rolls every) ([k..<n] @ (if lost then [] else [n]))\<rparr>))"
  using assms(3-)
proof (induction "ends - k" arbitrary: k w)
  case 0
  then have k: "k = ends" by simp
  then show ?case
    using 0 by (subst heartbeat_loop_step [OF api v]) (auto simp: Let_def beats_def)
next
  case (Suc d)
  then have lt: "k < ends" by simp
  let ?w1 = "w\<lparr>naps := naps w @ [beat_wait v rolls every k]\<rparr>"
  show ?case
  proof (cases "v (Suc k) = LeaseAbort")
    case True
    then have "\<exists>i\<in>{Suc k..ends}. v i = LeaseAbort" using lt by (intro bexI [of _ "Suc k"]) auto
    then show ?thesis
      using True lt Suc.prems
      by (subst heartbeat_loop_step [OF api v]) (auto simp: Let_def beats_step)
  next
    case False
    let ?n = "beats v (Suc k) ends"
    have "Suc k \<le> ?n" using beats_range [of "Suc k" ends v] lt by simp
    then have up: "[k..<?n] = k # [Suc k..<?n]" by (simp add: upt_conv_Cons)
    have range: "{Suc k..ends} = insert (Suc k) {Suc (Suc k)..ends}" using lt by auto
    have lost: "(\<exists>i\<in>{Suc k..ends}. v i = LeaseAbort) \<longleftrightarrow> (\<exists>i\<in>{Suc (Suc k)..ends}. v i = LeaseAbort)"
      unfolding range using False by blast
    have "heartbeat_loop api (scripted_recv ends) (scripted_roll rolls) job_id every
        (beat_wait v rolls every (Suc k)) (fails v (Suc k)) (?w1\<lparr>turn := Suc k\<rparr>) =
      (let n = ?n; lost = (\<exists>i\<in>{Suc (Suc k)..ends}. v i = LeaseAbort) in
       Some (lost, ?w1\<lparr>turn := n,
         naps := naps ?w1 @ map (beat_wait v rolls every) ([Suc k..<n] @ (if lost then [] else [n]))\<rparr>))"
      using Suc.hyps(1) [of "Suc k" "?w1\<lparr>turn := Suc k\<rparr>"] Suc.hyps(2) lt by (simp add: Let_def)
    then show ?thesis
      unfolding heartbeat_loop_step [OF api v Suc.prems(2) refl refl]
      using False lt by (simp add: Let_def beats_step up lost)
  qed
qed


text \<open>C37. The heartbeat thread of a run, whatever the server answers and however long the run: it ends,
  it flags the lease as lost exactly when some beat of the run was answered with an abort (409, or a
  404 whose reclaim is refused), at the first such beat, and it waited the period before every beat,
  but after the \<open>n\<close>-th retry in a row a jittered \<open>n\<close>-th backoff, at most a quarter of the period.
\<close>

theorem heartbeat_exact:
  "(let v = keepalive_verdict hb rc;
        n = beats v 0 ends;
        lost = (\<exists>i\<in>{1..ends}. v i = LeaseAbort)
    in heartbeat_thread (scripted_api cl hb rc sub) (scripted_recv ends) (scripted_roll rolls) job_id every
         \<lparr>turn = 0, naps = []\<rparr>
       = Some (lost, \<lparr>turn = n, naps = map (beat_wait v rolls every) ([0..<n] @ (if lost then [] else [n]))\<rparr>)
     \<and> n \<le> ends \<and> (lost \<longleftrightarrow> v n = LeaseAbort \<and> 1 \<le> n))"
proof -
  define v where "v = keepalive_verdict hb rc"
  have "(\<exists>i\<in>{Suc k..ends}. v i = LeaseAbort) \<longleftrightarrow> v (beats v k ends) = LeaseAbort \<and> Suc k \<le> beats v k ends"
    if "k \<le> ends" for k
    using that
  proof (induction "ends - k" arbitrary: k)
    case 0
    then show ?case by (simp add: beats_def)
  next
    case (Suc d)
    then have lt: "k < ends" by simp
    have range: "{Suc k..ends} = insert (Suc k) {Suc (Suc k)..ends}" using lt by auto
    have "Suc k \<le> beats v (Suc k) ends" using beats_range [of "Suc k" ends v] lt by simp
    moreover have "(\<exists>i\<in>{Suc (Suc k)..ends}. v i = LeaseAbort)
        \<longleftrightarrow> v (beats v (Suc k) ends) = LeaseAbort \<and> Suc (Suc k) \<le> beats v (Suc k) ends"
      using Suc.hyps lt by (intro Suc.hyps(1)) auto
    ultimately show ?case
      unfolding range using lt by (cases "beats v (Suc k) ends = Suc k") (auto simp: beats_step)
  qed
  from this [of 0] have lost: "(\<exists>i\<in>{Suc 0..ends}. v i = LeaseAbort)
      \<longleftrightarrow> v (beats v 0 ends) = LeaseAbort \<and> Suc 0 \<le> beats v 0 ends" by simp
  have "beat_wait v rolls every 0 = every" "fails v 0 = 0" by (simp_all add: beat_wait_def)
  then have "heartbeat_thread (scripted_api cl hb rc sub) (scripted_recv ends) (scripted_roll rolls) job_id every
         \<lparr>turn = 0, naps = []\<rparr>
      = (let n = beats v 0 ends; lost = (\<exists>i\<in>{Suc 0..ends}. v i = LeaseAbort) in
         Some (lost, \<lparr>turn = n, naps = map (beat_wait v rolls every) ([0..<n] @ (if lost then [] else [n]))\<rparr>))"
    using heartbeat_loop_run [OF refl v_def, of 0 ends "\<lparr>turn = 0, naps = []\<rparr>" cl sub rolls job_id every]
    by (simp add: heartbeat_thread_def Let_def)
  then show ?thesis
    using lost beats_range [of 0 ends v] by (simp add: Let_def flip: v_def)
qed







end
