(* ===== verification/In_Flight.thy ===== *)
theory In_Flight
  imports Entry_Store "HOL-Library.Countable"
begin

text \<open>
  The durable record of the job a worker is running,
  \<open>pipette-cli/src/client/worker/in_flight.rs\<close>: the decision on a claim that hands a job back, the
  marker file, and the run that keeps it. The run, its heartbeat thread and the teardown of a forced
  exit interleave; each takes the \<open>closing\<close> lock for as long as it touches the marker, so a step of
  the transition system is one such critical section. \<open>serde_json\<close> is a parameter (\<open>render\<close>,
  \<open>parse\<close>); a point in time is a number of nanoseconds.
\<close>

section \<open>The marker and the decision\<close>

definition HEARTBEAT :: duration where "HEARTBEAT = from_secs 30"

definition REBOOT_WINDOW :: int where "REBOOT_WINDOW = 90 * 1000000000"

text \<open>The latest \<open>OffsetDateTime\<close>, the end of the year 9999.\<close>

definition LATEST :: int where "LATEST = 253402300800 * 1000000000 - 1"

record in_flight =
  if_job_id :: string
  if_boot_id :: "string option"
  if_started_at :: string
  alive_at :: "int option"

record boot =
  boot_ident :: "string option"
  boot_start :: "int option"

definition new_marker :: "string \<Rightarrow> string option \<Rightarrow> int \<Rightarrow> string option \<Rightarrow> in_flight" where
  "new_marker job_id boot_id now formatted_now =
     \<lparr>if_job_id = job_id, if_boot_id = boot_id,
      if_started_at = (case formatted_now of Some ts \<Rightarrow> ts | None \<Rightarrow> ''unknown-time''),
      alive_at = Some now\<rparr>"

datatype claim_decision =
  Run
| StaleJob string
| SameBoot
| EarlierBoot
| Rebooted string string

definition checked_add_time :: "int \<Rightarrow> int \<Rightarrow> int option" where
  "checked_add_time t d = (if t + d \<le> LATEST then Some (t + d) else None)"

definition decide :: "in_flight option \<Rightarrow> string \<Rightarrow> boot \<Rightarrow> claim_decision" where
  "decide marker job_id b =
     (case marker of
        None \<Rightarrow> Run
      | Some m \<Rightarrow>
          if if_job_id m \<noteq> job_id then StaleJob (if_job_id m)
          else (case (if_boot_id m, boot_ident b) of
                  (Some old, Some current) \<Rightarrow>
                    if old \<noteq> current then
                      (case (Option.bind (alive_at m) (\<lambda>t. checked_add_time t REBOOT_WINDOW), boot_start b) of
                         (Some latest, Some started) \<Rightarrow>
                           if started \<le> latest then Rebooted old current else EarlierBoot
                       | _ \<Rightarrow> EarlierBoot)
                    else SameBoot
                | _ \<Rightarrow> SameBoot))"

text \<open>The boot identifier as the kernel's file reads, or the error of reading it.\<close>

definition boot_id :: "io_kind + string \<Rightarrow> string option" where
  "boot_id read =
     (case read of
        Inl _ \<Rightarrow> None
      | Inr text_read \<Rightarrow> (let ident = trim text_read in if ident = [] then None else Some ident))"

section \<open>The marker file\<close>

definition marker_path :: "fs_path \<Rightarrow> fs_path" where
  "marker_path dir = dir @ [''in-flight.json'']"

datatype marker_error = MarkerIo io_kind | MarkerParse string | MarkerRender string | MarkerSync entry_error

definition marker_read ::
  "(string \<Rightarrow> string + in_flight) \<Rightarrow> fs_path \<Rightarrow> fs_state \<Rightarrow> marker_error + in_flight option" where
  "marker_read parse dir s =
     (case fs_read s (marker_path dir) of
        Inl k \<Rightarrow> if k = NotFound then Inr None else Inl (MarkerIo k)
      | Inr bs \<Rightarrow> (case parse bs of Inl e \<Rightarrow> Inl (MarkerParse e) | Inr m \<Rightarrow> Inr (Some m)))"

definition marker_temp :: "fs_path \<Rightarrow> fs_state \<Rightarrow> fs_path" where
  "marker_temp dir s = dir @ [''.in-flight-'' @ uuids s (drawn s) @ ''.tmp'']"

text \<open>The closure of the write: create the temporary file, write it, sync it, rename it.\<close>

definition marker_fill ::
  "(in_flight \<Rightarrow> string + string) \<Rightarrow> fs_path \<Rightarrow> fs_path \<Rightarrow> in_flight \<Rightarrow> fs_state \<Rightarrow> (marker_error + unit) \<times> fs_state"
where
  "marker_fill render dir temp m s =
     (case fs_create_new temp s of
        (Inl k, s1) \<Rightarrow> (Inl (MarkerIo k), s1)
      | (Inr _, s1) \<Rightarrow>
          (case render m of
             Inl e \<Rightarrow> (Inl (MarkerRender e), s1)
           | Inr bs \<Rightarrow>
               (case fs_write_file temp (bs @ [CHR 0x0A]) s1 of
                  (Inl k, s2) \<Rightarrow> (Inl (MarkerIo k), s2)
                | (Inr _, s2) \<Rightarrow>
                    (case sync_file temp s2 of
                       (Inl k, s3) \<Rightarrow> (Inl (MarkerIo k), s3)
                     | (Inr _, s3) \<Rightarrow>
                         (case fs_rename temp (marker_path dir) s3 of
                            (Inl k, s4) \<Rightarrow> (Inl (MarkerIo k), s4)
                          | (Inr _, s4) \<Rightarrow>
                              (case sync_dir dir s4 of
                                 (Inl e, s5) \<Rightarrow> (Inl (MarkerSync e), s5)
                               | (Inr _, s5) \<Rightarrow> (Inr (), s5)))))))"

definition marker_write ::
  "(in_flight \<Rightarrow> string + string) \<Rightarrow> fs_path \<Rightarrow> in_flight \<Rightarrow> fs_state \<Rightarrow> (marker_error + unit) \<times> fs_state" where
  "marker_write render dir m s =
     (case fs_create_dir_all dir s of
        (Inl k, s1) \<Rightarrow> (Inl (MarkerIo k), s1)
      | (Inr _, s1) \<Rightarrow>
          (let temp = marker_temp dir s1;
               (r, s2) = marker_fill render dir temp m (s1\<lparr>drawn := Suc (drawn s1)\<rparr>)
           in (r, case r of Inl _ \<Rightarrow> snd (fs_remove_file temp s2) | Inr _ \<Rightarrow> s2)))"

definition marker_remove :: "fs_path \<Rightarrow> fs_state \<Rightarrow> (marker_error + unit) \<times> fs_state" where
  "marker_remove dir s =
     (case fs_remove_file (marker_path dir) s of
        (Inr _, s1) \<Rightarrow>
          (case sync_dir dir s1 of
             (Inl e, s2) \<Rightarrow> (Inl (MarkerSync e), s2)
           | (Inr _, s2) \<Rightarrow> (Inr (), s2))
      | (Inl k, s1) \<Rightarrow> (if k = NotFound then Inr () else Inl (MarkerIo k), s1))"

section \<open>The run that keeps the marker\<close>

text \<open>
  \<open>Refused\<close>: the run did not start. \<open>Written\<close>: the marker is written, the heartbeat thread not yet
  spawned. \<open>Joined\<close>: the dropped run has joined its thread and still has to remove the marker.
\<close>

datatype run_phase = Registered | Refused | Written | Running | Joined | Ended

datatype beat_phase = NoThread | Beating | BeatDone

record run_state =
  disk :: fs_state
  closing :: bool
  stop_flag :: bool
  torn :: bool
  run_phase :: run_phase
  beat_phase :: beat_phase

definition registered :: "fs_state \<Rightarrow> run_state" where
  "registered d = \<lparr>disk = d, closing = False, stop_flag = False, torn = False,
     run_phase = Registered, beat_phase = NoThread\<rparr>"

text \<open>The critical sections.\<close>

definition teardown :: "fs_path \<Rightarrow> run_state \<Rightarrow> run_state" where
  "teardown dir s = s\<lparr>closing := True, torn := True, disk := snd (marker_remove dir (disk s))\<rparr>"

definition start_write ::
  "(in_flight \<Rightarrow> string + string) \<Rightarrow> fs_path \<Rightarrow> in_flight \<Rightarrow> run_state \<Rightarrow> run_state" where
  "start_write render dir m s =
     (if closing s \<or> stop_flag s then s\<lparr>run_phase := Refused\<rparr>
      else (case marker_write render dir m (disk s) of
              (Inl _, d) \<Rightarrow> s\<lparr>disk := d, run_phase := Refused\<rparr>
            | (Inr _, d) \<Rightarrow> s\<lparr>disk := d, run_phase := Written\<rparr>))"

definition beat_turn ::
  "(in_flight \<Rightarrow> string + string) \<Rightarrow> fs_path \<Rightarrow> in_flight \<Rightarrow> bool \<Rightarrow> int \<Rightarrow> run_state \<Rightarrow> run_state" where
  "beat_turn render dir m due now s =
     (if closing s then s\<lparr>beat_phase := BeatDone\<rparr>
      else if stop_flag s
      then s\<lparr>closing := True, disk := snd (marker_remove dir (disk s)), beat_phase := BeatDone\<rparr>
      else if \<not> due then s
      else s\<lparr>disk := snd (marker_write render dir (m\<lparr>alive_at := Some now\<rparr>) (disk s))\<rparr>)"

definition drop_join :: "run_state \<Rightarrow> run_state" where
  "drop_join s = s\<lparr>run_phase := Joined, beat_phase := BeatDone\<rparr>"

definition drop_remove :: "fs_path \<Rightarrow> run_state \<Rightarrow> run_state" where
  "drop_remove dir s = s\<lparr>run_phase := Ended, disk := snd (marker_remove dir (disk s))\<rparr>"

inductive run_step ::
  "(in_flight \<Rightarrow> string + string) \<Rightarrow> fs_path \<Rightarrow> in_flight \<Rightarrow> run_state \<Rightarrow> run_state \<Rightarrow> bool"
  for render dir m
where
  signal: "run_step render dir m s (s\<lparr>stop_flag := True\<rparr>)"
| teardown: "\<not> torn s \<Longrightarrow> run_phase s \<notin> {Refused, Ended} \<Longrightarrow> run_step render dir m s (teardown dir s)"
| start: "run_phase s = Registered \<Longrightarrow> run_step render dir m s (start_write render dir m s)"
| spawn: "run_phase s = Written
    \<Longrightarrow> run_step render dir m s (s\<lparr>run_phase := Running, beat_phase := Beating\<rparr>)"
| spawn_failed: "run_phase s = Written \<Longrightarrow> run_step render dir m s (drop_join s)"
| beat: "beat_phase s = Beating \<Longrightarrow> run_step render dir m s (beat_turn render dir m due now s)"
| join: "run_phase s = Running \<Longrightarrow> run_step render dir m s (drop_join s)"
| remove: "run_phase s = Joined \<Longrightarrow> run_step render dir m s (drop_remove dir s)"

abbreviation run_steps ::
  "(in_flight \<Rightarrow> string + string) \<Rightarrow> fs_path \<Rightarrow> in_flight \<Rightarrow> run_state \<Rightarrow> run_state \<Rightarrow> bool" where
  "run_steps render dir m \<equiv> (run_step render dir m)\<^sup>*\<^sup>*"

section \<open>What touching the marker does\<close>

lemma marker_remove_cases:
  "lookup (snd (marker_remove dir s)) (marker_path dir) \<in> {lookup s (marker_path dir), None}"
proof -
  obtain r s1 where rm: "fs_remove_file (marker_path dir) s = (r, s1)" by fastforce
  have s1: "lookup s1 (marker_path dir) \<in> {lookup s (marker_path dir), None}"
    using effect_remove_file [of "marker_path dir" "\<lambda>_. False" s] rm by (auto simp: effect_def)
  have "lookup (snd (sync_dir dir s1)) (marker_path dir) = lookup s1 (marker_path dir)"
    using effect_same [OF effect_sync_dir [of "\<lambda>_. False" dir s1]] by (simp add: marker_path_def)
  then show ?thesis
    using s1 rm by (cases r; cases "sync_dir dir s1") (auto simp: marker_remove_def split: sum.splits)
qed

lemma marker_remove_faults: "faults (snd (marker_remove dir s)) = faults s"
proof -
  obtain r s1 where rm: "fs_remove_file (marker_path dir) s = (r, s1)" by fastforce
  have "faults s1 = faults s"
    using effect_env(2) [OF effect_remove_file [of "marker_path dir" "\<lambda>_. False" s]] rm by simp
  moreover have "faults (snd (sync_dir dir s1)) = faults s1"
    by (rule effect_env(2) [OF effect_sync_dir [of "\<lambda>_. False"]])
  ultimately show ?thesis
    using rm by (cases r; cases "sync_dir dir s1") (auto simp: marker_remove_def split: sum.splits)
qed

definition no_dir_at :: "fs_state \<Rightarrow> fs_path \<Rightarrow> bool" where
  "no_dir_at s p \<longleftrightarrow> (\<forall>n. lookup s p = Some n \<longrightarrow> \<not> is_dir_node n)"

lemma marker_remove_gone:
  assumes "faults s OpRemove (marker_path dir) = None" "no_dir_at s (marker_path dir)"
  shows "lookup (snd (marker_remove dir s)) (marker_path dir) = None"
proof (cases "lookup s (marker_path dir)")
  case None
  then show ?thesis using marker_remove_cases [of dir s] by auto
next
  case (Some n)
  define s1 where "s1 = s\<lparr>nodes := filter (\<lambda>(q, _). q \<noteq> marker_path dir) (nodes s)\<rparr>"
  have rm: "fs_remove_file (marker_path dir) s = (Inr (), s1)"
    using Some assms by (simp add: fs_remove_file_def s1_def no_dir_at_def)
  have "lookup s1 (marker_path dir) = None"
    by (simp add: s1_def map_of_filter_key [of "\<lambda>q. q \<noteq> marker_path dir"])
  moreover have "lookup (snd (sync_dir dir s1)) (marker_path dir) = lookup s1 (marker_path dir)"
    using effect_same [OF effect_sync_dir [of "\<lambda>_. False" dir s1]] by (simp add: marker_path_def)
  ultimately show ?thesis
    using rm by (cases "sync_dir dir s1") (auto simp: marker_remove_def split: sum.splits)
qed

text \<open>\<open>holds render dir m s\<close>: the marker on disk is \<open>m\<close>, whole.\<close>

definition holds :: "(in_flight \<Rightarrow> string + string) \<Rightarrow> fs_path \<Rightarrow> in_flight \<Rightarrow> fs_state \<Rightarrow> bool" where
  "holds render dir m s \<longleftrightarrow>
     (\<exists>bs n. render m = Inr bs \<and> lookup s (marker_path dir) = Some n \<and> contents n = bs @ [CHR 0x0A]
        \<and> \<not> is_dir_node n)"

lemma effect_faults_snd: "effect D N s (snd (f, s')) \<Longrightarrow> faults s' = faults s"
  by (simp add: effect_def)

lemma marker_fill_cases:
  assumes "marker_fill render dir temp m s = (r, s')" "temp = dir @ [x]" "x \<noteq> ''in-flight.json''"
  shows "faults s' = faults s \<and>
    (lookup s' (marker_path dir) = lookup s (marker_path dir) \<and> r \<noteq> Inr () \<or> holds render dir m s')"
proof -
  let ?P = "marker_path dir"
  have ne: "temp \<noteq> ?P" "\<not> prefix ?P temp" "\<not> prefix temp ?P"
    using assms(2,3) by (auto simp: marker_path_def)
  obtain r1 s1 where 1: "fs_create_new temp s = (r1, s1)" by fastforce
  have e1: "faults s1 = faults s" "lookup s1 ?P = lookup s ?P"
    using effect_create_new [of "\<lambda>_. False" temp s] ne(1) by (auto simp: 1 dest: effect_env effect_same)
  show ?thesis
  proof (cases "\<exists>u bs. r1 = Inr u \<and> render m = Inr bs")
    case False
    then show ?thesis using assms(1) 1 e1 by (auto simp: marker_fill_def split: sum.splits)
  next
    case True
    then obtain u bs where b: "r1 = Inr u" "render m = Inr bs" by blast
    obtain r2 s2 where 2: "fs_write_file temp (bs @ [CHR 0x0A]) s1 = (r2, s2)" by fastforce
    have e2: "faults s2 = faults s" "lookup s2 ?P = lookup s ?P"
      using effect_write_file [of "\<lambda>_. False" temp s1 "bs @ [CHR 0x0A]"] ne(1) e1
      by (auto simp: 2 dest: effect_env effect_same)
    obtain r3 s3 where 3: "sync_file temp s2 = (r3, s3)" by fastforce
    have e3: "faults s3 = faults s" "lookup s3 ?P = lookup s ?P"
      using effect_sync_file [of "\<lambda>_. False" temp s2] ne(1) e2 by (auto simp: 3 dest: effect_env effect_same)
    obtain r4 s4 where 4: "fs_rename temp ?P s3 = (r4, s4)" by fastforce
    have f4: "faults s4 = faults s" using effect_rename [of temp ?P s3] e3 by (auto simp: 4 dest: effect_env)
    obtain r5 s5 where 5: "sync_dir dir s4 = (r5, s5)" by fastforce
    have e5: "faults s5 = faults s" "lookup s5 ?P = lookup s4 ?P"
      using effect_sync_dir [of "\<lambda>_. False" dir s4] f4
      by (auto simp: 5 marker_path_def dest: effect_env effect_same)
    have new: "holds render dir m s5" if "r2 = Inr v2" "r3 = Inr v3" "r4 = Inr v4" for v2 v3 v4
    proof -
      have "lookup s2 temp = Some (fresh_file\<lparr>contents := bs @ [CHR 0x0A]\<rparr>)"
        using 2 that(1) by (auto simp: fs_write_file_def fs_open_or_create_def lookup_set_node lookup_add_node
            split: option.splits if_splits prod.splits sum.splits)
      then have "\<exists>n. lookup s3 temp = Some n \<and> contents n = bs @ [CHR 0x0A] \<and> \<not> is_dir_node n"
        using 3 that(2) by (auto simp: sync_file_def fs_sync_def lookup_set_node fresh_file_def
            split: option.splits if_splits)
      moreover have "lookup s4 ?P = lookup s3 temp" using 4 that(3) lookup_fs_rename [OF _ ne(2)] by metis
      ultimately show ?thesis using b(2) e5(2) by (auto simp: holds_def)
    qed
    have old: "lookup s4 ?P = lookup s ?P" if "r4 = Inl k" for k
      using 4 that e3(2) by (auto simp: fs_rename_def split: option.splits if_splits)
    have "(r, s') = (case r2 of Inl k \<Rightarrow> (Inl (MarkerIo k), s2) | Inr _ \<Rightarrow>
        (case r3 of Inl k \<Rightarrow> (Inl (MarkerIo k), s3) | Inr _ \<Rightarrow>
        (case r4 of Inl k \<Rightarrow> (Inl (MarkerIo k), s4) | Inr _ \<Rightarrow>
        (case r5 of Inl e \<Rightarrow> (Inl (MarkerSync e), s5) | Inr _ \<Rightarrow> (Inr (), s5)))))"
      using assms(1) by (simp add: marker_fill_def 1 b 2 3 4 5 split: sum.splits)
    then show ?thesis
      using new old e2 e3 f4 e5 by (auto split: sum.splits)
  qed
qed


lemma marker_write_cases:
  assumes "marker_write render dir m s = (r, s')"
  shows "faults s' = faults s \<and>
    (lookup s' (marker_path dir) = lookup s (marker_path dir) \<and> r \<noteq> Inr () \<or> holds render dir m s')"
proof -
  let ?P = "marker_path dir"
  obtain r0 s0 where 0: "fs_create_dir_all dir s = (r0, s0)" by fastforce
  have "\<not> prefix ?P dir" by (auto simp: marker_path_def prefix_def)
  then have e0: "faults s0 = faults s" "lookup s0 ?P = lookup s ?P"
    using effect_create_dir_all [of "\<lambda>_. False" dir s] by (auto simp: 0 dest: effect_env effect_same)
  define t where "t = marker_temp dir s0"
  have t: "t = dir @ [''.in-flight-'' @ uuids s0 (drawn s0) @ ''.tmp'']" by (simp add: t_def marker_temp_def)
  then have ne: "t \<noteq> ?P" by (simp add: marker_path_def)
  obtain r1 s1 where 1: "marker_fill render dir t m (s0\<lparr>drawn := Suc (drawn s0)\<rparr>) = (r1, s1)" by fastforce
  have c1: "faults s1 = faults s \<and> (lookup s1 ?P = lookup s ?P \<and> r1 \<noteq> Inr () \<or> holds render dir m s1)"
    using marker_fill_cases [OF 1 t] e0 by simp
  have rm: "faults (snd (fs_remove_file t s1)) = faults s1" "lookup (snd (fs_remove_file t s1)) ?P = lookup s1 ?P"
    using effect_remove_file [of t "\<lambda>_. False" s1] ne by (auto dest: effect_env effect_same)
  show ?thesis
    using assms c1 rm e0
    by (cases r0; cases r1) (auto simp: marker_write_def 0 1 Let_def holds_def simp flip: t_def)
qed

section \<open>Invariants of a run\<close>

lemma run_step_faults: "run_step render dir m s s' \<Longrightarrow> faults (disk s') = faults (disk s)"
proof (induction rule: run_step.cases)
  case (start s)
  then show ?case
    by (cases "marker_write render dir m (disk s)")
      (auto simp: start_write_def split: sum.splits dest: marker_write_cases)
next
  case (beat s due now)
  then show ?case
    by (cases "marker_write render dir (m\<lparr>alive_at := Some now\<rparr>) (disk s)")
      (auto simp: beat_turn_def marker_remove_faults dest: marker_write_cases)
qed (auto simp: teardown_def drop_join_def drop_remove_def marker_remove_faults)

text \<open>Once the marker is closed, it is only ever removed.\<close>

lemma run_step_closed:
  assumes "run_step render dir m s s'" "closing s"
  shows "closing s' \<and> lookup (disk s') (marker_path dir) \<in> {lookup (disk s) (marker_path dir), None}"
  using assms
proof (cases rule: run_step.cases)
  case start
  then show ?thesis using assms(2) by (simp add: start_write_def)
next
  case (beat due now)
  then show ?thesis using assms(2) by (simp add: beat_turn_def)
qed (use marker_remove_cases in \<open>auto simp: teardown_def drop_join_def drop_remove_def\<close>)

lemma run_steps_closed:
  assumes "run_steps render dir m s s'" "closing s"
  shows "closing s' \<and> lookup (disk s') (marker_path dir) \<in> {lookup (disk s) (marker_path dir), None}"
  using assms
proof (induction rule: rtranclp_induct)
  case (step y z)
  then show ?case using run_step_closed [OF step(2)] by (metis insert_iff singletonD)
qed simp

text \<open>What the phases say of the marker on disk.\<close>

definition kept :: "(in_flight \<Rightarrow> string + string) \<Rightarrow> fs_path \<Rightarrow> in_flight \<Rightarrow> run_state \<Rightarrow> bool" where
  "kept render dir m s \<longleftrightarrow> (\<exists>t. holds render dir (m\<lparr>alive_at := t\<rparr>) (disk s))"

definition run_inv :: "(in_flight \<Rightarrow> string + string) \<Rightarrow> fs_path \<Rightarrow> in_flight \<Rightarrow> run_state \<Rightarrow> bool" where
  "run_inv render dir m s \<longleftrightarrow>
     (run_phase s \<in> {Written, Running, Joined} \<longrightarrow>
        (\<not> closing s \<longrightarrow> kept render dir m s) \<and> no_dir_at (disk s) (marker_path dir)) \<and>
     (run_phase s = Ended \<longrightarrow>
        faults (disk s) OpRemove (marker_path dir) = None \<longrightarrow> lookup (disk s) (marker_path dir) = None) \<and>
     (beat_phase s = Beating \<longrightarrow> run_phase s = Running)"

lemma holds_no_dir: "holds render dir m s \<Longrightarrow> no_dir_at s (marker_path dir)"
  by (auto simp: holds_def no_dir_at_def)

lemma marker_remove_no_dir:
  "no_dir_at s (marker_path dir) \<Longrightarrow> no_dir_at (snd (marker_remove dir s)) (marker_path dir)"
  using marker_remove_cases [of dir s] by (auto simp: no_dir_at_def)

lemma marker_write_kept:
  assumes "kept render dir m s" "marker_write render dir (m\<lparr>alive_at := t\<rparr>) (disk s) = (r, d)"
  shows "kept render dir m (s\<lparr>disk := d\<rparr>) \<and> no_dir_at d (marker_path dir)"
proof -
  from marker_write_cases [OF assms(2)] assms(1) have "kept render dir m (s\<lparr>disk := d\<rparr>)"
    by (auto simp: kept_def holds_def)
  then show ?thesis using holds_no_dir by (auto simp: kept_def)
qed

lemma run_inv_step:
  assumes "run_step render dir m s s'" "run_inv render dir m s"
  shows "run_inv render dir m s'"
  using assms(1)
proof (cases rule: run_step.cases)
  case teardown
  then show ?thesis
    using assms(2) marker_remove_no_dir by (auto simp: run_inv_def teardown_def)
next
  case start
  obtain r d where w: "marker_write render dir m (disk s) = (r, d)" by fastforce
  have "holds render dir m d" if "r = Inr u" for u using marker_write_cases [OF w] that by auto
  then have "kept render dir m (s\<lparr>disk := d, run_phase := Written\<rparr>) \<and> no_dir_at d (marker_path dir)"
    if "r = Inr u" for u
    using that holds_no_dir by (auto simp: kept_def intro!: exI [of _ "alive_at m"])
  then show ?thesis
    using assms(2) start by (auto simp: run_inv_def start_write_def w split: sum.splits)
next
  case (beat due now)
  obtain r d where w: "marker_write render dir (m\<lparr>alive_at := Some now\<rparr>) (disk s) = (r, d)" by fastforce
  show ?thesis
    using assms(2) beat w marker_write_kept [of render dir m s "Some now" r d] marker_remove_no_dir
    by (auto simp: run_inv_def beat_turn_def)
next
  case remove
  then show ?thesis
    using assms(2) marker_remove_gone [of "disk s" dir] marker_remove_faults [of dir "disk s"]
    by (auto simp: run_inv_def drop_remove_def)
qed (use assms(2) in \<open>auto simp: run_inv_def drop_join_def kept_def\<close>)

lemma run_inv_reachable: "run_steps render dir m (registered d) s \<Longrightarrow> run_inv render dir m s"
proof (induction rule: rtranclp_induct)
  case base
  then show ?case by (simp add: run_inv_def registered_def)
next
  case (step s s')
  then show ?case using run_inv_step by blast
qed

lemma run_steps_faults: "run_steps render dir m s s' \<Longrightarrow> faults (disk s') = faults (disk s)"
  by (induction rule: rtranclp_induct) (simp_all add: run_step_faults)


section \<open>Properties\<close>

text \<open>C13. Once a forced exit, or a stop the heartbeat thread saw, has closed the marker, it is never
  written again: whatever the run, the thread and the teardown do from then on, in any order and
  with any I/O fault, the marker is as it was then or gone.
\<close>

theorem closed_marker_never_written:
  assumes "run_steps render dir m s s'" "closing s"
  shows "lookup (disk s') (marker_path dir) \<in> {lookup (disk s) (marker_path dir), None}"
  using run_steps_closed [OF assms] by simp

text \<open>What the worker reads of the marker when it claims a job.\<close>

definition claimed_marker :: "marker_error + in_flight option \<Rightarrow> in_flight option" where
  "claimed_marker r = (case r of Inr marker \<Rightarrow> marker | Inl _ \<Rightarrow> None)"

text \<open>C7. An orderly end is never taken for a reboot: after a run that ended, in any interleaving with
  its heartbeats, signals and a teardown, and whatever I/O faults it met other than a refusal to
  remove the marker, the next claim of any job on any boot is run.
\<close>

theorem ended_run_is_no_reboot:
  assumes "run_steps render dir m (registered d) s" "run_phase s = Ended"
    and "faults d OpRemove (marker_path dir) = None"
  shows "decide (claimed_marker (marker_read parse dir (disk s))) job_id b = Run"
proof -
  have "lookup (disk s) (marker_path dir) = None"
    using run_inv_reachable [OF assms(1)] assms(2,3) run_steps_faults [OF assms(1)]
    by (simp add: run_inv_def registered_def)
  then show ?thesis
    by (auto simp: decide_def claimed_marker_def marker_read_def fs_read_def fs_open_def bind_result_def
        split: option.splits sum.splits)
qed


section \<open>Witnesses\<close>

text \<open>A small file system, and a rendering of the markers that differ in their time.\<close>

definition sample_disk :: fs_state where
  "sample_disk = \<lparr>nodes = [([''w''], fresh_dir)], held = \<lambda>_. False, faults = \<lambda>_ _. None,
     uuids = \<lambda>_. ''u'', drawn = 0\<rparr>"

definition sample_marker :: in_flight where
  "sample_marker = \<lparr>if_job_id = ''j'', if_boot_id = Some ''b1'', if_started_at = ''t'', alive_at = Some 5\<rparr>"

definition sample_render :: "in_flight \<Rightarrow> string + string" where
  "sample_render m = Inr (replicate (to_nat (alive_at m)) CHR ''x'')"

definition sample_parse :: "string \<Rightarrow> string + in_flight" where
  "sample_parse s = Inr (sample_marker\<lparr>alive_at := from_nat (length s - 1)\<rparr>)"

definition sample_written :: run_state where
  "sample_written = start_write sample_render [''w''] sample_marker (registered sample_disk)"


lemma sample_write:
  "\<exists>d'. marker_write sample_render [''w''] sample_marker sample_disk = (Inr (), d')"
  by (simp add: marker_write_def marker_fill_def marker_temp_def marker_path_def sample_disk_def
      sample_render_def fs_create_dir_all_def fresh_dir_def fs_create_new_def fs_open_or_create_def
      fs_write_file_def add_node_def set_node_def fresh_file_def sync_file_def fs_sync_def fs_rename_def
      move_under_def sync_dir_def fs_open_def io_at_def children_def)

lemma sample_written_state:
  "run_steps sample_render [''w''] sample_marker (registered sample_disk) sample_written"
  "run_phase sample_written = Written" "\<not> closing sample_written"
proof -
  obtain d' where w: "marker_write sample_render [''w''] sample_marker sample_disk = (Inr (), d')"
    using sample_write by blast
  show "run_steps sample_render [''w''] sample_marker (registered sample_disk) sample_written"
    unfolding sample_written_def
    by (rule r_into_rtranclp, rule run_step.start) (simp add: registered_def)
  show "run_phase sample_written = Written" "\<not> closing sample_written"
    by (simp_all add: sample_written_def start_write_def registered_def w)
qed

theorem closed_marker_never_written_witness:
  "lookup (disk (drop_join (teardown [''w''] sample_written))) (marker_path [''w''])
     \<in> {lookup (disk (teardown [''w''] sample_written)) (marker_path [''w'']), None}"
proof (rule closed_marker_never_written)
  show "run_steps sample_render [''w''] sample_marker (teardown [''w''] sample_written)
      (drop_join (teardown [''w''] sample_written))"
    by (rule r_into_rtranclp, rule run_step.spawn_failed)
      (simp add: teardown_def sample_written_state)
  show "closing (teardown [''w''] sample_written)" by (simp add: teardown_def)
qed

theorem ended_run_is_no_reboot_witness:
  "decide (claimed_marker (marker_read sample_parse [''w'']
     (disk (drop_remove [''w''] (drop_join sample_written))))) ''j''
     \<lparr>boot_ident = Some ''b2'', boot_start = Some 6\<rparr> = Run"
proof (rule ended_run_is_no_reboot)
  have "run_step sample_render [''w''] sample_marker sample_written (drop_join sample_written)"
    by (rule run_step.spawn_failed) (rule sample_written_state)
  moreover have "run_step sample_render [''w''] sample_marker (drop_join sample_written)
      (drop_remove [''w''] (drop_join sample_written))"
    by (rule run_step.remove) (simp add: drop_join_def)
  ultimately show "run_steps sample_render [''w''] sample_marker (registered sample_disk)
      (drop_remove [''w''] (drop_join sample_written))"
    using sample_written_state(1) by (meson rtranclp.rtrancl_into_rtrancl)
  show "run_phase (drop_remove [''w''] (drop_join sample_written)) = Ended" by (simp add: drop_remove_def)
  show "faults sample_disk OpRemove (marker_path [''w'']) = None" by (simp add: sample_disk_def)
qed


end
