(* ===== verification/Worker_Loop.thy ===== *)
theory Worker_Loop
  imports Lease_Protocol In_Flight Wait
begin

text \<open>
  The planner claim loop, \<open>pipette-cli/src/commands/worker.rs\<close>: claim a job, run it under a
  heartbeat, submit its outcome, repeat. The world is everything outside: the server
  (\<^typ>\<open>('w, 'j, 'b) client_api\<close>), the stop flag, the clock, the run of a cell, the in-flight marker
  and the local stores are operations on it with any answers. The heartbeat thread of a run is placed
  before the run: its calls and the run's touch different parts of the world, and the end of the run
  is what its channel answers.
\<close>

section \<open>What is claimed and what is reported\<close>

record claimed_job =
  cj_job_id :: string
  cj_benchmark_id :: string
  cj_time_window :: string
  cj_spec :: json

record failure_submission =
  fail_job_id :: string
  fail_benchmark_id :: string
  failure_reason :: string
  retriable :: bool
  fail_client_version :: string
  fail_device_time_ms :: "nat option"

datatype body = SuccessBody json | FailureBody failure_submission

definition message_error :: "string \<Rightarrow> anyhow_error" where
  "message_error t = \<lparr>err_chain = [\<lparr>link_cause = Message, link_text = t\<rparr>], err_layers = 1\<rparr>"

definition error_context :: "string \<Rightarrow> anyhow_error \<Rightarrow> anyhow_error" where
  "error_context t e =
     \<lparr>err_chain = \<lparr>link_cause = Message, link_text = t\<rparr> # err_chain e, err_layers = Suc (err_layers e)\<rparr>"

fun json_insert :: "string \<Rightarrow> json \<Rightarrow> (string \<times> json) list \<Rightarrow> (string \<times> json) list" where
  "json_insert k v [] = [(k, v)]"
| "json_insert k v ((k', v') # fs) = (if k' = k then (k, v) # fs else (k', v') # json_insert k v fs)"

fun attach_claim_to_success_payload :: "json \<Rightarrow> claimed_job \<Rightarrow> anyhow_error + json" where
  "attach_claim_to_success_payload (JObject fs) job =
     Inr (JObject (json_insert ''job_id'' (JString (cj_job_id job)) fs))"
| "attach_claim_to_success_payload _ job = Inl (message_error ''submission payload is not a JSON object'')"

section \<open>The worker's environment\<close>

datatype ('r, 'e) conditional_response = Modified 'r "'e option" | NotModified

record ('w, 'p, 'x, 'c, 'd, 'r) worker_env =
  we_api :: "('w, claimed_job, body) client_api"
  we_stop :: "'w \<Rightarrow> bool \<times> 'w"
  we_thread_sleep :: "duration \<Rightarrow> 'w \<Rightarrow> 'w"
  we_recv_timeout :: "duration \<Rightarrow> 'w \<Rightarrow> bool \<times> 'w"
  we_random :: "'w \<Rightarrow> nat \<times> 'w"
  we_now :: "'w \<Rightarrow> instant"
  we_utc :: "'w \<Rightarrow> int \<times> string option"
  we_boot :: boot
  we_marker_read :: "'w \<Rightarrow> (marker_error + in_flight option) \<times> 'w"
  we_marker_start :: "in_flight \<Rightarrow> 'w \<Rightarrow> (marker_error + unit) \<times> 'w"
  we_marker_drop :: "'w \<Rightarrow> 'w"
  we_marker_remove :: "'w \<Rightarrow> 'w"
  we_run_spec :: "claimed_job \<Rightarrow> 'w \<Rightarrow> (anyhow_error + unit) \<times> 'w"
  we_cached_benchmark :: "string \<Rightarrow> 'w \<Rightarrow> (anyhow_error + ('d \<times> string option) option) \<times> 'w"
  we_get_benchmark :: "string \<Rightarrow> string option \<Rightarrow> 'w \<Rightarrow> (mgmt_error + ('r, string) conditional_response) \<times> 'w"
  we_convert :: "'r \<Rightarrow> anyhow_error + 'd"
  we_cache_benchmark :: "'d \<Rightarrow> string option \<Rightarrow> 'w \<Rightarrow> 'w"
  we_run_cell :: "claimed_job \<Rightarrow> 'd \<Rightarrow> 'w \<Rightarrow> (anyhow_error + 'p \<times> 'x \<times> 'c option) \<times> 'w"
  we_set_device_time :: "nat \<Rightarrow> 'p \<Rightarrow> 'p"
  we_device_time :: "'p \<Rightarrow> nat option"
  we_to_value :: "'p \<Rightarrow> anyhow_error + json"
  we_store_result :: "string \<Rightarrow> 'p \<Rightarrow> 'x \<Rightarrow> 'w \<Rightarrow> 'w"
  we_finalize_checkpoint :: "'c option \<Rightarrow> 'w \<Rightarrow> 'w"
  we_client_version :: string
  we_display :: "mgmt_error \<Rightarrow> string"

definition worker_sleep ::
  "('w, 'p, 'x, 'c, 'd, 'r) worker_env \<Rightarrow> duration \<Rightarrow> 'w \<Rightarrow> (unit, unit) control_flow \<times> 'w" where
  "worker_sleep env tot w = sleep_cancellably tot (we_stop env) (we_thread_sleep env) w"

definition mgmt_as_error :: "('w, 'p, 'x, 'c, 'd, 'r) worker_env \<Rightarrow> mgmt_error \<Rightarrow> anyhow_error" where
  "mgmt_as_error env e = message_error (we_display env e)"

section \<open>Submitting an outcome\<close>

definition failure_from_claim ::
  "('w, 'p, 'x, 'c, 'd, 'r) worker_env \<Rightarrow> claimed_job \<Rightarrow> string \<Rightarrow> bool \<Rightarrow> nat option \<Rightarrow> failure_submission" where
  "failure_from_claim env job reason retry device_time =
     \<lparr>fail_job_id = cj_job_id job, fail_benchmark_id = cj_benchmark_id job, failure_reason = reason,
      retriable = retry, fail_client_version = we_client_version env, fail_device_time_ms = device_time\<rparr>"

definition submit_failure ::
  "('w, 'p, 'x, 'c, 'd, 'r) worker_env \<Rightarrow> claimed_job \<Rightarrow> string \<Rightarrow> bool \<Rightarrow> nat option \<Rightarrow> 'w
     \<Rightarrow> (anyhow_error + bool) \<times> 'w" where
  "submit_failure env job reason retry device_time w =
     post_completion (we_api env) (cj_job_id job)
       (FailureBody (failure_from_claim env job reason retry device_time)) (worker_sleep env) w"

definition report_refused_submission ::
  "('w, 'p, 'x, 'c, 'd, 'r) worker_env \<Rightarrow> claimed_job \<Rightarrow> mgmt_error \<Rightarrow> nat option \<Rightarrow> 'w
     \<Rightarrow> (anyhow_error + unit) \<times> 'w" where
  "report_refused_submission env job refused device_time w =
     (let reason = format_failure_reason (snd (we_utc env w))
            (''this run's result could not be submitted: '' @ we_display env refused);
          (r, w1) = submit_failure env job reason True device_time w
      in (bind_result r (\<lambda>_. Inr ()), w1))"

text \<open>The refusal a failed submit carries, if it is one.\<close>

definition refused_cause :: "anyhow_error \<Rightarrow> mgmt_error option" where
  "refused_cause err =
     List.find (\<lambda>_. True)
       (List.map_filter (\<lambda>l. case link_cause l of SubmitRefused e \<Rightarrow> Some e | _ \<Rightarrow> None)
          (take (err_layers err) (err_chain err)))"

definition submit_success ::
  "('w, 'p, 'x, 'c, 'd, 'r) worker_env \<Rightarrow> claimed_job \<Rightarrow> 'p \<Rightarrow> 'x \<Rightarrow> 'c option \<Rightarrow> 'w
     \<Rightarrow> (anyhow_error + unit) \<times> 'w" where
  "submit_success env job payload extras checkpoint w =
     (case bind_result (we_to_value env payload) (\<lambda>v. attach_claim_to_success_payload v job) of
        Inl e \<Rightarrow> (Inl e, w)
      | Inr v \<Rightarrow>
          (case post_completion (we_api env) (cj_job_id job) (SuccessBody v) (worker_sleep env) w of
             (Inr True, w1) \<Rightarrow>
               (Inr (), we_finalize_checkpoint env checkpoint
                          (we_store_result env (cj_job_id job) payload extras w1))
           | (Inr False, w1) \<Rightarrow> (Inr (), w1)
           | (Inl e, w1) \<Rightarrow>
               (case refused_cause e of
                  Some refused \<Rightarrow>
                    report_refused_submission env job refused (we_device_time env payload) w1
                | None \<Rightarrow> (Inl e, w1))))"

definition was_cancelled :: "anyhow_error \<Rightarrow> bool" where
  "was_cancelled err = chain_any (\<lambda>c. c = Gate Cancelled) err"

definition stopped_by_held_touch :: "anyhow_error \<Rightarrow> bool" where
  "stopped_by_held_touch err =
     chain_any (\<lambda>c. case c of Gate (HeldTouchError _ _) \<Rightarrow> True | _ \<Rightarrow> False) err"

definition submit_finished_run ::
  "('w, 'p, 'x, 'c, 'd, 'r) worker_env \<Rightarrow> claimed_job \<Rightarrow> anyhow_error + 'p \<times> 'x \<times> 'c option
     \<Rightarrow> duration \<Rightarrow> bool \<Rightarrow> 'w \<Rightarrow> (anyhow_error + unit) \<times> 'w" where
  "submit_finished_run env job run_result took lease_lost w =
     (case run_result of
        Inl err \<Rightarrow>
          if stopped_by_held_touch err then (Inl err, w)
          else if lease_lost then (Inr (), w)
          else
            (let (stopped, w1) = we_stop env w in
             if stopped \<and> was_cancelled err then (Inr (), w1)
             else
               (let reason = format_failure_reason (snd (we_utc env w1)) (display_chain err);
                    (r, w2) = submit_failure env job reason (classify_run_error err)
                                (Some (device_time_ms took)) w1
                in (bind_result r (\<lambda>_. Inr ()), w2)))
      | Inr (payload, extras, checkpoint) \<Rightarrow>
          if lease_lost then (Inr (), w)
          else submit_success env job (we_set_device_time env (device_time_ms took) payload) extras
                 checkpoint w)"

section \<open>Running a claimed job\<close>

definition ensure_claim_benchmark_cached ::
  "('w, 'p, 'x, 'c, 'd, 'r) worker_env \<Rightarrow> string \<Rightarrow> 'w \<Rightarrow> (anyhow_error + 'd) \<times> 'w" where
  "ensure_claim_benchmark_cached env benchmark w =
     (let (store_answer, w1) = we_cached_benchmark env benchmark w;
          cached = (case store_answer of Inr (Some (def, _)) \<Rightarrow> Some def | _ \<Rightarrow> None);
          cached_etag = (case store_answer of Inr (Some (_, tag)) \<Rightarrow> tag | _ \<Rightarrow> None);
          (fetched, w2) = we_get_benchmark env benchmark cached_etag w1
      in case (fetched, cached) of
           (Inr NotModified, Some def) \<Rightarrow> (Inr def, w2)
         | (Inr NotModified, None) \<Rightarrow> (Inl (message_error ''304 without a cached definition''), w2)
         | (Inl err, Some def) \<Rightarrow>
             if http_status err \<noteq> Some 404 then (Inr def, w2)
             else (Inl (error_context (''GET /benchmarks/'' @ benchmark) (mgmt_as_error env err)), w2)
         | (Inl err, None) \<Rightarrow>
             (Inl (error_context (''GET /benchmarks/'' @ benchmark) (mgmt_as_error env err)), w2)
         | (Inr (Modified remote tag), _) \<Rightarrow>
             (case we_convert env remote of
                Inl e \<Rightarrow> (Inl (error_context (''converting remote benchmark '' @ benchmark) e), w2)
              | Inr def \<Rightarrow> (Inr def, we_cache_benchmark env def tag w2)))"

definition execute_job ::
  "('w, 'p, 'x, 'c, 'd, 'r) worker_env \<Rightarrow> claimed_job \<Rightarrow> 'w
     \<Rightarrow> (anyhow_error + 'p \<times> 'x \<times> 'c option) \<times> 'w" where
  "execute_job env job w =
     (case we_run_spec env job w of
        (Inl e, w1) \<Rightarrow> (Inl e, w1)
      | (Inr _, w1) \<Rightarrow>
          (case ensure_claim_benchmark_cached env (cj_benchmark_id job) w1 of
             (Inl e, w2) \<Rightarrow> (Inl e, w2)
           | (Inr benchmark, w2) \<Rightarrow> we_run_cell env job benchmark w2))"

definition run_claimed_job ::
  "('w, 'p, 'x, 'c, 'd, 'r) worker_env \<Rightarrow> claimed_job \<Rightarrow> instant \<Rightarrow> nat option \<Rightarrow> bool \<Rightarrow> 'w
     \<Rightarrow> ((anyhow_error + unit) \<times> 'w) option" where
  "run_claimed_job env job claimed_at heartbeat_secs marked w =
     (let hb_every = resolve_heartbeat_interval (cj_time_window job) heartbeat_secs in
      case heartbeat_thread (we_api env) (we_recv_timeout env) (we_random env) (cj_job_id job) hb_every w of
        None \<Rightarrow> None
      | Some (lease_lost, w1) \<Rightarrow>
          (let (run_result, w2) = execute_job env job w1;
               took = we_now env w2 - claimed_at;
               w3 = (if marked then we_marker_drop env w2 else w2)
           in Some (submit_finished_run env job run_result took lease_lost w3)))"

section \<open>The claim loop\<close>

definition missing_worker_permission :: "string list option \<Rightarrow> string option" where
  "missing_worker_permission permissions =
     (case permissions of
        None \<Rightarrow> None
      | Some granted \<Rightarrow>
          if \<not> list_ex (\<lambda>p. p = ''perform_work'') granted then Some ''perform_work'' else None)"

definition reboot_failure_reason :: "string option \<Rightarrow> string \<Rightarrow> string \<Rightarrow> string" where
  "reboot_failure_reason boot_reason old_boot_id new_boot_id =
     (let reason = ''device rebooted during this job (old boot ID: '' @ old_boot_id @
            ''; new boot ID: '' @ new_boot_id @ '')''
      in case boot_reason of
           Some why \<Rightarrow> reason @ ''; sys.boot.reason: '' @ why
         | None \<Rightarrow> reason)"

text \<open>One job that was claimed: the reboot it may have survived, or its run.\<close>

definition claimed_job_outcome ::
  "('w, 'p, 'x, 'c, 'd, 'r) worker_env \<Rightarrow> string option \<Rightarrow> nat option \<Rightarrow> claimed_job \<Rightarrow> 'w
     \<Rightarrow> ((anyhow_error + unit) \<times> 'w) option" where
  "claimed_job_outcome env boot_reason heartbeat_secs job w =
     (let claimed_at = we_now env w;
          (marker_answer, w1) = we_marker_read env w;
          previous = claimed_marker marker_answer
      in case decide previous (cj_job_id job) (we_boot env) of
           Rebooted old_boot_id new_boot_id \<Rightarrow>
             (let (r, w2) = submit_failure env job
                    (format_failure_reason (snd (we_utc env w1))
                       (reboot_failure_reason boot_reason old_boot_id new_boot_id))
                    False (Some (device_time_ms (we_now env w1 - claimed_at))) w1
              in Some (case r of
                         Inl e \<Rightarrow> (Inl e, w2)
                       | Inr delivered \<Rightarrow> (Inr (), if delivered then we_marker_remove env w2 else w2)))
         | _ \<Rightarrow>
             (let (now, formatted) = we_utc env w1;
                  marker = new_marker (cj_job_id job) (boot_ident (we_boot env)) now formatted;
                  (started, w2) = we_marker_start env marker w1
              in run_claimed_job env job claimed_at heartbeat_secs (case started of Inr _ \<Rightarrow> True | Inl _ \<Rightarrow> False) w2))"

record worker_args =
  idle_secs :: nat
  idle_jitter_secs :: nat
  heartbeat_secs :: "nat option"
  max_jobs :: nat

datatype loop_step = Leave "anyhow_error + unit" | Again nat

text \<open>
  One turn of the loop: \<^const>\<open>None\<close> is a turn that does not end, \<open>Leave\<close> a return, \<open>Again\<close> the next
  turn with the number of completed jobs. An idle wait past the largest duration panics.
\<close>

definition after_job :: "worker_args \<Rightarrow> nat \<Rightarrow> anyhow_error + unit \<Rightarrow> loop_step" where
  "after_job args completed result =
     (case result of
        Inr _ \<Rightarrow>
          if 0 < max_jobs args \<and> max_jobs args \<le> Suc completed then Leave (Inr ()) else Again (Suc completed)
      | Inl e \<Rightarrow>
          if refused_cause e \<noteq> None then Leave (Inl e)
          else if stopped_by_held_touch e then Leave (Inl e)
          else Again completed)"

definition loop_turn ::
  "('w, 'p, 'x, 'c, 'd, 'r) worker_env \<Rightarrow> string option \<Rightarrow> worker_args \<Rightarrow> nat \<Rightarrow> 'w
     \<Rightarrow> (loop_step \<times> 'w) option" where
  "loop_turn env boot_reason args completed w =
     (let (stop, w0) = we_stop env w in
      if stop then Some (Leave (Inr ()), w0)
      else
        (case claim_with_retry (we_api env) (worker_sleep env) w0 of
           None \<Rightarrow> None
         | Some (None, w1) \<Rightarrow> Some (Leave (Inr ()), w1)
         | Some (Some (Job job), w1) \<Rightarrow>
             map_option (\<lambda>(r, w2). (after_job args completed r, w2))
               (claimed_job_outcome env boot_reason (heartbeat_secs args) job w1)
         | Some (Some Idle, w1) \<Rightarrow>
             (let (wait, w2) = idle_wait_with_jitter (we_random env) (from_secs (idle_secs args))
                    (from_secs (idle_jitter_secs args)) w1
              in case wait of
                   None \<Rightarrow> Some (Leave (Inl (message_error ''overflow when adding durations'')), w2)
                 | Some d \<Rightarrow>
                     (let (c, w3) = worker_sleep env d w2 in
                      Some (if is_break c then Leave (Inr ()) else Again completed, w3)))
         | Some (Some (ClaimRefused e), w1) \<Rightarrow>
             Some (Leave (Inl (error_context ''the management server refused client'' (mgmt_as_error env e))), w1)
         | Some (Some (ClaimTransient e), w1) \<Rightarrow> Some (Leave (Inl (mgmt_as_error env e)), w1)
         | Some (Some (ClaimFatal e), w1) \<Rightarrow> Some (Leave (Inl (mgmt_as_error env e)), w1)))"

partial_function (option) claim_loop ::
  "('w, 'p, 'x, 'c, 'd, 'r) worker_env \<Rightarrow> string option \<Rightarrow> worker_args \<Rightarrow> nat \<Rightarrow> 'w
     \<Rightarrow> ((anyhow_error + unit) \<times> 'w) option" where
  "claim_loop env boot_reason args completed w =
     (case loop_turn env boot_reason args completed w of
        None \<Rightarrow> None
      | Some (step, w1) \<Rightarrow>
          (case step of
             Leave r \<Rightarrow> Some (r, w1)
           | Again n \<Rightarrow> claim_loop env boot_reason args n w1))"

section \<open>What the operations do to the world\<close>

text \<open>
  A relation on worlds that every operation of the environment respects holds across the retry
  loops, the sleeps and the heartbeats.
\<close>

definition stays :: "('w \<Rightarrow> 'w \<Rightarrow> bool) \<Rightarrow> ('w \<Rightarrow> 'a \<times> 'w) \<Rightarrow> bool" where
  "stays R f \<longleftrightarrow> (\<forall>w. R w (snd (f w)))"

lemma staysD: "stays R f \<Longrightarrow> f w = (x, w') \<Longrightarrow> R w w'"
  unfolding stays_def by (metis snd_conv)

locale world_relation =
  fixes R :: "'w \<Rightarrow> 'w \<Rightarrow> bool"
  assumes rel_refl: "R w w"
    and rel_trans: "R a b \<Longrightarrow> R b c \<Longrightarrow> R a c"
begin

lemma retry_with_backoff_rel:
  assumes "\<And>n. stays R (attempt n)" "\<And>d. stays R (sleep d)"
  shows "stays R (retry_with_backoff ns f cap attempt sleep)"
proof -
  have "R w (snd (retry_with_backoff ns f cap attempt sleep w))" for w
  proof (induction ns arbitrary: w)
    case Nil
    then show ?case by (simp add: rel_refl)
  next
    case (Cons n ns)
    obtain c w1 where a: "attempt n w = (c, w1)" by fastforce
    obtain k w2 where s: "sleep (exponential_backoff n f cap) w1 = (k, w2)" by fastforce
    have r: "R w w1" "R w1 w2" using staysD [OF assms(1) a] staysD [OF assms(2) s] .
    then show ?case
      using Cons.IH [of w2] rel_trans [of w w1 w2]
      by (auto simp: a s split: control_flow.splits intro: rel_trans)
  qed
  then show ?thesis by (simp add: stays_def)
qed

lemma sleep_cancellably_rel:
  assumes "stays R stop" "\<And>d w. R w (nap d w)"
  shows "stays R (sleep_cancellably d stop nap)"
proof -
  have "R w (snd (sleep_cancellably d stop nap w))" for w
    using assms
  proof (induction d stop nap w rule: sleep_cancellably.induct)
    case (1 remaining stop nap w)
    obtain c w1 where c: "stop w = (c, w1)" by fastforce
    have "R w w1" using staysD [OF "1.prems"(1) c] .
    moreover have "R w1 (nap (min remaining CANCEL_CHECK_INTERVAL) w1)" by (rule "1.prems"(2))
    ultimately have "R w (nap (min remaining CANCEL_CHECK_INTERVAL) w1)" by (rule rel_trans)
    from rel_trans [OF this] show ?case
      using "1.IH" [OF _ c [symmetric] refl _ refl refl] "1.prems" \<open>R w w1\<close>
      by (subst sleep_cancellably.simps) (auto simp: c Let_def)
  qed
  then show ?thesis by (simp add: stays_def)
qed

lemma try_submit_rel:
  assumes "stays R (api_submit api body)" "stays R (api_reclaim api job_id)"
  shows "stays R (try_submit_plan_result api job_id body)"
  unfolding stays_def
proof
  fix w
  obtain r w1 where 1: "api_submit api body w = (r, w1)" by fastforce
  obtain rr w2 where 2: "api_reclaim api job_id w1 = (rr, w2)" by fastforce
  have "R w w1" "R w1 w2" using staysD [OF assms(1) 1] staysD [OF assms(2) 2] .
  then show "R w (snd (try_submit_plan_result api job_id body w))"
    using rel_trans [of w w1 w2] by (auto simp: try_submit_plan_result_def 1 2 split: sum.splits)
qed

lemma post_completion_rel:
  assumes "stays R (api_submit api body)" "stays R (api_reclaim api job_id)" "\<And>d. stays R (sleep d)"
  shows "stays R (post_completion api job_id body sleep)"
proof -
  have "stays R (\<lambda>w. settled_or_again (try_submit_plan_result api job_id body w))"
    using try_submit_rel [OF assms(1,2)] by (auto simp: stays_def settled_or_again_def split: prod.splits)
       (metis snd_conv)
  then have "stays R (retry_with_backoff ns f cap
      (\<lambda>_ w. settled_or_again (try_submit_plan_result api job_id body w)) sleep)" for ns f cap
    using assms(3) by (rule retry_with_backoff_rel)
  then show ?thesis
    by (auto simp: stays_def post_completion_def submit_plan_result_with_backoff_def
        simp del: upt_Suc split: prod.splits) (metis snd_conv)
qed

lemma keepalive_rel:
  assumes "stays R (api_heartbeat api job_id)" "stays R (api_reclaim api job_id)"
  shows "stays R (keepalive_lease api job_id)"
  unfolding stays_def
proof
  fix w
  obtain r w1 where 1: "api_heartbeat api job_id w = (r, w1)" by fastforce
  obtain rr w2 where 2: "api_reclaim api job_id w1 = (rr, w2)" by fastforce
  have "R w w1" "R w1 w2" using staysD [OF assms(1) 1] staysD [OF assms(2) 2] .
  then show "R w (snd (keepalive_lease api job_id w))"
    using rel_trans [of w w1 w2] by (auto simp: keepalive_lease_def 1 2 split: sum.splits)
qed

lemmas heartbeat_loop_induct = heartbeat_loop.raw_induct [rotated, consumes 1, case_names step]

lemma heartbeat_thread_rel:
  assumes "stays R (api_heartbeat api job_id)" "stays R (api_reclaim api job_id)"
    and "\<And>d. stays R (recv d)" "stays R random"
    and "heartbeat_thread api recv random job_id every w = Some (lost, w')"
  shows "R w w'"
proof -
  have "R w (snd r)" if "heartbeat_loop api recv random job_id every wait failures w = Some r" for wait failures w r
    using that assms(1-4)
  proof (induction api recv random job_id every wait failures w r rule: heartbeat_loop_induct)
    case (step f api recv random job_id every wait failures w r)
    obtain b w1 where 1: "recv wait w = (b, w1)" by fastforce
    obtain k w2 where 2: "keepalive_lease api job_id w1 = (k, w2)" by fastforce
    let ?pause = "exponential_backoff (min (Suc failures) u32_max) RETRY_FIRST (every div 4)"
    obtain nw w3 where 3: "jittered random ?pause w2 = (nw, w3)" by fastforce
    have r1: "R w w1" using staysD [OF step.prems(3) 1] .
    have r2: "R w w2" using r1 staysD [OF keepalive_rel [OF step.prems(1,2)] 2] by (rule rel_trans)
    have "R w2 w3" using 3 staysD [OF step.prems(4)] by (auto simp: jittered_def split: prod.splits)
    then have r3: "R w w3" using r2 rel_trans by blast
    have next_rel: "R w (snd r)" if "f api recv random job_id every wt fl wx = Some r" "R w wx" for wt fl wx
      using step(1) [OF that(1) step.prems] that(2) rel_trans by blast
    show ?case
      using step(2) r1 r2 r3 next_rel by (auto simp: 1 2 3 split: if_splits lease_keepalive.splits)
  qed
  from this [of every 0 w "(lost, w')"] assms(5) show ?thesis by (simp add: heartbeat_thread_def)
qed

end

section \<open>The trace of a worker\<close>

text \<open>
  \<open>observe env\<close> is the environment with a trace beside its world: what the server is told and
  gives out, what is run, and what happens to the marker and the local stores.
\<close>

datatype event =
    EvClaimed claimed_job
  | EvBeat string
  | EvReclaim string
  | EvSubmit body
  | EvStartMarker string
  | EvDropMarker
  | EvRemoveMarker
  | EvRun string
  | EvStore string
  | EvFinalize

definition observed ::
  "('a \<Rightarrow> event list) \<Rightarrow> ('w \<Rightarrow> 'a \<times> 'w) \<Rightarrow> 'w \<times> event list \<Rightarrow> 'a \<times> 'w \<times> event list" where
  "observed ev f p = (case f (fst p) of (x, w) \<Rightarrow> (x, w, snd p @ ev x))"

abbreviation silent ::
  "('w \<Rightarrow> 'a \<times> 'w) \<Rightarrow> 'w \<times> event list \<Rightarrow> 'a \<times> 'w \<times> event list" where
  "silent \<equiv> observed (\<lambda>_. [])"

definition stepped :: "event list \<Rightarrow> ('w \<Rightarrow> 'w) \<Rightarrow> 'w \<times> event list \<Rightarrow> 'w \<times> event list" where
  "stepped ev f p = (f (fst p), snd p @ ev)"

definition claimed_event :: "mgmt_error + claimed_job option \<Rightarrow> event list" where
  "claimed_event r = (case r of Inr (Some job) \<Rightarrow> [EvClaimed job] | _ \<Rightarrow> [])"

definition observe_api ::
  "('w, claimed_job, body) client_api \<Rightarrow> ('w \<times> event list, claimed_job, body) client_api" where
  "observe_api api =
     \<lparr>api_claim = observed claimed_event (api_claim api),
      api_heartbeat = \<lambda>job_id. observed (\<lambda>_. [EvBeat job_id]) (api_heartbeat api job_id),
      api_reclaim = \<lambda>job_id. observed (\<lambda>_. [EvReclaim job_id]) (api_reclaim api job_id),
      api_submit = \<lambda>body. observed (\<lambda>_. [EvSubmit body]) (api_submit api body)\<rparr>"

definition observe ::
  "('w, 'p, 'x, 'c, 'd, 'r) worker_env \<Rightarrow> ('w \<times> event list, 'p, 'x, 'c, 'd, 'r) worker_env" where
  "observe env =
     \<lparr>we_api = observe_api (we_api env),
      we_stop = silent (we_stop env),
      we_thread_sleep = \<lambda>d. stepped [] (we_thread_sleep env d),
      we_recv_timeout = \<lambda>d. silent (we_recv_timeout env d),
      we_random = silent (we_random env),
      we_now = \<lambda>p. we_now env (fst p),
      we_utc = \<lambda>p. we_utc env (fst p),
      we_boot = we_boot env,
      we_marker_read = silent (we_marker_read env),
      we_marker_start = \<lambda>m. observed (\<lambda>_. [EvStartMarker (if_job_id m)]) (we_marker_start env m),
      we_marker_drop = stepped [EvDropMarker] (we_marker_drop env),
      we_marker_remove = stepped [EvRemoveMarker] (we_marker_remove env),
      we_run_spec = \<lambda>job. silent (we_run_spec env job),
      we_cached_benchmark = \<lambda>b. silent (we_cached_benchmark env b),
      we_get_benchmark = \<lambda>b tag. silent (we_get_benchmark env b tag),
      we_convert = we_convert env,
      we_cache_benchmark = \<lambda>d tag. stepped [] (we_cache_benchmark env d tag),
      we_run_cell = \<lambda>job d. observed (\<lambda>_. [EvRun (cj_job_id job)]) (we_run_cell env job d),
      we_set_device_time = we_set_device_time env,
      we_device_time = we_device_time env,
      we_to_value = we_to_value env,
      we_store_result = \<lambda>job_id p x. stepped [EvStore job_id] (we_store_result env job_id p x),
      we_finalize_checkpoint = \<lambda>c. stepped [EvFinalize] (we_finalize_checkpoint env c),
      we_client_version = we_client_version env,
      we_display = we_display env\<rparr>"

text \<open>The operations of \<^const>\<open>observe\<close>, one by one.\<close>

lemma observe_we_api: "we_api (observe env) = observe_api (we_api env)"
  by (simp add: observe_def)

lemma observe_simps [simp]:
  "we_stop (observe env) = silent (we_stop env)"
  "we_thread_sleep (observe env) = (\<lambda>d. stepped [] (we_thread_sleep env d))"
  "we_recv_timeout (observe env) = (\<lambda>d. silent (we_recv_timeout env d))"
  "we_random (observe env) = silent (we_random env)"
  "we_now (observe env) = (\<lambda>p. we_now env (fst p))"
  "we_utc (observe env) = (\<lambda>p. we_utc env (fst p))"
  "we_boot (observe env) = we_boot env"
  "we_marker_read (observe env) = silent (we_marker_read env)"
  "we_marker_start (observe env) = (\<lambda>m. observed (\<lambda>_. [EvStartMarker (if_job_id m)]) (we_marker_start env m))"
  "we_marker_drop (observe env) = stepped [EvDropMarker] (we_marker_drop env)"
  "we_marker_remove (observe env) = stepped [EvRemoveMarker] (we_marker_remove env)"
  "we_run_spec (observe env) = (\<lambda>job. silent (we_run_spec env job))"
  "we_cached_benchmark (observe env) = (\<lambda>b. silent (we_cached_benchmark env b))"
  "we_get_benchmark (observe env) = (\<lambda>b tag. silent (we_get_benchmark env b tag))"
  "we_convert (observe env) = we_convert env"
  "we_cache_benchmark (observe env) = (\<lambda>d tag. stepped [] (we_cache_benchmark env d tag))"
  "we_run_cell (observe env) = (\<lambda>job d. observed (\<lambda>_. [EvRun (cj_job_id job)]) (we_run_cell env job d))"
  "we_set_device_time (observe env) = we_set_device_time env"
  "we_device_time (observe env) = we_device_time env"
  "we_to_value (observe env) = we_to_value env"
  "we_store_result (observe env) = (\<lambda>job_id p x. stepped [EvStore job_id] (we_store_result env job_id p x))"
  "we_finalize_checkpoint (observe env) = (\<lambda>c. stepped [EvFinalize] (we_finalize_checkpoint env c))"
  "we_client_version (observe env) = we_client_version env"
  "we_display (observe env) = we_display env"
  by (simp_all add: observe_def)

text \<open>The world advances and the trace grows by events of \<open>A\<close>.\<close>

definition logs :: "event set \<Rightarrow> 'w \<times> event list \<Rightarrow> 'w \<times> event list \<Rightarrow> bool" where
  "logs A p q \<longleftrightarrow> (\<exists>evs. snd q = snd p @ evs \<and> set evs \<subseteq> A)"

interpretation lg: world_relation "logs A" for A
proof
  fix p :: "'a \<times> event list"
  show "logs A p p" by (simp add: logs_def)
next
  fix a b c :: "'a \<times> event list"
  assume "logs A a b" "logs A b c"
  then show "logs A a c" by (auto simp: logs_def)
qed

lemma logs_mono: "logs A p q \<Longrightarrow> A \<subseteq> B \<Longrightarrow> logs B p q"
  by (auto simp: logs_def)

lemma logs_none: "logs {} p q \<Longrightarrow> snd q = snd p"
  by (auto simp: logs_def)

lemma stays_mono: "stays (logs A) f \<Longrightarrow> A \<subseteq> B \<Longrightarrow> stays (logs B) f"
  by (auto simp: stays_def intro: logs_mono)

lemma stays_observed: "(\<And>x. set (ev x) \<subseteq> A) \<Longrightarrow> stays (logs A) (observed ev f)"
  by (auto simp: stays_def observed_def logs_def split: prod.splits)

lemma logs_stepped: "set ev \<subseteq> A \<Longrightarrow> logs A p (stepped ev f p)"
  by (auto simp: stepped_def logs_def)

lemma worker_sleep_silent: "stays (logs A) (worker_sleep (observe env) d)"
  using lg.sleep_cancellably_rel [of A "we_stop (observe env)" "we_thread_sleep (observe env)" d]
  by (simp add: worker_sleep_def [abs_def] stays_observed logs_stepped)

subsection \<open>What one job may leave in the trace\<close>

definition body_about :: "claimed_job \<Rightarrow> body \<Rightarrow> bool" where
  "body_about job body =
     (case body of
        FailureBody f \<Rightarrow> fail_job_id f = cj_job_id job \<and> fail_benchmark_id f = cj_benchmark_id job
      | SuccessBody (JObject fs) \<Rightarrow> map_of fs ''job_id'' = Some (JString (cj_job_id job))
      | SuccessBody _ \<Rightarrow> False)"

definition reports :: "claimed_job \<Rightarrow> event set" where
  "reports job = {EvSubmit body | body. body_about job body} \<union> {EvReclaim (cj_job_id job)}"

definition failures :: "claimed_job \<Rightarrow> bool \<Rightarrow> event set" where
  "failures job retry =
     {EvSubmit (FailureBody f) | f. body_about job (FailureBody f) \<and> retriable f = retry} \<union>
     {EvReclaim (cj_job_id job)}"

definition stored :: "claimed_job \<Rightarrow> event list" where
  "stored job = [EvStore (cj_job_id job), EvFinalize]"

inductive job_trace :: "claimed_job \<Rightarrow> event list \<Rightarrow> bool" for job where
  rebooted: "set posts \<subseteq> failures job False \<Longrightarrow> rm = [] \<or> rm = [EvRemoveMarker] \<Longrightarrow> job_trace job (posts @ rm)"
| ran: "set lease \<subseteq> {EvBeat (cj_job_id job), EvReclaim (cj_job_id job)} \<Longrightarrow>
    run = [] \<or> run = [EvRun (cj_job_id job)] \<Longrightarrow> off = [] \<or> off = [EvDropMarker] \<Longrightarrow>
    set posts \<subseteq> reports job \<Longrightarrow> fin = [] \<or> fin = stored job \<Longrightarrow>
    job_trace job (EvStartMarker (cj_job_id job) # lease @ run @ off @ posts @ fin)"

lemma failures_reports: "failures job retry \<subseteq> reports job"
  by (auto simp: failures_def reports_def)

lemma map_of_json_insert: "map_of (json_insert k v fs) k = Some v"
  by (induction k v fs rule: json_insert.induct) auto

lemma attached_about:
  assumes "attach_claim_to_success_payload v job = Inr v'"
  shows "body_about job (SuccessBody v')"
  using assms by (cases v) (auto simp: body_about_def map_of_json_insert)

lemma observe_api_stays:
  "EvSubmit body \<in> A \<Longrightarrow> stays (logs A) (api_submit (we_api (observe env)) body)"
  "EvReclaim job_id \<in> A \<Longrightarrow> stays (logs A) (api_reclaim (we_api (observe env)) job_id)"
  "EvBeat job_id \<in> A \<Longrightarrow> stays (logs A) (api_heartbeat (we_api (observe env)) job_id)"
  by (simp_all add: observe_we_api observe_api_def stays_observed)

lemma post_completion_logs:
  assumes "EvSubmit body \<in> A" "EvReclaim job_id \<in> A"
    and "post_completion (we_api (observe env)) job_id body (worker_sleep (observe env)) p = (r, q)"
  shows "logs A p q"
  using assms(3)
  by (rule staysD [OF lg.post_completion_rel
        [OF observe_api_stays(1) [OF assms(1)] observe_api_stays(2) [OF assms(2)] worker_sleep_silent]])

lemma submit_failure_logs:
  assumes "submit_failure (observe env) job reason retry dt p = (r, q)"
  shows "logs (failures job retry) p q"
  using assms unfolding submit_failure_def
  by (rule post_completion_logs [rotated 2]) (auto simp: failures_def body_about_def failure_from_claim_def)

lemma report_refused_logs:
  assumes "report_refused_submission (observe env) job refused dt p = (r, q)"
  shows "logs (failures job True) p q"
  using assms by (auto simp: report_refused_submission_def Let_def split: prod.splits dest: submit_failure_logs)

text \<open>Reports of the job, then at most its storing, which only a finished run does.\<close>

definition closes ::
  "claimed_job \<Rightarrow> 'w \<times> event list \<Rightarrow> anyhow_error + unit \<Rightarrow> 'w \<times> event list \<Rightarrow> bool" where
  "closes job p r q \<longleftrightarrow> (\<exists>posts fin. snd q = snd p @ posts @ fin \<and> set posts \<subseteq> reports job \<and>
     (fin = [] \<or> fin = stored job \<and> r = Inr ()))"

lemma closes_reports: "logs (reports job) p q \<Longrightarrow> closes job p r q"
  unfolding closes_def logs_def by force

lemma closes_stored:
  "logs (reports job) p p1 \<Longrightarrow> snd q = snd p1 @ stored job \<Longrightarrow> closes job p (Inr ()) q"
  unfolding closes_def logs_def by force

lemma submit_success_closes:
  assumes "submit_success (observe env) job payload extras checkpoint p = (r, q)"
  shows "closes job p r q"
proof (cases "bind_result (we_to_value env payload) (\<lambda>v. attach_claim_to_success_payload v job)")
  case (Inl e)
  then show ?thesis using assms by (auto simp: submit_success_def closes_def)
next
  case (Inr v)
  then have about: "body_about job (SuccessBody v)"
    by (auto simp: bind_result_def split: sum.splits intro: attached_about)
  obtain d p1 where
    post: "post_completion (we_api (observe env)) (cj_job_id job) (SuccessBody v) (worker_sleep (observe env)) p = (d, p1)"
    by (rule prod.exhaust)
  have l: "logs (reports job) p p1"
    using post by (rule post_completion_logs [rotated 2]) (auto simp: reports_def about)
  have refused: "closes job p r q"
    if "report_refused_submission (observe env) job e (we_device_time env payload) p1 = (r, q)" for e
    using l logs_mono [OF report_refused_logs [OF that] failures_reports]
    by (intro closes_reports) (rule lg.rel_trans)
  show ?thesis
  proof (cases d)
    case (Inl e)
    then show ?thesis
      using assms refused closes_reports [OF l]
      by (auto simp: submit_success_def \<open>bind_result _ _ = _\<close> post split: option.splits)
  next
    case d: (Inr delivered)
    then show ?thesis
      using assms closes_reports [OF l] closes_stored [OF l]
      by (auto simp: submit_success_def Inr post stepped_def stored_def split: bool.splits)
  qed
qed

lemma finished_run_closes:
  assumes "submit_finished_run (observe env) job run_result took False p = (r, q)"
  shows "closes job p r q"
proof (cases run_result)
  case (Inr x)
  then show ?thesis
    using assms by (cases x) (auto simp: submit_finished_run_def dest: submit_success_closes)
next
  case (Inl err)
  obtain s p1 where s: "we_stop (observe env) p = (s, p1)" by (rule prod.exhaust)
  then have same: "snd p1 = snd p" by (auto simp: observed_def split: prod.splits)
  have fails: "closes job p r' q"
    if "submit_failure (observe env) job reason retry dt p1 = (r'', q)" for reason retry dt r' r''
    using logs_mono [OF submit_failure_logs [OF that] failures_reports] same
    by (intro closes_reports) (simp add: logs_def)
  have "closes job p r' p" "closes job p r' p1" for r' using same by (auto simp: closes_def)
  then show ?thesis
    using assms unfolding submit_finished_run_def Inl
    by (auto simp: s [simplified] Let_def split: if_splits prod.splits dest: fails)
qed

lemma finished_run_lost:
  "snd (snd (submit_finished_run (observe env) job run_result took True p)) = snd p"
  by (auto simp: submit_finished_run_def split: sum.splits prod.splits)

lemma execute_job_logs:
  assumes "execute_job (observe env) job p = (r, q)"
  shows "snd q = snd p \<or> snd q = snd p @ [EvRun (cj_job_id job)]"
proof -
  obtain rs p1 where 1: "we_run_spec (observe env) job p = (rs, p1)" by (rule prod.exhaust)
  obtain d p2 where 2: "ensure_claim_benchmark_cached (observe env) (cj_benchmark_id job) p1 = (d, p2)"
    by (rule prod.exhaust)
  have "snd p1 = snd p" using 1 by (auto simp: observed_def split: prod.splits)
  moreover have "snd p2 = snd p1"
    using 2 by (auto simp: ensure_claim_benchmark_cached_def observed_def stepped_def Let_def
        split: prod.splits sum.splits option.splits conditional_response.splits if_splits)
  ultimately show ?thesis
    using assms unfolding execute_job_def 1
    by (auto simp: 2 observed_def split: sum.splits prod.splits)
qed

lemma run_claimed_job_logs:
  assumes "run_claimed_job (observe env) job claimed_at hb marked p = Some (r, q)"
  shows "\<exists>lease run posts fin. snd q = snd p @ lease @ run @ (if marked then [EvDropMarker] else []) @ posts @ fin \<and>
    set lease \<subseteq> {EvBeat (cj_job_id job), EvReclaim (cj_job_id job)} \<and>
    (run = [] \<or> run = [EvRun (cj_job_id job)]) \<and> set posts \<subseteq> reports job \<and>
    (fin = [] \<or> fin = stored job \<and> r = Inr ())"
proof -
  let ?every = "resolve_heartbeat_interval (cj_time_window job) hb"
  let ?thread = "heartbeat_thread (we_api (observe env)) (we_recv_timeout (observe env)) (we_random (observe env))
    (cj_job_id job) ?every p"
  let ?A = "{EvBeat (cj_job_id job), EvReclaim (cj_job_id job)}"
  obtain lost p1 where h: "?thread = Some (lost, p1)"
    using assms by (auto simp: run_claimed_job_def Let_def split: option.splits)
  have "logs ?A p p1"
    using h by (rule lg.heartbeat_thread_rel [rotated 4]) (auto intro: observe_api_stays stays_observed)
  then obtain lease where lease: "snd p1 = snd p @ lease" "set lease \<subseteq> ?A" by (auto simp: logs_def)
  obtain rr p2 where e: "execute_job (observe env) job p1 = (rr, p2)" by (rule prod.exhaust)
  obtain run where run: "snd p2 = snd p1 @ run" "run = [] \<or> run = [EvRun (cj_job_id job)]"
    using execute_job_logs [OF e] by auto
  let ?p3 = "if marked then stepped [EvDropMarker] (we_marker_drop env) p2 else p2"
  obtain took where fin: "submit_finished_run (observe env) job rr took lost ?p3 = (r, q)"
    using assms by (auto simp: run_claimed_job_def h [simplified] e Let_def cong: if_cong)
  have "closes job ?p3 r q"
    using finished_run_closes [of env job rr took ?p3 r q] finished_run_lost [of env job rr took ?p3] fin
    by (cases lost) (auto simp: closes_def)
  then obtain posts fin where "snd q = snd ?p3 @ posts @ fin" "set posts \<subseteq> reports job"
    "fin = [] \<or> fin = stored job \<and> r = Inr ()"
    by (auto simp: closes_def)
  moreover have "snd ?p3 = snd p @ lease @ run @ (if marked then [EvDropMarker] else [])"
    using lease(1) run(1) by (simp add: stepped_def)
  ultimately show ?thesis
    using lease(2) run(2) by (intro exI [of _ lease] exI [of _ run] exI [of _ posts] exI [of _ fin]) simp
qed

text \<open>A job whose marker says the device rebooted in it.\<close>

definition rebooted_now :: "('w, 'p, 'x, 'c, 'd, 'r) worker_env \<Rightarrow> claimed_job \<Rightarrow> 'w \<Rightarrow> bool" where
  "rebooted_now env job w =
     (case decide (claimed_marker (fst (we_marker_read env w))) (cj_job_id job) (we_boot env) of
        Rebooted _ _ \<Rightarrow> True
      | _ \<Rightarrow> False)"

lemma reboot_outcome_logs:
  assumes "claimed_job_outcome (observe env) br hb job p = Some (r, q)" "rebooted_now env job (fst p)"
  shows "\<exists>posts rm. snd q = snd p @ posts @ rm \<and> set posts \<subseteq> failures job False \<and>
    (rm = [] \<or> rm = [EvRemoveMarker])"
proof -
  obtain m p1 where m: "we_marker_read (observe env) p = (m, p1)" by (rule prod.exhaust)
  then have p1: "snd p1 = snd p" "fst (we_marker_read env (fst p)) = m"
    by (auto simp: observed_def split: prod.splits)
  obtain old new where d: "decide (claimed_marker m) (cj_job_id job) (we_boot env) = Rebooted old new"
    using assms(2) p1 by (auto simp: rebooted_now_def split: claim_decision.splits)
  obtain reason took d2 p2 where f: "submit_failure (observe env) job reason False took p1 = (d2, p2)"
    "(r, q) = (case d2 of Inl e \<Rightarrow> (Inl e, p2)
       | Inr delivered \<Rightarrow> (Inr (), if delivered then we_marker_remove (observe env) p2 else p2))"
    using assms(1) unfolding claimed_job_outcome_def m Let_def by (auto simp: d split: prod.splits)
  have "logs (failures job False) p1 p2" using f(1) by (rule submit_failure_logs)
  moreover have "snd q = snd p2 \<or> snd q = snd p2 @ [EvRemoveMarker]"
    using f(2) by (auto simp: stepped_def split: sum.splits if_splits)
  ultimately show ?thesis using p1(1) by (auto simp: logs_def) force+
qed

lemma run_outcome_logs:
  assumes "claimed_job_outcome (observe env) br hb job p = Some (r, q)" "\<not> rebooted_now env job (fst p)"
  shows "\<exists>lease run off posts fin. snd q = snd p @ EvStartMarker (cj_job_id job) # lease @ run @ off @ posts @ fin \<and>
    set lease \<subseteq> {EvBeat (cj_job_id job), EvReclaim (cj_job_id job)} \<and>
    (run = [] \<or> run = [EvRun (cj_job_id job)]) \<and> (off = [] \<or> off = [EvDropMarker]) \<and>
    set posts \<subseteq> reports job \<and> (fin = [] \<or> fin = stored job \<and> r = Inr ())"
proof -
  obtain m p1 where m: "we_marker_read (observe env) p = (m, p1)" by (rule prod.exhaust)
  then have p1: "snd p1 = snd p" "fst (we_marker_read env (fst p)) = m"
    by (auto simp: observed_def split: prod.splits)
  have d: "decide (claimed_marker m) (cj_job_id job) (we_boot env) \<noteq> Rebooted old new" for old new
    using assms(2) p1 by (auto simp: rebooted_now_def split: claim_decision.splits)
  obtain at mk marked s p2 where s: "we_marker_start (observe env) mk p1 = (s, p2)" "if_job_id mk = cj_job_id job"
    "run_claimed_job (observe env) job at hb marked p2 = Some (r, q)"
    using assms(1) d unfolding claimed_job_outcome_def m Let_def
    by (auto simp: new_marker_def split: claim_decision.splits prod.splits)
  have "snd p2 = snd p @ [EvStartMarker (cj_job_id job)]"
    using s(1,2) p1(1) by (auto simp: observed_def split: prod.splits)
  moreover obtain lease run posts fin where
    "snd q = snd p2 @ lease @ run @ (if marked then [EvDropMarker] else []) @ posts @ fin"
    "set lease \<subseteq> {EvBeat (cj_job_id job), EvReclaim (cj_job_id job)}"
    "run = [] \<or> run = [EvRun (cj_job_id job)]" "set posts \<subseteq> reports job" "fin = [] \<or> fin = stored job \<and> r = Inr ()"
    using run_claimed_job_logs [OF s(3)] by blast
  ultimately show ?thesis
    by (intro exI [of _ lease] exI [of _ run] exI [of _ "if marked then [EvDropMarker] else []"]
        exI [of _ posts] exI [of _ fin]) simp
qed

definition stores :: "event list \<Rightarrow> nat" where
  "stores t = length (filter (\<lambda>e. case e of EvStore _ \<Rightarrow> True | _ \<Rightarrow> False) t)"

lemma stores_simps [simp]:
  "stores [] = 0" "stores (s @ t) = stores s + stores t"
  "stores (e # t) = (case e of EvStore _ \<Rightarrow> 1 | _ \<Rightarrow> 0) + stores t"
  by (auto simp: stores_def split: event.splits)

lemma stores_0: "set t \<subseteq> A \<Longrightarrow> (\<And>s. EvStore s \<notin> A) \<Longrightarrow> stores t = 0"
  by (auto simp: stores_def filter_empty_conv split: event.splits)

lemma stores_reports: "set t \<subseteq> reports job \<Longrightarrow> stores t = 0" "set t \<subseteq> failures job retry \<Longrightarrow> stores t = 0"
  by (auto intro!: stores_0 simp: reports_def failures_def)

lemma outcome_trace:
  assumes "claimed_job_outcome (observe env) br hb job p = Some (r, q)"
  shows "\<exists>t. snd q = snd p @ t \<and> job_trace job t \<and> stores t \<le> (case r of Inr _ \<Rightarrow> 1 | Inl _ \<Rightarrow> 0)"
proof (cases "rebooted_now env job (fst p)")
  case True
  then obtain posts rm where "snd q = snd p @ posts @ rm" "set posts \<subseteq> failures job False"
    "rm = [] \<or> rm = [EvRemoveMarker]"
    using reboot_outcome_logs [OF assms] by blast
  then show ?thesis
    by (intro exI [of _ "posts @ rm"]) (auto intro: job_trace.rebooted simp: stores_reports split: sum.splits)
next
  case False
  obtain lease run off posts fin where
    t: "snd q = snd p @ EvStartMarker (cj_job_id job) # lease @ run @ off @ posts @ fin"
      "set lease \<subseteq> {EvBeat (cj_job_id job), EvReclaim (cj_job_id job)}"
      "run = [] \<or> run = [EvRun (cj_job_id job)]" "off = [] \<or> off = [EvDropMarker]"
      "set posts \<subseteq> reports job" "fin = [] \<or> fin = stored job \<and> r = Inr ()"
    using run_outcome_logs [OF assms False] by blast
  have "stores lease = 0" using t(2) by (rule stores_0) simp
  then have "stores (EvStartMarker (cj_job_id job) # lease @ run @ off @ posts @ fin) \<le> (case r of Inr _ \<Rightarrow> 1 | Inl _ \<Rightarrow> 0)"
    using t(3-6) by (auto simp: stores_reports stored_def split: sum.splits)
  moreover have "job_trace job (EvStartMarker (cj_job_id job) # lease @ run @ off @ posts @ fin)"
    using t(2-6) by (intro job_trace.ran) auto
  ultimately show ?thesis using t(1) by blast
qed

text \<open>A turn of the loop: idle, or one claimed job.\<close>

definition turn_trace :: "event list \<Rightarrow> bool" where
  "turn_trace t \<longleftrightarrow> t = [] \<or> (\<exists>job s. t = EvClaimed job # s \<and> job_trace job s)"

lemma sleep_silent: "worker_sleep (observe env) d p = (c, q) \<Longrightarrow> snd q = snd p"
  by (intro logs_none) (rule staysD [OF worker_sleep_silent])

lemmas claim_retries_induct = claim_retries.raw_induct [rotated, consumes 1, case_names step]

lemma claim_retries_logs:
  assumes "claim_retries (we_api (observe env)) (worker_sleep (observe env)) n p = Some (c, q)"
  shows "snd q = snd p @ (case c of Some (Job job) \<Rightarrow> [EvClaimed job] | _ \<Rightarrow> [])"
proof -
  have "snd (snd x) = snd p @ (case fst x of Some (Job job) \<Rightarrow> [EvClaimed job] | _ \<Rightarrow> [])"
    if "claim_retries api sleep n p = Some x" "api = we_api (observe env)" "sleep = worker_sleep (observe env)"
    for api sleep n p x
    using that
  proof (induction api sleep n p x rule: claim_retries_induct)
    case (step f api sleep n p x)
    obtain poll p1 where 1: "poll_claim api p = (poll, p1)" by (rule prod.exhaust)
    let ?d = "exponential_backoff n CLAIM_BACKOFF_FIRST CLAIM_BACKOFF_CAP"
    obtain c p2 where 2: "sleep ?d p1 = (c, p2)" by (rule prod.exhaust)
    have p1: "snd p1 = snd p @ (case poll of Job job \<Rightarrow> [EvClaimed job] | _ \<Rightarrow> [])"
      using 1 step.prems
      by (auto simp: poll_claim_def observe_we_api observe_api_def observed_def claimed_event_def
          split: prod.splits sum.splits option.splits if_splits)
    have p2: "snd p2 = snd p1" using 2 step.prems by (auto intro: sleep_silent)
    show ?case
      using step(2) p1 p2 step(1) [OF _ step.prems]
      by (auto simp: 1 2 split: claim_poll.splits if_splits)
  qed
  from this [OF assms refl refl] show ?thesis by simp
qed

lemma idle_wait_silent: "idle_wait_with_jitter (silent f) a b p = (d, q) \<Longrightarrow> snd q = snd p"
  by (auto simp: idle_wait_with_jitter_def jittered_def observed_def split: prod.splits)

lemma loop_turn_trace:
  assumes "loop_turn (observe env) br args n p = Some (step, q)"
  shows "\<exists>t. snd q = snd p @ t \<and> turn_trace t \<and>
    (case step of
       Again m \<Rightarrow> n + stores t \<le> m \<and> (n < max_jobs args \<longrightarrow> m < max_jobs args)
     | Leave _ \<Rightarrow> stores t \<le> 1)"
proof -
  obtain st p0 where 0: "we_stop (observe env) p = (st, p0)" by (rule prod.exhaust)
  then have p0: "snd p0 = snd p" by (auto simp: observed_def split: prod.splits)
  show ?thesis
  proof (cases st)
    case True
    then show ?thesis using assms p0 unfolding loop_turn_def 0 by (auto simp: turn_trace_def)
  next
    case False
    then obtain c p1 where
      1: "claim_with_retry (we_api (observe env)) (worker_sleep (observe env)) p0 = Some (c, p1)"
      using assms unfolding loop_turn_def 0 by (auto split: option.splits)
    have p1: "snd p1 = snd p @ (case c of Some (Job job) \<Rightarrow> [EvClaimed job] | _ \<Rightarrow> [])"
      using claim_retries_logs [of env 1 p0 c p1] 1 p0 by (simp add: claim_with_retry_def)
    show ?thesis
    proof (cases "\<exists>job. c = Some (Job job)")
      case True
      then obtain job where c: "c = Some (Job job)" by blast
      obtain r where o: "claimed_job_outcome (observe env) br (heartbeat_secs args) job p1 = Some (r, q)"
        "step = after_job args n r"
        using assms False c 1 unfolding loop_turn_def 0 by (auto split: option.splits)
      from outcome_trace [OF o(1)] obtain t where
        "snd q = snd p1 @ t" "job_trace job t" "stores t \<le> (case r of Inr _ \<Rightarrow> 1 | Inl _ \<Rightarrow> 0)" by blast
      then show ?thesis
        using p1 c o(2) by (intro exI [of _ "EvClaimed job # t"])
          (auto simp: turn_trace_def after_job_def split: sum.splits if_splits)
    next
      case no: False
      have "snd q = snd p \<and> (step = Again n \<or> (\<exists>r. step = Leave r))"
        using assms False no 1 p1 unfolding loop_turn_def 0
        by (auto simp: Let_def dest!: idle_wait_silent sleep_silent
            split: option.splits claim_poll.splits prod.splits if_splits)
      then show ?thesis by (intro exI [of _ "[]"]) (auto simp: turn_trace_def)
    qed
  qed
qed

lemmas claim_loop_induct = claim_loop.raw_induct [rotated, consumes 1, case_names step]

lemma claim_loop_trace:
  assumes "claim_loop (observe env) br args n p = Some (r, q)" "n < max_jobs args \<or> max_jobs args = 0"
  shows "\<exists>ts. snd q = snd p @ concat ts \<and> list_all turn_trace ts \<and>
    (0 < max_jobs args \<longrightarrow> n + stores (concat ts) \<le> max_jobs args)"
proof -
  have "\<exists>ts. snd (snd x) = snd p @ concat ts \<and> list_all turn_trace ts \<and>
      (0 < max_jobs args \<longrightarrow> n + stores (concat ts) \<le> max_jobs args)"
    if "claim_loop e br args n p = Some x" "e = observe env" "n < max_jobs args \<or> max_jobs args = 0"
    for e br args n p x
    using that
  proof (induction e br args n p x rule: claim_loop_induct)
    case (step f e br args n p x)
    obtain s p1 where turn: "loop_turn e br args n p = Some (s, p1)"
      using step(2) by (auto split: option.splits)
    obtain t where t: "snd p1 = snd p @ t" "turn_trace t"
      "case s of Again m \<Rightarrow> n + stores t \<le> m \<and> (n < max_jobs args \<longrightarrow> m < max_jobs args) | Leave _ \<Rightarrow> stores t \<le> 1"
      using loop_turn_trace [OF turn [unfolded step.prems(1)]] by blast
    show ?case
    proof (cases s)
      case (Leave r)
      then show ?thesis using step(2) step.prems turn t by (intro exI [of _ "[t]"]) auto
    next
      case (Again m)
      then have "f e br args m p1 = Some x" "m < max_jobs args \<or> max_jobs args = 0"
        using step(2) step.prems turn t(3) by auto
      from step(1) [OF this(1) step.prems(1) this(2)] obtain ts where
        "snd (snd x) = snd p1 @ concat ts" "list_all turn_trace ts"
        "0 < max_jobs args \<longrightarrow> m + stores (concat ts) \<le> max_jobs args" by (elim exE conjE)
      then show ?thesis using t Again by (intro exI [of _ "t # ts"]) auto
    qed
  qed
  from this [OF assms(1) refl assms(2)] show ?thesis by simp
qed

section \<open>The properties of the worker\<close>

text \<open>C1.
  Whatever the server, the run and the device answer, a worker that ends has done nothing but whole
  turns: each idle, or one claim followed by what one job may leave. That is either the report of a
  reboot as a failure that is not retried, or marker, lease, at most one run, marker off, reports of
  this very job, and at most one storing of its result, always in this order. With \<open>--max-jobs n\<close> it
  stores at most \<open>n\<close> results.
\<close>

theorem worker_trace:
  assumes "claim_loop (observe env) boot_reason args 0 (w, []) = Some (r, w', t)"
  shows "\<exists>ts. t = concat ts \<and> list_all turn_trace ts \<and> (0 < max_jobs args \<longrightarrow> stores t \<le> max_jobs args)"
proof -
  have "0 < max_jobs args \<or> max_jobs args = 0" by auto
  from claim_loop_trace [OF assms this] show ?thesis by auto
qed

text \<open>C33.
  A claimed job whose marker shows a reboot is never run again: only failure reports of it, none of
  them retriable, are sent, and nothing but the marker's removal follows.
\<close>

theorem rebooted_job_is_reported:
  assumes "claimed_job_outcome (observe env) boot_reason hb job (w, []) = Some (r, w', t)"
    and "rebooted_now env job w"
  shows "\<exists>posts rm. t = posts @ rm \<and> set posts \<subseteq> failures job False \<and> (rm = [] \<or> rm = [EvRemoveMarker])"
  using reboot_outcome_logs [OF assms(1)] assms(2) by simp

text \<open>C11.
  Once the heartbeat has found the lease lost, a job reports nothing and stores nothing: its result
  belongs to whoever holds the lease now.
\<close>

theorem lost_lease_reports_nothing:
  assumes "heartbeat_thread (we_api (observe env)) (we_recv_timeout (observe env)) (we_random (observe env))
      (cj_job_id job) (resolve_heartbeat_interval (cj_time_window job) hb) (w, []) = Some (True, w1)"
    and "run_claimed_job (observe env) job claimed_at hb marked (w, []) = Some (r, w', t)"
  shows "list_all (\<lambda>e. e \<in> {EvBeat (cj_job_id job), EvReclaim (cj_job_id job), EvRun (cj_job_id job), EvDropMarker}) t"
proof -
  let ?A = "{EvBeat (cj_job_id job), EvReclaim (cj_job_id job), EvRun (cj_job_id job), EvDropMarker}"
  have "logs ?A (w, []) w1"
    using assms(1) by (rule lg.heartbeat_thread_rel [rotated 4]) (auto intro: observe_api_stays stays_observed)
  moreover obtain rr p2 where e: "execute_job (observe env) job w1 = (rr, p2)" by (rule prod.exhaust)
  have "logs ?A w1 p2" using execute_job_logs [OF e] by (auto simp: logs_def)
  moreover let ?p3 = "if marked then stepped [EvDropMarker] (we_marker_drop env) p2 else p2"
  have "logs ?A p2 ?p3" by (auto simp: logs_def stepped_def)
  ultimately have "logs ?A (w, []) ?p3" using lg.rel_trans by blast
  moreover obtain took where "submit_finished_run (observe env) job rr took True ?p3 = (r, w', t)"
    using assms(2) by (auto simp: run_claimed_job_def assms(1) [simplified] e Let_def cong: if_cong)
  then have "snd ?p3 = t" using finished_run_lost [of env job rr took ?p3] by simp
  ultimately show ?thesis by (auto simp: logs_def list_all_iff)
qed

section \<open>The properties at a concrete worker\<close>

text \<open>A server that hands out one job over and over, counting; a run that ends at once.\<close>

definition trial_job :: claimed_job where
  "trial_job = \<lparr>cj_job_id = ''j'', cj_benchmark_id = ''b'', cj_time_window = ''PT1H'', cj_spec = JObject []\<rparr>"

definition trial_env ::
  "in_flight option \<Rightarrow> bool \<Rightarrow> mgmt_error + unit \<Rightarrow> (nat, unit, unit, unit, unit, unit) worker_env" where
  "trial_env marker beat_due beat_answer =
     \<lparr>we_api = \<lparr>api_claim = \<lambda>w. (Inr (Some trial_job), Suc w), api_heartbeat = \<lambda>_ w. (beat_answer, w),
        api_reclaim = \<lambda>_ w. (Inr (), w), api_submit = \<lambda>_ w. (Inr ''s'', w)\<rparr>,
      we_stop = \<lambda>w. (False, w), we_thread_sleep = \<lambda>_ w. w, we_recv_timeout = \<lambda>_ w. (beat_due, w),
      we_random = \<lambda>w. (0, w), we_now = \<lambda>_. 0, we_utc = \<lambda>_. (0, None),
      we_boot = \<lparr>boot_ident = Some ''new'', boot_start = Some 1\<rparr>,
      we_marker_read = \<lambda>w. (Inr marker, w), we_marker_start = \<lambda>_ w. (Inr (), w),
      we_marker_drop = \<lambda>w. w, we_marker_remove = \<lambda>w. w, we_run_spec = \<lambda>_ w. (Inr (), w),
      we_cached_benchmark = \<lambda>_ w. (Inr (Some ((), None)), w), we_get_benchmark = \<lambda>_ _ w. (Inr NotModified, w),
      we_convert = Inr, we_cache_benchmark = \<lambda>_ _ w. w, we_run_cell = \<lambda>_ _ w. (Inr ((), (), None), w),
      we_set_device_time = \<lambda>_ p. p, we_device_time = \<lambda>_. None, we_to_value = \<lambda>_. Inr (JObject []),
      we_store_result = \<lambda>_ _ _ w. w, we_finalize_checkpoint = \<lambda>_ w. w,
      we_client_version = ''1'', we_display = \<lambda>_. []\<rparr>"

lemma trial_env_simps [simp]:
  "we_stop (trial_env marker beat_due beat_answer) = (\<lambda>w. (False, w))"
  "we_thread_sleep (trial_env marker beat_due beat_answer) = (\<lambda>_ w. w)"
  "we_recv_timeout (trial_env marker beat_due beat_answer) = (\<lambda>_ w. (beat_due, w))"
  "we_random (trial_env marker beat_due beat_answer) = (\<lambda>w. (0, w))"
  "we_now (trial_env marker beat_due beat_answer) = (\<lambda>_. 0)"
  "we_utc (trial_env marker beat_due beat_answer) = (\<lambda>_. (0, None))"
  "we_boot (trial_env marker beat_due beat_answer) = (\<lparr>boot_ident = Some ''new'', boot_start = Some 1\<rparr>)"
  "we_marker_read (trial_env marker beat_due beat_answer) = (\<lambda>w. (Inr marker, w))"
  "we_marker_start (trial_env marker beat_due beat_answer) = (\<lambda>_ w. (Inr (), w))"
  "we_marker_drop (trial_env marker beat_due beat_answer) = (\<lambda>w. w)"
  "we_marker_remove (trial_env marker beat_due beat_answer) = (\<lambda>w. w)"
  "we_run_spec (trial_env marker beat_due beat_answer) = (\<lambda>_ w. (Inr (), w))"
  "we_cached_benchmark (trial_env marker beat_due beat_answer) = (\<lambda>_ w. (Inr (Some ((), None)), w))"
  "we_get_benchmark (trial_env marker beat_due beat_answer) = (\<lambda>_ _ w. (Inr NotModified, w))"
  "we_convert (trial_env marker beat_due beat_answer) = (Inr)"
  "we_cache_benchmark (trial_env marker beat_due beat_answer) = (\<lambda>_ _ w. w)"
  "we_run_cell (trial_env marker beat_due beat_answer) = (\<lambda>_ _ w. (Inr ((), (), None), w))"
  "we_set_device_time (trial_env marker beat_due beat_answer) = (\<lambda>_ p. p)"
  "we_device_time (trial_env marker beat_due beat_answer) = (\<lambda>_. None)"
  "we_to_value (trial_env marker beat_due beat_answer) = (\<lambda>_. Inr (JObject []))"
  "we_store_result (trial_env marker beat_due beat_answer) = (\<lambda>_ _ _ w. w)"
  "we_finalize_checkpoint (trial_env marker beat_due beat_answer) = (\<lambda>_ w. w)"
  "we_client_version (trial_env marker beat_due beat_answer) = (''1'')"
  "we_display (trial_env marker beat_due beat_answer) = (\<lambda>_. [])"
  by (simp_all add: trial_env_def)

lemma trial_env_api: "we_api (trial_env marker beat_due beat_answer) =
   \<lparr>api_claim = \<lambda>w. (Inr (Some trial_job), Suc w), api_heartbeat = \<lambda>_ w. (beat_answer, w), api_reclaim = \<lambda>_ w. (Inr (), w), api_submit = \<lambda>_ w. (Inr ''s'', w)\<rparr>"
  by (simp add: trial_env_def)

definition trial_args :: worker_args where
  "trial_args = \<lparr>idle_secs = 1, idle_jitter_secs = 0, heartbeat_secs = None, max_jobs = 1\<rparr>"

definition trial_report :: json where
  "trial_report = JObject [(''job_id'', JString ''j'')]"

definition old_marker :: in_flight where
  "old_marker = \<lparr>if_job_id = ''j'', if_boot_id = Some ''old'', if_started_at = [], alive_at = Some 0\<rparr>"

lemma trial_post:
  "post_completion (we_api (observe (trial_env m d a))) job_id body sleep (w, t) = (Inr True, w, t @ [EvSubmit body])"
  by (simp add: post_completion_def submit_plan_result_with_backoff_def SUBMIT_ATTEMPTS_def upt_rec
      settled_or_again_def try_submit_plan_result_def observe_we_api observe_api_def trial_env_api observed_def)

lemma trial_execute:
  "execute_job (observe (trial_env m d a)) trial_job (w, t) = (Inr ((), (), None), w, t @ [EvRun ''j''])"
  by (simp add: execute_job_def ensure_claim_benchmark_cached_def observed_def trial_job_def)

lemma trial_quiet_lease:
  "heartbeat_thread (we_api (observe (trial_env m False a))) (we_recv_timeout (observe (trial_env m False a)))
     (we_random (observe (trial_env m False a))) job_id every (w, t) = Some (False, w, t)"
  by (subst heartbeat_thread_def, subst heartbeat_loop.simps) (simp add: observed_def)

lemma trial_lost_lease:
  "heartbeat_thread (we_api (observe (trial_env m True (Inl (HttpStatus 409 [])))))
     (we_recv_timeout (observe (trial_env m True (Inl (HttpStatus 409 [])))))
     (we_random (observe (trial_env m True (Inl (HttpStatus 409 []))))) job_id every (w, t) =
   Some (True, w, t @ [EvBeat job_id])"
  by (subst heartbeat_thread_def, subst heartbeat_loop.simps)
    (simp add: keepalive_lease_def observe_we_api observe_api_def trial_env_api observed_def)

lemma trial_outcome:
  "claimed_job_outcome (observe (trial_env None False a)) br hb trial_job (w, t) =
     Some (Inr (), w, t @ [EvStartMarker ''j'', EvRun ''j'', EvDropMarker, EvSubmit (SuccessBody trial_report),
       EvStore ''j'', EvFinalize])"
proof -
  have "submit_success (observe (trial_env None False a)) trial_job () () None (w, t) =
      (Inr (), w, t @ [EvSubmit (SuccessBody trial_report), EvStore ''j'', EvFinalize])" for t
    using trial_post [of None False a "''j''" "SuccessBody trial_report"]
    by (simp add: submit_success_def bind_result_def trial_job_def trial_report_def stepped_def)
  then have "submit_finished_run (observe (trial_env None False a)) trial_job (Inr ((), (), None)) d False (w, t) =
      (Inr (), w, t @ [EvSubmit (SuccessBody trial_report), EvStore ''j'', EvFinalize])" for d t
    by (simp add: submit_finished_run_def)
  note run = trial_quiet_lease [of None] trial_execute [of None] this
  have "run_claimed_job (observe (trial_env None False a)) trial_job at hb True (w, t) =
      Some (Inr (), w, t @ [EvRun ''j'', EvDropMarker, EvSubmit (SuccessBody trial_report), EvStore ''j'', EvFinalize])"
    for at t
    using run by (simp add: run_claimed_job_def Let_def stepped_def)
  then show ?thesis
    by (simp add: claimed_job_outcome_def observed_def claimed_marker_def decide_def new_marker_def
        trial_job_def)
qed

theorem worker_trace_witness:
  "\<exists>t. claim_loop (observe (trial_env None False (Inr ()))) None trial_args 0 (0, []) = Some (Inr (), 1, t) \<and>
     stores t = 1 \<and>
     (\<exists>ts. t = concat ts \<and> list_all turn_trace ts \<and> (0 < max_jobs trial_args \<longrightarrow> stores t \<le> max_jobs trial_args))"
proof -
  let ?env = "observe (trial_env None False (Inr ()))"
  let ?t = "[EvClaimed trial_job, EvStartMarker ''j'', EvRun ''j'', EvDropMarker,
    EvSubmit (SuccessBody trial_report), EvStore ''j'', EvFinalize]"
  have "claim_with_retry (we_api ?env) (worker_sleep ?env) (0, []) = Some (Some (Job trial_job), 1, [EvClaimed trial_job])"
    by (subst claim_with_retry_def, subst claim_retries.simps) (simp add: poll_claim_def observe_we_api observe_api_def
        observed_def claimed_event_def trial_env_api)
  moreover have "we_stop ?env (0, []) = (False, 0, [])" by (simp add: observed_def)
  ultimately have "loop_turn ?env None trial_args 0 (0, []) = Some (Leave (Inr ()), 1, ?t)"
    using trial_outcome [of "Inr ()"] unfolding loop_turn_def by (simp add: after_job_def trial_args_def)
  then have loop: "claim_loop ?env None trial_args 0 (0, []) = Some (Inr (), 1, ?t)"
    by (subst claim_loop.simps) simp
  moreover have "stores ?t = 1" by simp
  ultimately show ?thesis using worker_trace [OF loop] by (intro exI [of _ ?t] conjI)
qed

theorem rebooted_job_is_reported_witness:
  "\<exists>t posts rm. claimed_job_outcome (observe (trial_env (Some old_marker) False (Inr ()))) None None trial_job (0, [])
       = Some (Inr (), 0, t) \<and> t = posts @ rm \<and> set posts \<subseteq> failures trial_job False \<and>
     (rm = [] \<or> rm = [EvRemoveMarker])"
proof -
  let ?env = "trial_env (Some old_marker) False (Inr ())"
  have d: "decide (Some old_marker) ''j'' (we_boot ?env) = Rebooted ''old'' ''new''"
    by (simp add: decide_def old_marker_def checked_add_time_def REBOOT_WINDOW_def LATEST_def)
  then have "rebooted_now ?env trial_job 0"
    by (simp add: rebooted_now_def claimed_marker_def trial_job_def)
  moreover obtain body where outcome: "claimed_job_outcome (observe ?env) None None trial_job (0, []) =
      Some (Inr (), 0, [EvSubmit body, EvRemoveMarker])"
    using d trial_post [of "Some old_marker" False "Inr ()" "''j''"]
    by (auto simp: claimed_job_outcome_def submit_failure_def observed_def stepped_def claimed_marker_def
        trial_job_def)
  ultimately show ?thesis using rebooted_job_is_reported [OF outcome] by blast
qed

theorem lost_lease_reports_nothing_witness:
  "\<exists>r w t. run_claimed_job (observe (trial_env None True (Inl (HttpStatus 409 [])))) trial_job 0 None True (0, [])
       = Some (r, w, t) \<and>
     list_all (\<lambda>e. e \<in> {EvBeat ''j'', EvReclaim ''j'', EvRun ''j'', EvDropMarker}) t"
proof -
  let ?env = "observe (trial_env None True (Inl (HttpStatus 409 [])))"
  have "run_claimed_job ?env trial_job 0 None True (0, []) = Some (Inr (), 0, [EvBeat ''j'', EvRun ''j'', EvDropMarker])"
    using trial_lost_lease [of None "''j''"] trial_execute [of None True]
    by (simp add: run_claimed_job_def Let_def stepped_def submit_finished_run_def trial_job_def)
  with lost_lease_reports_nothing [OF trial_lost_lease this] show ?thesis
    by (simp add: trial_job_def)
qed

end
