(* ===== verification/Resume.thy ===== *)
theory Resume
  imports Failure_Report "HOL-Library.Word"
begin

text \<open>
  A download that continues a broken body, \<open>pipette-artifacts/src/resume.rs\<close>, with the hashing
  writer of \<open>digest.rs\<close> and the progress of \<open>progress.rs\<close>. A response is its status, the headers a
  resumed download reads, and the finite list of answers its reads give. The disk answers the
  writes, and the creation of the destination, from finite lists, and grants every later one in
  full. The open file is the file at the destination, written at its end. The server is any
  \<^term>\<open>src_get\<close> on a world.
\<close>

section \<open>Definitions\<close>

type_synonym u64 = "64 word"

datatype io_fault = Interrupted | IoFault io_error_kind

record body =
  body_status :: nat
  body_etag :: "string option"
  body_range :: "string option"
  body_length :: "u64 option"
  body_reads :: "(io_fault + string) list"

record reporter =
  rep_total :: "nat option"
  rep_done :: nat
  rep_log :: "(string \<times> nat \<times> nat option) list"

record 'w download =
  net :: 'w
  dest_file :: "string option"
  setup_answers :: "io_error_kind option list"
  write_answers :: "(io_fault + nat) list"
  dl_reporter :: reporter

subsection \<open>Progress\<close>

definition advance :: "string \<Rightarrow> nat \<Rightarrow> reporter \<Rightarrow> reporter" where
  "advance file n rep =
     (let d = sat_add64 (rep_done rep) n
      in rep\<lparr>rep_done := d, rep_log := rep_log rep @ [(file, d, rep_total rep)]\<rparr>)"

definition mark :: "reporter \<Rightarrow> nat" where
  "mark rep = rep_done rep"

definition rewind :: "nat \<Rightarrow> reporter \<Rightarrow> reporter" where
  "rewind m rep = rep\<lparr>rep_done := min (rep_done rep) m\<rparr>"

definition set_total_if_unknown :: "nat option \<Rightarrow> reporter \<Rightarrow> reporter" where
  "set_total_if_unknown tot rep = (if rep_total rep = None then rep\<lparr>rep_total := tot\<rparr> else rep)"

definition finish :: "string \<Rightarrow> reporter \<Rightarrow> reporter" where
  "finish artifact rep =
     (let tot = (case rep_total rep of Some t \<Rightarrow> t | None \<Rightarrow> rep_done rep)
      in advance artifact (tot - rep_done rep) (rep\<lparr>rep_total := Some tot\<rparr>))"

subsection \<open>The hashing writer\<close>

text \<open>The hasher is the bytes it was fed.\<close>

record hashing_writer =
  hashed :: string
  written :: nat

definition new_writer :: hashing_writer where
  "new_writer = \<lparr>hashed = [], written = 0\<rparr>"

definition hex_digest :: "(string \<Rightarrow> string) \<Rightarrow> hashing_writer \<Rightarrow> string" where
  "hex_digest sha256_hex hw = sha256_hex (hashed hw)"

text \<open>
  What the operating system does with one \<open>write\<close>: a fault, or the bytes it accepts, which are
  never more than it was given.
\<close>

definition file_write :: "string \<Rightarrow> 'w download \<Rightarrow> (io_fault + nat) \<times> 'w download" where
  "file_write buf s =
     (let (answer, rest) = (case write_answers s of [] \<Rightarrow> (Inr (length buf), []) | a # as \<Rightarrow> (a, as))
      in case answer of
           Inl e \<Rightarrow> (Inl e, s\<lparr>write_answers := rest\<rparr>)
         | Inr m \<Rightarrow>
             (let n = min m (length buf) in
              (Inr n, s\<lparr>write_answers := rest, dest_file := map_option (\<lambda>c. c @ take n buf) (dest_file s)\<rparr>)))"

definition hw_write ::
  "hashing_writer \<Rightarrow> string \<Rightarrow> 'w download \<Rightarrow> (io_fault + nat) \<times> hashing_writer \<times> 'w download" where
  "hw_write hw buf s =
     (case file_write buf s of
        (Inl e, s1) \<Rightarrow> (Inl e, hw, s1)
      | (Inr n, s1) \<Rightarrow>
          if length buf < n then (Inl (IoFault OtherKind), hw, s1)
          else (let accepted = take n buf
                in (Inr n, hw\<lparr>hashed := hashed hw @ accepted,
                              written := sat_add64 (written hw) (length accepted)\<rparr>, s1)))"

text \<open>\<open>Write::write_all\<close> of the standard library.\<close>

function write_all ::
  "hashing_writer \<Rightarrow> string \<Rightarrow> 'w download \<Rightarrow> (io_error_kind + unit) \<times> hashing_writer \<times> 'w download" where
  "write_all hw buf s =
     (if buf = [] then (Inr (), hw, s)
      else case hw_write hw buf s of
             (Inr n, hw1, s1) \<Rightarrow>
               if n = 0 then (Inl OtherKind, hw1, s1) else write_all hw1 (drop n buf) s1
           | (Inl Interrupted, hw1, s1) \<Rightarrow> write_all hw1 buf s1
           | (Inl (IoFault k), hw1, s1) \<Rightarrow> (Inl k, hw1, s1))"
  by pat_completeness auto
termination
  by (relation "measure (\<lambda>(hw, buf, s). length buf + length (write_answers s))")
    (auto simp: hw_write_def file_write_def Let_def split: list.splits sum.splits if_splits)

declare write_all.simps [simp del]

definition COPY_BUFFER :: nat where "COPY_BUFFER = 8 * 1024"

fun copy_reporting ::
  "(io_fault + string) list \<Rightarrow> string \<Rightarrow> hashing_writer \<Rightarrow> 'w download
     \<Rightarrow> (io_error_kind + unit) \<times> hashing_writer \<times> 'w download" where
  "copy_reporting [] file hw s = (Inr (), hw, s)"
| "copy_reporting (Inl Interrupted # rest) file hw s = copy_reporting rest file hw s"
| "copy_reporting (Inl (IoFault k) # rest) file hw s = (Inl k, hw, s)"
| "copy_reporting (Inr chunk # rest) file hw s =
     (if chunk = [] then (Inr (), hw, s)
      else if COPY_BUFFER < length chunk then (Inl OtherKind, hw, s)
      else case write_all hw chunk s of
             (Inl k, hw1, s1) \<Rightarrow> (Inl k, hw1, s1)
           | (Inr _, hw1, s1) \<Rightarrow>
               copy_reporting rest file hw1 (s1\<lparr>dl_reporter := advance file (length chunk) (dl_reporter s1)\<rparr>))"

subsection \<open>What a range must match\<close>

record expect =
  ex_etag :: "string option"
  ex_total :: "u64 option"

record partial =
  pt_writer :: hashing_writer
  pt_expect :: expect
  resumed_at :: "nat option"

record resume_point =
  rs_offset :: nat
  rs_etag :: string
  rs_total :: "u64 option"

record ('w, 'e) source =
  src_get :: "resume_point option \<Rightarrow> 'w \<Rightarrow> ('e + body) \<times> 'w"
  src_range_refused :: "'e \<Rightarrow> bool"
  src_expect :: "body \<Rightarrow> expect"
  src_io_error :: "io_error_kind \<Rightarrow> 'e"

definition body_content_range :: "body \<Rightarrow> content_range option" where
  "body_content_range b = content_range_from_header (body_range b)"

definition body_strong_etag :: "body \<Rightarrow> string option" where
  "body_strong_etag b = strong_etag (body_etag b)"

text \<open>One call that sets the destination up: creating its directory, or the file.\<close>

definition setup_call :: "'w download \<Rightarrow> (io_error_kind + unit) \<times> 'w download" where
  "setup_call s =
     (case setup_answers s of
        [] \<Rightarrow> (Inr (), s)
      | a # as \<Rightarrow> (case a of None \<Rightarrow> Inr () | Some k \<Rightarrow> Inl k, s\<lparr>setup_answers := as\<rparr>))"

definition partial_start :: "expect \<Rightarrow> 'w download \<Rightarrow> (io_error_kind + partial) \<times> 'w download" where
  "partial_start ex s =
     (case setup_call s of
        (Inl k, s1) \<Rightarrow> (Inl k, s1)
      | (Inr _, s1) \<Rightarrow>
          (Inr \<lparr>pt_writer = new_writer, pt_expect = ex, resumed_at = None\<rparr>, s1\<lparr>dest_file := Some []\<rparr>))"

definition partial_resume :: "nat \<Rightarrow> body \<Rightarrow> partial \<Rightarrow> partial" where
  "partial_resume offset b f =
     f\<lparr>resumed_at := (case resumed_at f of Some at \<Rightarrow> Some at | None \<Rightarrow> Some offset),
       pt_expect := (pt_expect f)\<lparr>ex_total :=
         (case ex_total (pt_expect f) of
            Some t \<Rightarrow> Some t
          | None \<Rightarrow> map_option of_nat (Option.bind (body_content_range b) cr_total))\<rparr>\<rparr>"

definition resume_point_of :: "partial \<Rightarrow> resume_point option" where
  "resume_point_of f =
     (let offset = written (pt_writer f) in
      if offset = 0 then None
      else map_option (\<lambda>e. \<lparr>rs_offset = offset, rs_etag = e, rs_total = ex_total (pt_expect f)\<rparr>)
             (ex_etag (pt_expect f)))"

definition continued_by :: "resume_point \<Rightarrow> body \<Rightarrow> bool" where
  "continued_by point b \<longleftrightarrow>
     body_status b = 206 \<and> body_strong_etag b = Some (rs_etag point) \<and>
     (case body_content_range b of
        None \<Rightarrow> False
      | Some r \<Rightarrow>
          cr_first r = rs_offset point \<and>
          (rs_total point = None \<or> cr_total r = map_option unat (rs_total point)))"

subsection \<open>An attempt\<close>

text \<open>
  The body of an attempt and the file it continues, if it does; the slot that keeps a broken file
  for a later attempt.
\<close>

definition open_source ::
  "('w, 'e) source \<Rightarrow> partial option \<Rightarrow> 'w \<Rightarrow> ('e + body \<times> partial option) \<times> partial option \<times> 'w" where
  "open_source src kept w =
     (case Option.bind kept resume_point_of of
        None \<Rightarrow>
          (case src_get src None w of
             (Inl e, w1) \<Rightarrow> (Inl e, None, w1)
           | (Inr b, w1) \<Rightarrow> (Inr (b, None), None, w1))
      | Some point \<Rightarrow>
          (let (answer, w1) = src_get src (Some point) w;
               again = (case src_get src None w1 of
                          (Inl e, w2) \<Rightarrow> (Inl e, None, w2)
                        | (Inr b, w2) \<Rightarrow> (Inr (b, None), None, w2))
           in case answer of
                Inr b \<Rightarrow>
                  if continued_by point b then
                    (Inr (b, map_option (partial_resume (rs_offset point) b) kept), None, w1)
                  else if body_status b = 200 then (Inr (b, None), None, w1)
                  else again
              | Inl e \<Rightarrow> if src_range_refused src e then again else (Inl e, kept, w1)))"

datatype 'e attempt_end = Done "'e + partial" | Again

definition start_file ::
  "('w, 'e) source \<Rightarrow> nat \<Rightarrow> body \<Rightarrow> 'w download \<Rightarrow> ('e + partial) \<times> 'w download" where
  "start_file src start b s =
     (case setup_call s of
        (Inl k, s1) \<Rightarrow> (Inl (src_io_error src k), s1)
      | (Inr _, s1) \<Rightarrow>
          (case partial_start (src_expect src b) (s1\<lparr>dl_reporter := rewind start (dl_reporter s1)\<rparr>) of
             (Inl k, s2) \<Rightarrow> (Inl (src_io_error src k), s2)
           | (Inr f, s2) \<Rightarrow> (Inr f, s2)))"

definition stopped_short :: "nat option \<Rightarrow> partial \<Rightarrow> bool" where
  "stopped_short piece_end f \<longleftrightarrow>
     (case piece_end of None \<Rightarrow> False | Some lst \<Rightarrow> written (pt_writer f) = sat_add64 lst 1) \<and>
     (case ex_total (pt_expect f) of None \<Rightarrow> False | Some t \<Rightarrow> written (pt_writer f) < unat t)"

definition stream_body ::
  "('w, 'e) source \<Rightarrow> string \<Rightarrow> body \<Rightarrow> nat option \<Rightarrow> partial \<Rightarrow> 'w download
     \<Rightarrow> 'e attempt_end \<times> partial option \<times> 'w download" where
  "stream_body src name b piece_end f s =
     (case copy_reporting (body_reads b) name (pt_writer f) s of
        (Inl k, hw, s1) \<Rightarrow> (Done (Inl (src_io_error src k)), Some (f\<lparr>pt_writer := hw\<rparr>), s1)
      | (Inr _, hw, s1) \<Rightarrow>
          (let f1 = f\<lparr>pt_writer := hw\<rparr> in
           if stopped_short piece_end f1 then (Again, Some f1, s1) else (Done (Inr f1), None, s1)))"

definition attempt_turn ::
  "('w, 'e) source \<Rightarrow> string \<Rightarrow> nat \<Rightarrow> partial option \<Rightarrow> 'w download
     \<Rightarrow> 'e attempt_end \<times> partial option \<times> 'w download" where
  "attempt_turn src name start kept s =
     (case open_source src kept (net s) of
        (Inl e, kept1, w1) \<Rightarrow> (Done (Inl e), kept1, s\<lparr>net := w1\<rparr>)
      | (Inr (b, Some f), kept1, w1) \<Rightarrow>
          stream_body src name b (map_option cr_last (body_content_range b)) f (s\<lparr>net := w1\<rparr>)
      | (Inr (b, None), kept1, w1) \<Rightarrow>
          (case start_file src start b (s\<lparr>net := w1\<rparr>) of
             (Inl e, s2) \<Rightarrow> (Done (Inl e), kept1, s2)
           | (Inr f, s2) \<Rightarrow> stream_body src name b None f s2))"

text \<open>A range answer that stopped short has brought at least one byte, so the loop ends.\<close>

lemma content_range_ordered: "content_range_from_header h = Some r \<Longrightarrow> cr_first r \<le> cr_last r"
  by (auto simp: content_range_from_header_def bind_eq_Some_conv split: if_splits prod.splits)

lemma unat_u64_max: "unat (x :: u64) \<le> u64_max"
  using unsigned_less [of x, where 'a = nat] by (simp add: u64_max_def)

lemma continued_offset:
  assumes "open_source src kept w = (Inr (b, Some f), kept1, w1)"
  shows "\<exists>f0 r. kept = Some f0 \<and> body_content_range b = Some r \<and> f = partial_resume (cr_first r) b f0 \<and>
    cr_first r = written (pt_writer f0) \<and> cr_first r \<le> cr_last r"
  using assms
  by (auto simp: open_source_def resume_point_of_def continued_by_def body_content_range_def Let_def
      bind_eq_Some_conv dest: content_range_ordered split: option.splits prod.splits sum.splits if_splits)

lemma stream_body_again:
  assumes "stream_body src name b piece_end f s = (Again, kept1, s1)"
  shows "\<exists>f1 lst. kept1 = Some f1 \<and> piece_end = Some lst \<and> written (pt_writer f1) = sat_add64 lst 1 \<and>
    written (pt_writer f1) < u64_max"
proof -
  have "n < u64_max" if "n < unat (t :: u64)" for n t using that unat_u64_max [of t] by simp
  then show ?thesis
    using assms by (auto simp: stream_body_def stopped_short_def Let_def
        split: prod.splits sum.splits if_splits option.splits)
qed

lemma attempt_turn_again:
  assumes "attempt_turn src name start kept s = (Again, kept1, s1)"
  shows "\<exists>f f1. kept = Some f \<and> kept1 = Some f1 \<and> written (pt_writer f) < written (pt_writer f1) \<and>
    written (pt_writer f1) < u64_max"
proof -
  obtain r k w1 where o: "open_source src kept (net s) = (r, k, w1)" by (rule prod_cases3)
  then obtain b f where r: "r = Inr (b, Some f)"
    and st: "stream_body src name b (map_option cr_last (body_content_range b)) f (s\<lparr>net := w1\<rparr>) = (Again, kept1, s1)"
    using assms stream_body_again by (fastforce simp: attempt_turn_def split: sum.splits prod.splits option.splits)
  from continued_offset [OF o [unfolded r]] stream_body_again [OF st] show ?thesis
    by (auto simp: sat_add64_def)
qed

function attempt ::
  "('w, 'e) source \<Rightarrow> string \<Rightarrow> nat \<Rightarrow> partial option \<Rightarrow> 'w download
     \<Rightarrow> ('e + partial) \<times> partial option \<times> 'w download" where
  "attempt src name start kept s =
     (case attempt_turn src name start kept s of
        (Done r, kept1, s1) \<Rightarrow> (r, kept1, s1)
      | (Again, kept1, s1) \<Rightarrow> attempt src name start kept1 s1)"
  by pat_completeness auto
termination
proof (relation "measure (\<lambda>(src, name, start, kept, s).
        case kept of None \<Rightarrow> 0 | Some f \<Rightarrow> u64_max - written (pt_writer f))")
  fix src :: "('w, 'e) source" and name start kept and s s1 :: "'w download"
    and x :: "'e attempt_end" and y kept1
  assume "(x, y) = attempt_turn src name start kept s" "x = Again" "(kept1, s1) = y"
  then have "attempt_turn src name start kept s = (Again, kept1, s1)" by simp
  from attempt_turn_again [OF this]
  show "((src, name, start, kept1, s1), src, name, start, kept, s) \<in> measure (\<lambda>(src, name, start, kept, s).
        case kept of None \<Rightarrow> 0 | Some f \<Rightarrow> u64_max - written (pt_writer f))"
    by auto
qed simp

declare attempt.simps [simp del]

section \<open>What is on the disk is what was hashed\<close>

definition writer_ok :: "hashing_writer \<Rightarrow> 'w download \<Rightarrow> bool" where
  "writer_ok hw s \<longleftrightarrow> dest_file s = Some (hashed hw) \<and> written hw = min (length (hashed hw)) u64_max"

lemma writer_ok_start: "writer_ok new_writer (s\<lparr>dest_file := Some []\<rparr>)"
  by (simp add: writer_ok_def new_writer_def)

lemma writer_ok_frame [simp]:
  "writer_ok hw (s\<lparr>dl_reporter := rep\<rparr>) = writer_ok hw s"
  "writer_ok hw (s\<lparr>net := w\<rparr>) = writer_ok hw s"
  "writer_ok hw (s\<lparr>write_answers := as\<rparr>) = writer_ok hw s"
  by (simp_all add: writer_ok_def)

lemma hw_write_ok:
  assumes "hw_write hw buf s = (r, hw1, s1)" "writer_ok hw s"
  shows "writer_ok hw1 s1 \<and> hashed hw1 = hashed hw @ (case r of Inr n \<Rightarrow> take n buf | Inl _ \<Rightarrow> [])"
proof -
  have "min (min a m + b) m = min (a + b) m" for a b m :: nat by (simp add: min_def)
  then show ?thesis
    using assms by (auto simp: hw_write_def file_write_def writer_ok_def sat_add64_def Let_def
        split: list.splits sum.splits if_splits)
qed

text \<open>The writer took a part \<open>t\<close> of \<open>buf\<close>, all of it when it reports success.\<close>

definition took :: "string \<Rightarrow> 'e + unit \<Rightarrow> hashing_writer \<Rightarrow> hashing_writer \<Rightarrow> bool" where
  "took buf r hw hw1 \<longleftrightarrow>
     (\<exists>t. hashed hw1 = hashed hw @ t \<and> prefix t buf \<and> (r = Inr () \<longrightarrow> t = buf))"

lemma took_none: "r = Inr () \<longrightarrow> buf = [] \<Longrightarrow> took buf r hw hw"
  by (auto simp: took_def)

lemma took_more:
  assumes "hashed hw1 = hashed hw @ t" "took buf r hw1 hw2"
  shows "took (t @ buf) r hw hw2"
  using assms unfolding took_def by (metis append.assoc same_prefix_prefix)

lemma took_part:
  assumes "took buf (Inl k) hw hw1"
  shows "took (buf @ rest) (Inl k') hw hw1"
  using assms unfolding took_def by (auto simp: prefix_prefix)

lemma write_all_ok:
  assumes "write_all hw buf s = (r, hw1, s1)" "writer_ok hw s"
  shows "writer_ok hw1 s1 \<and> took buf r hw hw1"
  using assms
proof (induction hw buf s arbitrary: r hw1 s1 rule: write_all.induct)
  case (1 hw buf s)
  show ?case
  proof (cases "buf = []")
    case True
    then show ?thesis using "1.prems" by (subst (asm) write_all.simps) (auto simp: took_def)
  next
    case False
    obtain a h t where w: "hw_write hw buf s = (a, h, t)" by (rule prod_cases3)
    have ok: "writer_ok h t" "hashed h = hashed hw @ (case a of Inr n \<Rightarrow> take n buf | Inl _ \<Rightarrow> [])"
      using hw_write_ok [OF w "1.prems"(2)] by simp_all
    show ?thesis
    proof (cases a)
      case (Inl e)
      then show ?thesis
        using 1 False w ok by (cases e) (auto simp: write_all.simps [of hw buf] took_def)
    next
      case (Inr n)
      then have go: "n = 0 \<and> r = Inl OtherKind \<and> hw1 = h \<and> s1 = t \<or> n \<noteq> 0 \<and> write_all h (drop n buf) t = (r, hw1, s1)"
        using "1.prems"(1) False w by (auto simp: write_all.simps [of hw buf] split: if_splits)
      show ?thesis
      proof (cases "n = 0")
        case True
        then show ?thesis using go ok Inr by (auto simp: took_def)
      next
        case n: False
        then have "writer_ok hw1 s1 \<and> took (drop n buf) r h hw1"
          using "1.IH"(2) [OF False w [symmetric] Inr refl n] go ok(1) by blast
        then show ?thesis using took_more [of h hw "take n buf"] ok(2) Inr by fastforce
      qed
    qed
  qed
qed

fun body_text :: "(io_fault + string) list \<Rightarrow> string" where
  "body_text [] = []"
| "body_text (Inl Interrupted # rest) = body_text rest"
| "body_text (Inl (IoFault k) # rest) = []"
| "body_text (Inr chunk # rest) = (if chunk = [] then [] else chunk @ body_text rest)"

lemma copy_reporting_ok:
  assumes "copy_reporting rs name hw s = (r, hw1, s1)" "writer_ok hw s"
  shows "writer_ok hw1 s1 \<and> took (body_text rs) r hw hw1"
  using assms
proof (induction rs name hw s arbitrary: r hw1 s1 rule: copy_reporting.induct)
  case (4 chunk rs name hw s)
  show ?case
  proof (cases "chunk = [] \<or> COPY_BUFFER < length chunk")
    case True
    then show ?thesis using "4.prems" by (auto simp: took_def split: if_splits)
  next
    case False
    obtain a h t where w: "write_all hw chunk s = (a, h, t)" by (rule prod_cases3)
    have ok: "writer_ok h t" "took chunk a hw h" using write_all_ok [OF w "4.prems"(2)] by simp_all
    show ?thesis
    proof (cases a)
      case (Inl k)
      then show ?thesis using "4.prems" False w ok by (auto intro: took_part)
    next
      case (Inr u)
      then have "hashed h = hashed hw @ chunk" using ok(2) by (auto simp: took_def)
      moreover have "writer_ok hw1 s1 \<and> took (body_text rs) r h hw1"
        using "4.IH" [OF _ _ w [symmetric] Inr] "4.prems" False w ok Inr by auto
      ultimately show ?thesis using False took_more by auto
    qed
  qed
qed (auto simp: took_def)

section \<open>What holds of the file across attempts\<close>

lemma open_source_error:
  "open_source src kept w = (Inl e, k, w1) \<Longrightarrow> k = None \<or> k = kept"
  by (auto simp: open_source_def Let_def split: option.splits prod.splits sum.splits if_splits)

lemma open_source_fresh:
  assumes "open_source src kept w = (Inr (b, None), k, w1)"
  shows "k = None \<and> (\<exists>rp w0. src_get src rp w0 = (Inr b, w1) \<and> (rp = None \<or> body_status b = 200))"
  using assms
  by (auto simp: open_source_def Let_def bind_eq_Some_conv split: option.splits prod.splits sum.splits if_splits)

lemma open_source_continued:
  assumes "open_source src kept w = (Inr (b, Some f1), k, w1)"
  shows "k = None \<and> (\<exists>f p. kept = Some f \<and> resume_point_of f = Some p \<and> src_get src (Some p) w = (Inr b, w1) \<and>
    continued_by p b \<and> f1 = partial_resume (rs_offset p) b f)"
  using assms
  by (auto simp: open_source_def Let_def bind_eq_Some_conv split: option.splits prod.splits sum.splits if_splits)

lemma start_file_ok:
  assumes "start_file src start b s = (Inr f, s1)"
  shows "f = \<lparr>pt_writer = new_writer, pt_expect = src_expect src b, resumed_at = None\<rparr> \<and>
    (\<exists>s0. s1 = s0\<lparr>dest_file := Some []\<rparr>)"
  using assms by (auto simp: start_file_def partial_start_def split: prod.splits sum.splits)

lemma stream_body_result:
  assumes "stream_body src name b piece_end f s = (x, kept1, s1)"
  shows "\<exists>r hw. copy_reporting (body_reads b) name (pt_writer f) s = (r, hw, s1) \<and>
    (case x of
       Done (Inr f1) \<Rightarrow> r = Inr () \<and> f1 = f\<lparr>pt_writer := hw\<rparr> \<and> kept1 = None \<and> \<not> stopped_short piece_end f1
     | Done (Inl _) \<Rightarrow> kept1 = Some (f\<lparr>pt_writer := hw\<rparr>)
     | Again \<Rightarrow> r = Inr () \<and> kept1 = Some (f\<lparr>pt_writer := hw\<rparr>))"
  using assms by (auto simp: stream_body_def Let_def split: prod.splits sum.splits if_splits)

text \<open>
  What a broken file keeps (\<open>I False\<close>) and what a file whose last body ended well has (\<open>I True\<close>):
  a body that starts the file establishes it, one that continues it preserves it.
\<close>

locale partial_inv =
  fixes src :: "('w, 'e) source" and I :: "bool \<Rightarrow> partial \<Rightarrow> 'w download \<Rightarrow> bool"
  assumes fresh_inv: "src_get src rp w = (Inr b, w') \<Longrightarrow> rp = None \<or> body_status b = 200 \<Longrightarrow>
      copy_reporting (body_reads b) name new_writer (s\<lparr>dest_file := Some []\<rparr>) = (r, hw, s1) \<Longrightarrow>
      I (r = Inr ()) \<lparr>pt_writer = hw, pt_expect = src_expect src b, resumed_at = None\<rparr> s1"
    and resumed_inv: "src_get src (Some p) w = (Inr b, w') \<Longrightarrow> resume_point_of f = Some p \<Longrightarrow> continued_by p b \<Longrightarrow>
      I False f s \<Longrightarrow> copy_reporting (body_reads b) name (pt_writer f) s = (r, hw, s1) \<Longrightarrow>
      I (r = Inr ()) ((partial_resume (rs_offset p) b f)\<lparr>pt_writer := hw\<rparr>) s1"
    and weaken: "I True f s \<Longrightarrow> I False f s"
    and frame: "I ended f (s\<lparr>net := w\<rparr>) = I ended f s"
begin

definition held :: "partial option \<Rightarrow> 'w download \<Rightarrow> bool" where
  "held kept s \<longleftrightarrow> (\<forall>f. kept = Some f \<longrightarrow> I False f s)"

lemma held_simps [simp]: "held None s" "held (Some f) s = I False f s" "held kept (s\<lparr>net := w\<rparr>) = held kept s"
  by (auto simp: held_def frame)

lemma stream_keeps:
  assumes "stream_body src name b piece_end f s = (x, kept1, s1)"
    and "\<And>r hw. copy_reporting (body_reads b) name (pt_writer f) s = (r, hw, s1) \<Longrightarrow> I (r = Inr ()) (f\<lparr>pt_writer := hw\<rparr>) s1"
  shows "held kept1 s1 \<and> (\<forall>f1. x = Done (Inr f1) \<longrightarrow> I True f1 s1)"
proof -
  obtain r hw where "copy_reporting (body_reads b) name (pt_writer f) s = (r, hw, s1)"
    "case x of
       Done (Inr f1) \<Rightarrow> r = Inr () \<and> f1 = f\<lparr>pt_writer := hw\<rparr> \<and> kept1 = None \<and> \<not> stopped_short piece_end f1
     | Done (Inl _) \<Rightarrow> kept1 = Some (f\<lparr>pt_writer := hw\<rparr>)
     | Again \<Rightarrow> r = Inr () \<and> kept1 = Some (f\<lparr>pt_writer := hw\<rparr>)"
    using stream_body_result [OF assms(1)] by blast
  with assms(2) [of r hw] show ?thesis by (cases x; cases "r = Inr ()") (auto split: sum.splits intro: weaken)
qed

lemma turn_keeps:
  assumes "attempt_turn src name start kept s = (x, kept1, s1)" "held kept s"
  shows "held kept1 s1 \<and> (\<forall>f. x = Done (Inr f) \<longrightarrow> I True f s1)"
proof -
  obtain o_r k w1 where o: "open_source src kept (net s) = (o_r, k, w1)" by (rule prod_cases3)
  consider (error) e where "o_r = Inl e" | (fresh) b where "o_r = Inr (b, None)"
    | (continued) b f1 where "o_r = Inr (b, Some f1)"
    by (metis option.exhaust prod.exhaust sum.exhaust)
  then show ?thesis
  proof cases
    case error
    then show ?thesis
      using assms open_source_error [of src kept "net s" e k w1] o by (auto simp: attempt_turn_def)
  next
    case (fresh b)
    obtain rp w0 where get: "src_get src rp w0 = (Inr b, w1)" "rp = None \<or> body_status b = 200" and k: "k = None"
      using open_source_fresh [OF o [unfolded fresh]] by blast
    obtain sr s2 where st: "start_file src start b (s\<lparr>net := w1\<rparr>) = (sr, s2)" by (rule prod.exhaust)
    show ?thesis
    proof (cases sr)
      case (Inl e)
      then show ?thesis using assms o fresh st k by (auto simp: attempt_turn_def)
    next
      case (Inr f)
      then obtain s0 where f: "f = \<lparr>pt_writer = new_writer, pt_expect = src_expect src b, resumed_at = None\<rparr>"
        and s0: "s2 = s0\<lparr>dest_file := Some []\<rparr>" using start_file_ok st by blast
      have "stream_body src name b None f s2 = (x, kept1, s1)"
        using assms(1) o fresh st Inr by (simp add: attempt_turn_def)
      then show ?thesis
        by (rule stream_keeps) (use get in \<open>auto simp: f s0 intro: fresh_inv\<close>)
    qed
  next
    case (continued b f1)
    obtain f p where c: "kept = Some f" "resume_point_of f = Some p" "src_get src (Some p) (net s) = (Inr b, w1)"
      "continued_by p b" "f1 = partial_resume (rs_offset p) b f"
      using open_source_continued [OF o [unfolded continued]] by blast
    have "stream_body src name b (map_option cr_last (body_content_range b)) f1 (s\<lparr>net := w1\<rparr>) = (x, kept1, s1)"
      using assms(1) o continued by (simp add: attempt_turn_def)
    then show ?thesis
      by (rule stream_keeps)
        (use assms(2) c(1) in \<open>auto simp: c(5) frame partial_resume_def
           intro!: resumed_inv [OF c(3,2,4), where s = "s\<lparr>net := w1\<rparr>", unfolded partial_resume_def]\<close>)
  qed
qed

lemma attempt_keeps:
  assumes "attempt src name start kept s = (r, kept1, s1)" "held kept s"
  shows "held kept1 s1 \<and> (\<forall>f. r = Inr f \<longrightarrow> I True f s1)"
proof -
  have "held kept1 s1 \<and> (\<forall>f. r = Inr f \<longrightarrow> I True f s1)"
    if "attempt src' name start kept s = (r, kept1, s1)" "src' = src" "held kept s"
    for src' name start kept s r kept1 s1
    using that
  proof (induction src' name start kept s arbitrary: r kept1 s1 rule: attempt.induct)
    case (1 src' name start kept s)
    obtain x k s2 where t: "attempt_turn src name start kept s = (x, k, s2)" by (rule prod_cases3)
    note keep = turn_keeps [OF t "1.prems"(3)]
    show ?case
    proof (cases x)
      case (Done r')
      then show ?thesis using "1.prems" t keep by (simp add: attempt.simps [of src name start kept s])
    next
      case Again
      then show ?thesis
        using "1.prems" t keep "1.IH" [of x "(k, s2)" k s2 r kept1 s1]
        by (simp add: attempt.simps [of src name start kept s])
    qed
  qed
  from this [OF assms(1) refl assms(2)] show ?thesis .
qed

end

subsection \<open>The file is the bytes that were hashed\<close>

interpretation disk: partial_inv src "\<lambda>_ f s. writer_ok (pt_writer f) s" for src
proof
  fix b :: body and name r hw and s s1 :: "'a download"
  assume "copy_reporting (body_reads b) name new_writer (s\<lparr>dest_file := Some []\<rparr>) = (r, hw, s1)"
  then show "writer_ok (pt_writer \<lparr>pt_writer = hw, pt_expect = src_expect src b, resumed_at = None\<rparr>) s1"
    using copy_reporting_ok writer_ok_start by fastforce
next
  fix b :: body and f :: partial and name r hw p and s s1 :: "'a download"
  assume "writer_ok (pt_writer f) s" "copy_reporting (body_reads b) name (pt_writer f) s = (r, hw, s1)"
  then show "writer_ok (pt_writer ((partial_resume (rs_offset p) b f)\<lparr>pt_writer := hw\<rparr>)) s1"
    using copy_reporting_ok by fastforce
qed simp_all

subsection \<open>The file is one version of the object\<close>

text \<open>
  What HTTP promises of strong entity tags: a tag names one object. A body that answers without a
  range announces the tag and the length of an object and is its start, all of it when the body ends
  well; a \<open>206\<close> is the start of the rest from the first byte it names. A body may break anywhere,
  and the server may change the object between any two requests.
\<close>

fun body_ends :: "(io_fault + string) list \<Rightarrow> bool" where
  "body_ends [] = True"
| "body_ends (Inl Interrupted # rest) = body_ends rest"
| "body_ends (Inl (IoFault k) # rest) = False"
| "body_ends (Inr chunk # rest) = (chunk = [] \<or> body_ends rest)"

definition serves_versions :: "(string \<Rightarrow> string) \<Rightarrow> ('w, 'e) source \<Rightarrow> bool" where
  "serves_versions object src \<longleftrightarrow>
     (\<forall>e. length (object e) \<le> u64_max) \<and>
     (\<forall>rp w b w'. src_get src rp w = (Inr b, w') \<longrightarrow>
        (rp = None \<or> body_status b = 200 \<longrightarrow>
           (\<exists>e. src_expect src b = \<lparr>ex_etag = Some e, ex_total = Some (of_nat (length (object e)))\<rparr> \<and>
              prefix (body_text (body_reads b)) (object e) \<and>
              (body_ends (body_reads b) \<longrightarrow> body_text (body_reads b) = object e))) \<and>
        (rp \<noteq> None \<and> body_status b = 206 \<longrightarrow>
           (\<forall>r e. body_content_range b = Some r \<longrightarrow> body_strong_etag b = Some e \<longrightarrow>
              prefix (body_text (body_reads b)) (drop (cr_first r) (object e)))))"

definition one_version :: "(string \<Rightarrow> string) \<Rightarrow> bool \<Rightarrow> partial \<Rightarrow> 'w download \<Rightarrow> bool" where
  "one_version object ended f s \<longleftrightarrow> writer_ok (pt_writer f) s \<and>
     (\<exists>e. pt_expect f = \<lparr>ex_etag = Some e, ex_total = Some (of_nat (length (object e)))\<rparr> \<and>
        prefix (hashed (pt_writer f)) (object e) \<and>
        (ended \<and> resumed_at f = None \<longrightarrow> hashed (pt_writer f) = object e))"

lemma copy_ends: "copy_reporting rs name hw s = (Inr (), hw1, s1) \<Longrightarrow> body_ends rs"
  by (induction rs name hw s rule: copy_reporting.induct) (auto split: if_splits prod.splits sum.splits)

lemma prefix_continue:
  assumes "prefix xs zs" "prefix ys (drop (length xs) zs)"
  shows "prefix (xs @ ys) zs"
  using assms by (auto simp: prefix_def)

lemma took_prefix: "took buf r hw hw1 \<Longrightarrow> \<exists>t. hashed hw1 = hashed hw @ t \<and> prefix t buf"
  by (auto simp: took_def)

lemma one_version_fresh:
  assumes "serves_versions object src" "src_get src rp w = (Inr b, w')" "rp = None \<or> body_status b = 200"
    and "copy_reporting (body_reads b) name new_writer (s\<lparr>dest_file := Some []\<rparr>) = (r, hw, s1)"
  shows "one_version object (r = Inr ()) \<lparr>pt_writer = hw, pt_expect = src_expect src b, resumed_at = None\<rparr> s1"
proof -
  let ?text = "body_text (body_reads b)"
  have ok: "writer_ok hw s1" "took ?text r new_writer hw"
    using copy_reporting_ok [OF assms(4) writer_ok_start] by simp_all
  then have hw: "prefix (hashed hw) ?text" "r = Inr () \<longrightarrow> hashed hw = ?text"
    by (auto simp: new_writer_def took_def)
  obtain e where e: "src_expect src b = \<lparr>ex_etag = Some e, ex_total = Some (of_nat (length (object e)))\<rparr>"
    "prefix ?text (object e)" "body_ends (body_reads b) \<longrightarrow> ?text = object e"
    using assms(1-3) unfolding serves_versions_def by blast
  have "r = Inr () \<longrightarrow> hashed hw = object e" using hw(2) e(3) assms(4) by (auto dest: copy_ends)
  moreover have "prefix (hashed hw) (object e)" using hw(1) e(2) by (rule prefix_order.trans)
  ultimately show ?thesis using ok(1) e(1) by (simp add: one_version_def)
qed

lemma one_version_resumed:
  assumes "serves_versions object src" "src_get src (Some p) w = (Inr b, w')"
    and p: "resume_point_of f = Some p" "continued_by p b" and inv: "one_version object False f s"
    and copy: "copy_reporting (body_reads b) name (pt_writer f) s = (r, hw, s1)"
  shows "one_version object ended ((partial_resume (rs_offset p) b f)\<lparr>pt_writer := hw\<rparr>) s1"
proof -
  obtain e where pre: "pt_expect f = \<lparr>ex_etag = Some e, ex_total = Some (of_nat (length (object e)))\<rparr>"
    "prefix (hashed (pt_writer f)) (object e)" "writer_ok (pt_writer f) s"
    using inv by (auto simp: one_version_def)
  have e: "rs_etag p = e" "rs_offset p = written (pt_writer f)"
    using p(1) pre(1) by (auto simp: resume_point_of_def Let_def split: if_splits)
  obtain cr where cr: "body_content_range b = Some cr" "cr_first cr = rs_offset p" "body_strong_etag b = Some e"
    "body_status b = 206"
    using p(2) e by (auto simp: continued_by_def split: option.splits)
  have ok: "writer_ok hw s1" "took (body_text (body_reads b)) r (pt_writer f) hw"
    using copy_reporting_ok [OF copy pre(3)] by simp_all
  have "length (object e) \<le> u64_max" using assms(1) by (simp add: serves_versions_def)
  then have len: "length (hashed (pt_writer f)) = cr_first cr"
    using pre(3) prefix_length_le [OF pre(2)] e cr by (simp add: writer_ok_def)
  have "prefix (body_text (body_reads b)) (drop (cr_first cr) (object e))"
    using assms(1,2) cr unfolding serves_versions_def by blast
  then have "prefix (hashed hw) (object e)"
    using took_prefix [OF ok(2)] prefix_continue [OF pre(2)] len prefix_order.trans by fastforce
  then show ?thesis
    using ok(1) pre(1) by (simp add: one_version_def partial_resume_def split: option.splits)
qed

lemma versions_inv: "serves_versions object src \<Longrightarrow> partial_inv src (one_version object)"
  by unfold_locales
    (rule one_version_fresh one_version_resumed; assumption | force simp: one_version_def)+

end
