(* ===== verification/Fetch.thy ===== *)
theory Fetch
  imports Resume
begin

text \<open>
  Fetching one file of an artifact: a vault object (\<open>pipette-artifacts/src/vault.rs\<close>), a public file
  or a local one (\<open>model/fetch.rs\<close>), and the errors of \<open>pipette-http/src/lib.rs\<close> a retry looks at.
  The servers, the random source, the clock and \<open>sha2\<close> are operations of an environment. The retry
  loop is that of \<open>Retry\<close>; the slot that keeps a broken file between its attempts is part of the
  state it threads.
\<close>

section \<open>Definitions\<close>

subsection \<open>HTTP\<close>

fun http_disposition :: "http_error \<Rightarrow> disposition" where
  "http_disposition (Request e) = (if req_is_builder e \<or> req_is_redirect e then Permanent else TRANSIENT)"
| "http_disposition (HttpTimedOut e) = TRANSIENT"
| "http_disposition (HttpRefused status after) =
     (if 500 \<le> status \<and> status \<le> 599 \<or> status = 429 then Transient after else Permanent)"
| "http_disposition CryptoProviderInstall = Permanent"
| "http_disposition ClientBuild = Permanent"
| "http_disposition HttpJson = Permanent"

text \<open>A response with its \<open>Retry-After\<close> header.\<close>

definition retry_after :: "string option \<Rightarrow> duration option" where
  "retry_after header = Option.bind header (\<lambda>v. map_option from_secs (parse_u64 (trim v)))"

definition send :: "(reqwest_error + string option \<times> body) \<Rightarrow> http_error + body" where
  "send answer =
     (case answer of
        Inl e \<Rightarrow> Inl (if req_is_timeout e then HttpTimedOut e else Request e)
      | Inr (header, b) \<Rightarrow>
          if 200 \<le> body_status b \<and> body_status b \<le> 299 then Inr b
          else Inl (HttpRefused (body_status b) (retry_after header)))"

definition is_valid_header_value :: "string \<Rightarrow> bool" where
  "is_valid_header_value v =
     list_all (\<lambda>c. of_char c = (9 :: nat) \<or> 0x20 \<le> (of_char c :: nat) \<and> of_char c \<le> (0x7e :: nat)) v"

definition entity_tag :: "string \<Rightarrow> string option" where
  "entity_tag v = (if is_valid_header_value v then Some v else None)"

subsection \<open>The environment\<close>

record vault_resource =
  vr_id :: string
  vr_sha256 :: string
  vr_bytes :: u64

record 'w fetch_env =
  fe_registered :: bool
  fe_resource :: "string \<Rightarrow> 'w \<Rightarrow> (mgmt_error + vault_resource) \<times> 'w"
  fe_content :: "string \<Rightarrow> (nat \<times> string) option \<Rightarrow> 'w \<Rightarrow> (mgmt_error + body) \<times> 'w"
  fe_get :: "string \<Rightarrow> string option \<Rightarrow> (string \<times> string) option \<Rightarrow> 'w
    \<Rightarrow> (reqwest_error + string option \<times> body) \<times> 'w"
  fe_copy :: "string \<Rightarrow> 'w \<Rightarrow> (io_error_kind + string) \<times> 'w"
  fe_random :: "'w \<Rightarrow> nat \<times> 'w"
  fe_sleep :: "duration \<Rightarrow> 'w \<Rightarrow> 'w"
  fe_sha256 :: "string \<Rightarrow> string"

type_synonym 'w fetch_state = "'w download \<times> partial option"

definition state_random :: "'w fetch_env \<Rightarrow> 'w fetch_state \<Rightarrow> nat \<times> 'w fetch_state" where
  "state_random env st = (let (roll, w) = fe_random env (net (fst st)) in (roll, (fst st)\<lparr>net := w\<rparr>, snd st))"

definition state_sleep :: "'w fetch_env \<Rightarrow> duration \<Rightarrow> 'w fetch_state \<Rightarrow> 'w fetch_state" where
  "state_sleep env d st = ((fst st)\<lparr>net := fe_sleep env d (net (fst st))\<rparr>, snd st)"

definition file_name :: "fs_path \<Rightarrow> string" where
  "file_name p = (if p = [] then [] else last p)"

subsection \<open>A vault object\<close>

definition read_record ::
  "'w fetch_env \<Rightarrow> string \<Rightarrow> string option \<Rightarrow> 'w \<Rightarrow> (vault_fetch_error + vault_resource) \<times> 'w" where
  "read_record env resource_id pinned w =
     (if \<not> fe_registered env then (Inl Unregistered, w)
      else case fe_resource env resource_id w of
             (Inl e, w1) \<Rightarrow> (Inl (refusal e), w1)
           | (Inr rec, w1) \<Rightarrow>
               (case pinned of
                  Some plan \<Rightarrow> if plan \<noteq> vr_sha256 rec then Inl PinDisagrees else Inr rec
                | None \<Rightarrow> Inr rec, w1))"

definition resource ::
  "'w fetch_env \<Rightarrow> retry_policy \<Rightarrow> string \<Rightarrow> string option \<Rightarrow> 'w \<Rightarrow> (vault_fetch_error + vault_resource) \<times> 'w" where
  "resource env policy resource_id pinned w =
     retrying (fe_random env) (fe_sleep env) policy (\<lambda>_. read_record env resource_id pinned) vault_disposition w"

definition expect_of :: "vault_resource \<Rightarrow> expect" where
  "expect_of rec = \<lparr>ex_etag = entity_tag ([CHR 0x22] @ vr_sha256 rec @ [CHR 0x22]), ex_total = Some (vr_bytes rec)\<rparr>"

fun range_status :: "vault_fetch_error \<Rightarrow> bool" where
  "range_status (VaultMgmt e) = (http_status e = Some 416)"
| "range_status _ = False"

definition vault_content :: "'w fetch_env \<Rightarrow> vault_resource \<Rightarrow> ('w, vault_fetch_error) source" where
  "vault_content env rec =
     \<lparr>src_get = \<lambda>resume w.
        (case fe_content env (vr_id rec) (map_option (\<lambda>p. (rs_offset p, rs_etag p)) resume) w of
           (Inl e, w1) \<Rightarrow> (Inl (refusal e), w1)
         | (Inr b, w1) \<Rightarrow> (Inr b, w1)),
      src_range_refused = range_status,
      src_expect = \<lambda>_. expect_of rec,
      src_io_error = VaultIo\<rparr>"

definition fetch_content ::
  "'w fetch_env \<Rightarrow> vault_resource \<Rightarrow> fs_path \<Rightarrow> nat \<Rightarrow> 'w fetch_state
     \<Rightarrow> (vault_fetch_error + unit) \<times> 'w fetch_state" where
  "fetch_content env rec dest start st =
     (let (s, kept) = st;
          kept1 = (case kept of Some f \<Rightarrow> if pt_expect f \<noteq> expect_of rec then None else Some f | None \<Rightarrow> None);
          s1 = s\<lparr>dl_reporter := set_total_if_unknown (Some (unat (vr_bytes rec))) (dl_reporter s)\<rparr>
      in case attempt (vault_content env rec) (file_name dest) start kept1 s1 of
           (Inl e, kept2, s2) \<Rightarrow> (Inl e, s2, kept2)
         | (Inr f, kept2, s2) \<Rightarrow>
             if written (pt_writer f) < unat (vr_bytes rec) then (Inl (VaultIo OtherKind), s2, Some f)
             else if hex_digest (fe_sha256 env) (pt_writer f) \<noteq> vr_sha256 rec then
               (Inl (case resumed_at f of Some _ \<Rightarrow> ResumedDrift | None \<Rightarrow> Drift), s2, kept2)
             else (Inr (), s2, kept2))"

definition vault_turn ::
  "'w fetch_env \<Rightarrow> string \<Rightarrow> string option \<Rightarrow> fs_path \<Rightarrow> nat \<Rightarrow> 'w fetch_state
     \<Rightarrow> (vault_fetch_error + vault_resource) \<times> 'w fetch_state" where
  "vault_turn env resource_id pinned dest start st =
     (case read_record env resource_id pinned (net (fst st)) of
        (Inl e, w1) \<Rightarrow> (Inl e, (fst st)\<lparr>net := w1\<rparr>, snd st)
      | (Inr rec, w1) \<Rightarrow>
          (case fetch_content env rec dest start ((fst st)\<lparr>net := w1\<rparr>, snd st) of
             (Inl e, st1) \<Rightarrow> (Inl e, st1)
           | (Inr _, st1) \<Rightarrow> (Inr rec, st1)))"

definition fetch_to_file ::
  "'w fetch_env \<Rightarrow> retry_policy \<Rightarrow> string \<Rightarrow> string option \<Rightarrow> fs_path \<Rightarrow> 'w download
     \<Rightarrow> (vault_fetch_error + vault_resource) \<times> 'w download" where
  "fetch_to_file env policy resource_id pinned dest s =
     (let start = mark (dl_reporter s);
          (r, s1, _) = retrying (state_random env) (state_sleep env) policy
            (\<lambda>_. vault_turn env resource_id pinned dest start) vault_disposition (s, None)
      in (r, s1))"

subsection \<open>A public file\<close>

datatype model_fetch_error =
  NotFetchable string
| BadUrl string
| InvalidDestination string
| UnresolvedDestination
| NothingToFetch string
| Sha256Mismatch fs_path string string
| ResumedSha256Mismatch fs_path nat string string
| ResumedLengthMismatch fs_path nat nat nat
| FetchHttp string http_error
| Listing string bool
| FetchIo "string option" io_error_kind
| FetchVault vault_fetch_error

text \<open>A listing error carries whether it is malformed JSON.\<close>

fun fetch_disposition :: "model_fetch_error \<Rightarrow> disposition" where
  "fetch_disposition (FetchHttp _ source) = http_disposition source"
| "fetch_disposition (ResumedSha256Mismatch _ _ _ _) = TRANSIENT"
| "fetch_disposition (ResumedLengthMismatch _ _ _ _) = TRANSIENT"
| "fetch_disposition (Listing _ malformed) = (if \<not> malformed then TRANSIENT else Permanent)"
| "fetch_disposition (FetchIo None source) = (if \<not> names_the_host source then TRANSIENT else Permanent)"
| "fetch_disposition (FetchIo (Some _) _) = Permanent"
| "fetch_disposition (NotFetchable _) = Permanent"
| "fetch_disposition (BadUrl _) = Permanent"
| "fetch_disposition (InvalidDestination _) = Permanent"
| "fetch_disposition UnresolvedDestination = Permanent"
| "fetch_disposition (NothingToFetch _) = Permanent"
| "fetch_disposition (Sha256Mismatch _ _ _) = Permanent"
| "fetch_disposition (FetchVault _) = Permanent"

datatype origin = Public string "string option" | VaultOrigin string | LocalOrigin string

record download_plan =
  dp_origin :: origin
  dp_sha256 :: "string option"
  dp_dest :: fs_path

fun range_not_satisfiable :: "model_fetch_error \<Rightarrow> bool" where
  "range_not_satisfiable (FetchHttp _ (HttpRefused status _)) = (status = 416)"
| "range_not_satisfiable _ = False"

definition public_file :: "'w fetch_env \<Rightarrow> string \<Rightarrow> string option \<Rightarrow> ('w, model_fetch_error) source" where
  "public_file env url auth =
     \<lparr>src_get = \<lambda>resume w.
        (let (answer, w1) = fe_get env url auth
               (map_option (\<lambda>p. (''bytes='' @ decimal (rs_offset p) @ ''-'', rs_etag p)) resume) w
         in (case send answer of Inl e \<Rightarrow> Inl (FetchHttp url e) | Inr b \<Rightarrow> Inr b, w1)),
      src_range_refused = range_not_satisfiable,
      src_expect = \<lambda>b. \<lparr>ex_etag = Option.bind (body_strong_etag b) entity_tag, ex_total = body_length b\<rparr>,
      src_io_error = FetchIo None\<rparr>"

text \<open>The two checks of a file that was read to its end.\<close>

definition joined_length :: "download_plan \<Rightarrow> partial \<Rightarrow> model_fetch_error + unit" where
  "joined_length plan f =
     (case (resumed_at f, ex_total (pt_expect f)) of
        (Some at, Some expected) \<Rightarrow>
          if written (pt_writer f) \<noteq> unat expected
          then Inl (ResumedLengthMismatch (dp_dest plan) at (unat expected) (written (pt_writer f)))
          else Inr ()
      | _ \<Rightarrow> Inr ())"

definition declared_digest :: "'w fetch_env \<Rightarrow> download_plan \<Rightarrow> partial \<Rightarrow> model_fetch_error + unit" where
  "declared_digest env plan f =
     (let actual = hex_digest (fe_sha256 env) (pt_writer f) in
      case dp_sha256 plan of
        Some expected \<Rightarrow>
          if actual \<noteq> expected
          then Inl (case resumed_at f of
                      Some at \<Rightarrow> ResumedSha256Mismatch (dp_dest plan) at expected actual
                    | None \<Rightarrow> Sha256Mismatch (dp_dest plan) expected actual)
          else Inr ()
      | None \<Rightarrow> Inr ())"

definition fetch_public_file ::
  "'w fetch_env \<Rightarrow> string \<Rightarrow> string option \<Rightarrow> download_plan \<Rightarrow> nat \<Rightarrow> 'w fetch_state
     \<Rightarrow> (model_fetch_error + unit) \<times> 'w fetch_state" where
  "fetch_public_file env url auth plan start st =
     (case attempt (public_file env url auth) (file_name (dp_dest plan)) start (snd st) (fst st) of
        (Inl e, kept1, s1) \<Rightarrow> (Inl e, s1, kept1)
      | (Inr f, kept1, s1) \<Rightarrow>
          (bind_result (joined_length plan f) (\<lambda>_. declared_digest env plan f), s1, kept1))"

definition copy_file :: "'w fetch_env \<Rightarrow> string \<Rightarrow> 'w download \<Rightarrow> (model_fetch_error + unit) \<times> 'w download" where
  "copy_file env src s =
     (case setup_call s of
        (Inl k, s1) \<Rightarrow> (Inl (FetchIo (Some src) k), s1)
      | (Inr _, s1) \<Rightarrow>
          (case fe_copy env src (net s1) of
             (Inl k, w) \<Rightarrow> (Inl (FetchIo (Some src) k), s1\<lparr>net := w\<rparr>)
           | (Inr c, w) \<Rightarrow> (Inr (), s1\<lparr>net := w, dest_file := Some c\<rparr>)))"

definition fetch_file ::
  "'w fetch_env \<Rightarrow> retry_policy \<Rightarrow> download_plan \<Rightarrow> 'w download \<Rightarrow> (model_fetch_error + unit) \<times> 'w download" where
  "fetch_file env policy plan s =
     (case dp_origin plan of
        VaultOrigin path \<Rightarrow>
          (case fetch_to_file env policy path (dp_sha256 plan) (dp_dest plan) s of
             (Inl e, s1) \<Rightarrow> (Inl (FetchVault e), s1)
           | (Inr _, s1) \<Rightarrow> (Inr (), s1))
      | LocalOrigin path \<Rightarrow> copy_file env path s
      | Public url auth \<Rightarrow>
          (let start = mark (dl_reporter s);
               (r, s1, _) = retrying (state_random env) (state_sleep env) policy
                 (\<lambda>_. fetch_public_file env url auth plan start) fetch_disposition (s, None)
           in (r, s1)))"

section \<open>A fetched file is verified\<close>

definition kept_ok :: "'w fetch_state \<Rightarrow> bool" where
  "kept_ok st \<longleftrightarrow> (\<forall>f. snd st = Some f \<longrightarrow> writer_ok (pt_writer f) (fst st))"

lemma kept_ok_simps [simp]:
  "kept_ok (s, None)" "kept_ok (s, Some f) = writer_ok (pt_writer f) s"
  "kept_ok (s\<lparr>net := w\<rparr>, kept) = kept_ok (s, kept)"
  by (simp_all add: kept_ok_def)

lemma attempt_writer_ok:
  assumes "attempt src name start kept s = (r, kept1, s1)" "kept_ok (s, kept)"
  shows "kept_ok (s1, kept1) \<and> (\<forall>f. r = Inr f \<longrightarrow> writer_ok (pt_writer f) s1)"
  using disk.attempt_keeps [OF assms(1)] assms(2) by (simp add: disk.held_def kept_ok_def)

lemma state_effects:
  "fst (snd (state_random env st)) = (fst st)\<lparr>net := net (fst (snd (state_random env st)))\<rparr>"
  "snd (snd (state_random env st)) = snd st"
  by (auto simp: state_random_def split: prod.splits)

definition holds_verified :: "'w fetch_env \<Rightarrow> vault_resource \<Rightarrow> 'w download \<Rightarrow> bool" where
  "holds_verified env rec s \<longleftrightarrow>
     (\<exists>c. dest_file s = Some c \<and> fe_sha256 env c = vr_sha256 rec \<and> unat (vr_bytes rec) \<le> length c)"

lemma fetch_content_ok:
  assumes "fetch_content env rec dest start st = (r, st1)" "kept_ok st"
  shows "kept_ok st1 \<and> (r = Inr () \<longrightarrow> holds_verified env rec (fst st1))"
proof -
  obtain s kept where st: "st = (s, kept)" by fastforce
  let ?kept = "case kept of Some f \<Rightarrow> if pt_expect f \<noteq> expect_of rec then None else Some f | None \<Rightarrow> None"
  let ?s = "s\<lparr>dl_reporter := set_total_if_unknown (Some (unat (vr_bytes rec))) (dl_reporter s)\<rparr>"
  obtain a k2 s2 where a: "attempt (vault_content env rec) (file_name dest) start ?kept ?s = (a, k2, s2)"
    by (rule prod_cases3)
  have "kept_ok (?s, ?kept)" using assms(2) by (auto simp: st kept_ok_def split: option.splits)
  from attempt_writer_ok [OF a this] have ok: "kept_ok (s2, k2)" "\<forall>f. a = Inr f \<longrightarrow> writer_ok (pt_writer f) s2" by simp_all
  show ?thesis
  proof (cases a)
    case (Inl e)
    then show ?thesis using assms(1) a ok by (auto simp: fetch_content_def st Let_def)
  next
    case (Inr f)
    then show ?thesis
      using assms(1) a ok
      by (auto simp: fetch_content_def st Let_def holds_verified_def hex_digest_def writer_ok_def split: if_splits)
  qed
qed

lemma read_record_pin:
  assumes "read_record env resource_id pinned w = (Inr rec, w1)"
  shows "pinned = None \<or> pinned = Some (vr_sha256 rec)"
  using assms by (auto simp: read_record_def split: if_splits prod.splits sum.splits option.splits)

lemma vault_turn_ok:
  assumes "vault_turn env resource_id pinned dest start st = (r, st1)" "kept_ok st"
  shows "kept_ok st1 \<and> (\<forall>rec. r = Inr rec \<longrightarrow> holds_verified env rec (fst st1) \<and>
    (pinned = None \<or> pinned = Some (vr_sha256 rec)))"
proof -
  obtain rr w1 where rr: "read_record env resource_id pinned (net (fst st)) = (rr, w1)" by fastforce
  show ?thesis
  proof (cases rr)
    case (Inl e)
    then show ?thesis using assms rr by (auto simp: vault_turn_def kept_ok_def)
  next
    case (Inr rec)
    obtain c st2 where c: "fetch_content env rec dest start ((fst st)\<lparr>net := w1\<rparr>, snd st) = (c, st2)" by (rule prod.exhaust)
    have "kept_ok ((fst st)\<lparr>net := w1\<rparr>, snd st)" using assms(2) by (simp add: kept_ok_def)
    from fetch_content_ok [OF c this] show ?thesis
      using assms(1) rr Inr c read_record_pin [of env resource_id pinned "net (fst st)" rec w1]
      by (auto simp: vault_turn_def split: sum.splits)
  qed
qed

lemma retrying_state:
  assumes "retrying (state_random env) (state_sleep env) policy f classify st = (r, st1)" "kept_ok st"
    and "\<And>n st r st1. kept_ok st \<Longrightarrow> f n st = (r, st1) \<Longrightarrow> kept_ok st1 \<and> (\<forall>x. r = Inr x \<longrightarrow> Q x st1)"
  shows "kept_ok st1 \<and> (\<forall>x. r = Inr x \<longrightarrow> Q x st1)"
  using assms(1) unfolding retrying_def
  by (rule with_retries_invariant [where I = kept_ok])
    (use assms(2,3) in \<open>auto simp: kept_ok_def jittered_def state_random_def state_sleep_def split: prod.splits\<close>)

text \<open>C6.
  A vault fetch that succeeds leaves at its destination a file whose SHA-256 is the one the record
  pins, the plan's own pin agreeing with it, whatever the connection, the disk and the server did in
  between: broken bodies, short and interrupted writes, refused ranges, restarts, and a record that
  changed between two attempts.
\<close>

theorem vault_fetch_verified:
  assumes "fetch_to_file env policy resource_id pinned dest s = (Inr rec, s1)"
  shows "(\<exists>c. dest_file s1 = Some c \<and> fe_sha256 env c = vr_sha256 rec \<and> unat (vr_bytes rec) \<le> length c) \<and>
    (pinned = None \<or> pinned = Some (vr_sha256 rec))"
proof -
  obtain kept where "retrying (state_random env) (state_sleep env) policy
      (\<lambda>_. vault_turn env resource_id pinned dest (mark (dl_reporter s))) vault_disposition (s, None) = (Inr rec, s1, kept)"
    using assms by (auto simp: fetch_to_file_def Let_def split: prod.splits)
  note run = this
  let ?Q = "\<lambda>rec st. holds_verified env rec (fst st) \<and> (pinned = None \<or> pinned = Some (vr_sha256 rec))"
  have "kept_ok (s1, kept) \<and> (\<forall>x. (Inr rec :: vault_fetch_error + _) = Inr x \<longrightarrow> ?Q x (s1, kept))"
    by (rule retrying_state [OF run kept_ok_simps(1), where Q = ?Q]) (rule vault_turn_ok)
  then show ?thesis by (simp add: holds_verified_def)
qed

section \<open>A public file is one version of its object\<close>

definition versions_ok :: "(string \<Rightarrow> string) \<Rightarrow> 'w fetch_state \<Rightarrow> bool" where
  "versions_ok object st \<longleftrightarrow> (\<forall>f. snd st = Some f \<longrightarrow> one_version object False f (fst st))"

lemma one_version_frame [simp]: "one_version object ended f (s\<lparr>net := w\<rparr>) = one_version object ended f s"
  by (simp add: one_version_def)

lemma joined_whole:
  assumes "one_version object True f s" "joined_length plan f = Inr ()" "\<And>e. length (object e) \<le> u64_max"
  shows "\<exists>e. dest_file s = Some (object e) \<and> hashed (pt_writer f) = object e"
proof -
  obtain e where f: "pt_expect f = \<lparr>ex_etag = Some e, ex_total = Some (of_nat (length (object e)))\<rparr>"
    "prefix (hashed (pt_writer f)) (object e)" "resumed_at f = None \<longrightarrow> hashed (pt_writer f) = object e"
    "writer_ok (pt_writer f) s"
    using assms(1) by (auto simp: one_version_def)
  have "unat (of_nat (length (object e)) :: u64) = length (object e)"
    using assms(3) [of e] by (simp add: unat_of_nat u64_max_def)
  then have "resumed_at f \<noteq> None \<longrightarrow> written (pt_writer f) = length (object e)"
    using assms(2) f(1) by (auto simp: joined_length_def split: option.splits if_splits)
  then have "resumed_at f \<noteq> None \<longrightarrow> length (hashed (pt_writer f)) = length (object e)"
    using f(2,4) assms(3) [of e] prefix_length_le [OF f(2)] by (auto simp: writer_ok_def min_def split: if_splits)
  then have "hashed (pt_writer f) = object e" using f(2,3) by (metis prefix_def append_self_conv length_append add_cancel_left_right length_0_conv)
  then show ?thesis using f(4) by (auto simp: writer_ok_def)
qed

lemma fetch_public_file_ok:
  assumes "fetch_public_file env url auth plan start st = (r, st1)"
    and "serves_versions object (public_file env url auth)" "versions_ok object st"
  shows "versions_ok object st1 \<and> (r = Inr () \<longrightarrow> (\<exists>e. dest_file (fst st1) = Some (object e) \<and>
    (\<forall>h. dp_sha256 plan = Some h \<longrightarrow> fe_sha256 env (object e) = h)))"
proof -
  obtain s kept where st: "st = (s, kept)" by fastforce
  obtain a k1 s1 where a: "attempt (public_file env url auth) (file_name (dp_dest plan)) start kept s = (a, k1, s1)"
    by (rule prod_cases3)
  note inv = versions_inv [OF assms(2)]
  have "partial_inv.held (one_version object) kept s"
    using assms(3) by (auto simp: partial_inv.held_def [OF inv] versions_ok_def st)
  from partial_inv.attempt_keeps [OF inv a this]
  have ok: "versions_ok object (s1, k1)" "\<forall>f. a = Inr f \<longrightarrow> one_version object True f s1"
    by (auto simp: partial_inv.held_def [OF inv] versions_ok_def)
  show ?thesis
  proof (cases a)
    case (Inl e)
    then show ?thesis using assms(1) a ok by (auto simp: fetch_public_file_def st)
  next
    case (Inr f)
    have "\<And>e. length (object e) \<le> u64_max" using assms(2) by (simp add: serves_versions_def)
    note whole = joined_whole [where object = object, OF _ _ this]
    show ?thesis
      using assms(1) a ok Inr whole [where f = f and s = s1 and plan = plan]
      by (auto simp: fetch_public_file_def st bind_result_Inr declared_digest_def hex_digest_def Let_def
          split: option.splits if_splits) blast+
  qed
qed

text \<open>C2.
  A public file that was fetched is exactly one version of its object, even when it was joined from
  several responses and the server changed the object between any two of them, and it has the
  declared SHA-256. The server is only trusted with what HTTP says of strong entity tags.
\<close>

theorem public_file_is_one_version:
  assumes "dp_origin plan = Public url auth" "serves_versions object (public_file env url auth)"
    and "fetch_file env policy plan s = (Inr (), s1)"
  shows "\<exists>e. dest_file s1 = Some (object e) \<and>
    (\<forall>h. dp_sha256 plan = Some h \<longrightarrow> fe_sha256 env (object e) = h)"
proof -
  let ?f = "\<lambda>_. fetch_public_file env url auth plan (mark (dl_reporter s))"
  obtain kept where r: "with_retries policy ?f fetch_disposition (jittered (state_random env)) (state_sleep env) (s, None)
      = (Inr (), s1, kept)"
    using assms(1,3) by (auto simp: fetch_file_def retrying_def Let_def split: prod.splits)
  let ?Q = "\<lambda>_ st. \<exists>e. dest_file (fst st) = Some (object e) \<and>
    (\<forall>h. dp_sha256 plan = Some h \<longrightarrow> fe_sha256 env (object e) = h)"
  have "versions_ok object (s1, kept) \<and> (\<forall>x. (Inr () :: model_fetch_error + _) = Inr x \<longrightarrow> ?Q x (s1, kept))"
  proof (rule with_retries_invariant [OF r, where I = "versions_ok object" and Q = ?Q])
    show "versions_ok object (s, None)" by (simp add: versions_ok_def)
  next
    fix n st r st1
    assume "versions_ok object st" "?f n st = (r, st1)"
    then show "versions_ok object st1 \<and> (\<forall>x. r = Inr x \<longrightarrow> ?Q x st1)"
      using fetch_public_file_ok [OF _ assms(2)] by simp
  qed (auto simp: versions_ok_def jittered_def state_random_def state_sleep_def split: prod.splits)
  then show ?thesis by simp
qed

section \<open>The properties at a concrete server\<close>

text \<open>A server whose first body breaks and whose object changes before the second.\<close>

definition trial_object :: "string \<Rightarrow> string" where
  "trial_object e = (if e = ''a'' then ''abc'' else ''xy'')"

definition trial_tag :: "nat \<Rightarrow> string" where
  "trial_tag w = (if w = 0 then ''a'' else ''b'')"

definition trial_body :: "nat \<Rightarrow> body" where
  "trial_body w =
     \<lparr>body_status = 200, body_etag = Some (trial_tag w), body_range = None,
      body_length = Some (of_nat (length (trial_object (trial_tag w)))),
      body_reads = (if w = 0 then [Inr ''ab'', Inl (IoFault OtherKind)] else [Inr ''xy''])\<rparr>"

definition trial_server :: "nat fetch_env" where
  "trial_server =
     \<lparr>fe_registered = True,
      fe_resource = \<lambda>_ w. (Inr \<lparr>vr_id = ''r'', vr_sha256 = ''xy'', vr_bytes = 2\<rparr>, w),
      fe_content = \<lambda>_ _ w. (Inr (trial_body w), Suc w),
      fe_get = \<lambda>_ _ _ w. (Inr (None, trial_body w), Suc w),
      fe_copy = \<lambda>_ w. (Inl OtherKind, w),
      fe_random = \<lambda>w. (0, w), fe_sleep = \<lambda>_ w. w, fe_sha256 = \<lambda>c. c\<rparr>"

definition trial_start :: "nat download" where
  "trial_start =
     \<lparr>net = 0, dest_file = None, setup_answers = [], write_answers = [Inr 1],
      dl_reporter = \<lparr>rep_total = None, rep_done = 0, rep_log = []\<rparr>\<rparr>"

definition trial_plan :: download_plan where
  "trial_plan = \<lparr>dp_origin = Public ''u'' None, dp_sha256 = Some ''xy'', dp_dest = [''f'']\<rparr>"

lemmas trial_defs = trial_object_def trial_tag_def trial_body_def trial_server_def trial_plan_def

lemma trial_tags: "strong_etag (Some (trial_tag w)) = Some (trial_tag w)" "entity_tag (trial_tag w) = Some (trial_tag w)"
  by (simp_all add: strong_etag_def trial_tag_def trim_visible visible_def entity_tag_def is_valid_header_value_def)

lemma trial_get: "src_get (public_file trial_server ''u'' None) rp w = (Inr (trial_body w), Suc w)"
  by (simp add: public_file_def trial_server_def send_def trial_body_def)

lemma trial_expect: "src_expect (public_file env url auth) (trial_body w) =
    \<lparr>ex_etag = Some (trial_tag w), ex_total = Some (of_nat (length (trial_object (trial_tag w))))\<rparr>"
  by (simp add: public_file_def body_strong_etag_def trial_body_def trial_tags)

lemma trial_text:
  "prefix (body_text (body_reads (trial_body w))) (trial_object (trial_tag w))"
  "body_ends (body_reads (trial_body w)) \<Longrightarrow> body_text (body_reads (trial_body w)) = trial_object (trial_tag w)"
  by (simp_all add: trial_body_def trial_object_def trial_tag_def split: if_splits)

lemma trial_versions: "serves_versions trial_object (public_file trial_server ''u'' None)"
proof -
  have "length (trial_object e) \<le> u64_max" for e by (simp add: trial_object_def u64_max_def)
  moreover have "body_status (trial_body w) \<noteq> 206" for w by (simp add: trial_body_def)
  ultimately show ?thesis
    using trial_text by (auto simp: serves_versions_def trial_get trial_expect)
qed

text \<open>The two attempts of either fetch: the first breaks and is kept, the second starts again.\<close>

definition trial_broken :: "expect \<Rightarrow> partial" where
  "trial_broken ex = \<lparr>pt_writer = \<lparr>hashed = ''ab'', written = 2\<rparr>, pt_expect = ex, resumed_at = None\<rparr>"

definition trial_whole :: "expect \<Rightarrow> partial" where
  "trial_whole ex = \<lparr>pt_writer = \<lparr>hashed = ''xy'', written = 2\<rparr>, pt_expect = ex, resumed_at = None\<rparr>"

lemmas run_defs = write_all.simps hw_write_def file_write_def COPY_BUFFER_def sat_add64_def u64_max_def Let_def

lemma trial_first_attempt:
  assumes "src_get src None 0 = (Inr (trial_body 0), 1)"
  shows "\<exists>rep. attempt src name 0 None (trial_start\<lparr>dl_reporter := rep0\<rparr>) =
    (Inl (src_io_error src OtherKind), Some (trial_broken (src_expect src (trial_body 0))),
     trial_start\<lparr>net := 1, dest_file := Some ''ab'', write_answers := [], dl_reporter := rep\<rparr>)"
  using assms
  by (subst attempt.simps)
    (simp add: attempt_turn_def open_source_def trial_start_def start_file_def setup_call_def partial_start_def
      stream_body_def trial_body_def trial_tag_def run_defs new_writer_def trial_broken_def)

definition trial_after :: "nat \<Rightarrow> string \<Rightarrow> reporter \<Rightarrow> nat download" where
  "trial_after n c rep =
     \<lparr>net = n, dest_file = Some c, setup_answers = [], write_answers = [], dl_reporter = rep\<rparr>"

lemma trial_second_attempt:
  assumes "\<And>rp. src_get src rp 1 = (Inr (trial_body 1), 2)" "ex_etag ex = Some e"
  shows "\<exists>rep. attempt src name 0 (Some (trial_broken ex)) (trial_after 1 ''ab'' rep0) =
    (Inr (trial_whole (src_expect src (trial_body 1))), None, trial_after 2 ''xy'' rep)"
  using assms
  by (subst attempt.simps)
    (simp add: attempt_turn_def open_source_def trial_after_def start_file_def setup_call_def partial_start_def
      stream_body_def trial_body_def trial_tag_def run_defs new_writer_def trial_broken_def trial_whole_def
      resume_point_of_def continued_by_def stopped_short_def)

lemma trial_retry: "retry_in DOWNLOAD (jittered (state_random trial_server)) (Suc 0) TRANSIENT st = Some (0, st)"
  by (simp add: retry_in_def TRANSIENT_def DOWNLOAD_def jittered_def state_random_def trial_server_def full_jitter_def
      from_millis_def)

lemma trial_two_turns:
  assumes "f (Suc 0) st = (Inl err, st1)" "classify err = TRANSIENT" "f (Suc (Suc 0)) st1 = (Inr x, st2)"
  shows "retrying (state_random trial_server) (state_sleep trial_server) DOWNLOAD f classify st = (Inr x, st2)"
proof -
  let ?loop = "with_retries_from DOWNLOAD f classify (jittered (state_random trial_server)) (state_sleep trial_server)"
  have "state_sleep trial_server d s = s" for d s by (simp add: state_sleep_def trial_server_def)
  moreover have "?loop (Suc (Suc 0)) st1 = (Inr x, st2)"
    by (subst with_retries_from.simps) (simp add: assms(3))
  ultimately have "?loop (Suc 0) st = (Inr x, st2)"
    by (subst with_retries_from.simps) (simp add: assms(1,2) trial_retry)
  then show ?thesis by (simp add: retrying_def with_retries_def)
qed

theorem public_file_is_one_version_witness:
  "\<exists>s1. fetch_file trial_server DOWNLOAD trial_plan trial_start = (Inr (), s1) \<and>
     (\<exists>e. dest_file s1 = Some (trial_object e) \<and>
        (\<forall>h. dp_sha256 trial_plan = Some h \<longrightarrow> fe_sha256 trial_server (trial_object e) = h))"
proof -
  let ?src = "public_file trial_server ''u'' None"
  obtain rep where 1: "attempt ?src ''f'' 0 None trial_start =
      (Inl (FetchIo None OtherKind), Some (trial_broken (src_expect ?src (trial_body 0))), trial_after 1 ''ab'' rep)"
    using trial_first_attempt [of ?src "''f''" "dl_reporter trial_start"] trial_get [of None 0]
    by (auto simp: trial_start_def trial_after_def public_file_def)
  obtain rep' where 2: "attempt ?src ''f'' 0 (Some (trial_broken (src_expect ?src (trial_body 0)))) (trial_after 1 ''ab'' rep) =
      (Inr (trial_whole (src_expect ?src (trial_body 1))), None, trial_after 2 ''xy'' rep')"
    using trial_second_attempt [of ?src "src_expect ?src (trial_body 0)" _ "''f''" rep] trial_get [of _ 1]
    by (auto simp: trial_expect numeral_2_eq_2)
  let ?turn = "fetch_public_file trial_server ''u'' None trial_plan 0"
  have "?turn (trial_start, None) =
      (Inl (FetchIo None OtherKind), trial_after 1 ''ab'' rep, Some (trial_broken (src_expect ?src (trial_body 0))))"
    using 1 by (simp add: fetch_public_file_def file_name_def trial_plan_def)
  moreover have "?turn (trial_after 1 ''ab'' rep, Some (trial_broken (src_expect ?src (trial_body 0)))) =
      (Inr (), trial_after 2 ''xy'' rep', None)"
    using 2 by (simp add: fetch_public_file_def file_name_def trial_plan_def joined_length_def declared_digest_def
        hex_digest_def trial_whole_def trial_server_def)
  ultimately have "retrying (state_random trial_server) (state_sleep trial_server) DOWNLOAD (\<lambda>_. ?turn) fetch_disposition
      (trial_start, None) = (Inr (), trial_after 2 ''xy'' rep', None)"
    by (intro trial_two_turns) (auto simp: names_the_host_def)
  then have "fetch_file trial_server DOWNLOAD trial_plan trial_start = (Inr (), trial_after 2 ''xy'' rep')"
    by (simp add: fetch_file_def trial_plan_def [THEN arg_cong [of _ _ dp_origin]] mark_def trial_start_def [THEN arg_cong [of _ _ dl_reporter]])
  with public_file_is_one_version [OF _ trial_versions this] show ?thesis
    by (auto simp: trial_plan_def)
qed

definition trial_record :: vault_resource where
  "trial_record = \<lparr>vr_id = ''r'', vr_sha256 = ''xy'', vr_bytes = 2\<rparr>"

lemma trial_fields:
  "fe_sha256 trial_server c = c" "vr_sha256 trial_record = ''xy''" "net (trial_after n c rep) = n"
  "dl_reporter (trial_after n c rep) = rep" "(trial_after n c rep)\<lparr>dl_reporter := rep'\<rparr> = trial_after n c rep'"
  "(trial_after n c rep)\<lparr>net := m\<rparr> = trial_after m c rep"
  "pt_expect (trial_broken ex) = ex" "pt_writer (trial_whole ex) = \<lparr>hashed = ''xy'', written = 2\<rparr>"
  by (simp_all add: trial_server_def trial_record_def trial_after_def trial_broken_def trial_whole_def)

theorem vault_fetch_verified_witness:
  "\<exists>s1. fetch_to_file trial_server DOWNLOAD ''r'' (Some ''xy'') [''f''] trial_start = (Inr trial_record, s1) \<and>
     (\<exists>c. dest_file s1 = Some c \<and> fe_sha256 trial_server c = vr_sha256 trial_record \<and>
        unat (vr_bytes trial_record) \<le> length c) \<and>
     (Some ''xy'' = None \<or> Some ''xy'' = Some (vr_sha256 trial_record))"
proof -
  let ?src = "vault_content trial_server trial_record"
  let ?ex = "expect_of trial_record"
  have get: "src_get ?src rp w = (Inr (trial_body w), Suc w)" for rp w
    by (simp add: vault_content_def trial_server_def)
  have src: "src_expect ?src b = ?ex" "src_io_error ?src = VaultIo" for b
    by (simp_all add: vault_content_def)
  have etag: "ex_etag ?ex = Some (CHR 0x22 # ''xy'' @ [CHR 0x22])"
    by (simp add: expect_of_def trial_record_def entity_tag_def is_valid_header_value_def)
  let ?s0 = "trial_start\<lparr>dl_reporter := set_total_if_unknown (Some 2) (dl_reporter trial_start)\<rparr>"
  obtain rep where 1: "attempt ?src ''f'' 0 None ?s0 =
      (Inl (VaultIo OtherKind), Some (trial_broken ?ex), trial_after 1 ''ab'' rep)"
    using trial_first_attempt [of ?src "''f''" "set_total_if_unknown (Some 2) (dl_reporter trial_start)"] get [of None 0]
    by (auto simp: src trial_start_def trial_after_def)
  let ?rep1 = "set_total_if_unknown (Some 2) rep"
  obtain rep' where 2: "attempt ?src ''f'' 0 (Some (trial_broken ?ex)) (trial_after 1 ''ab'' ?rep1) =
      (Inr (trial_whole ?ex), None, trial_after 2 ''xy'' rep')"
    using trial_second_attempt [of ?src ?ex _ "''f''" ?rep1] get [of _ 1] etag by (auto simp: src numeral_2_eq_2)
  have rec: "read_record trial_server ''r'' (Some ''xy'') w = (Inr trial_record, w)" for w
    by (simp add: read_record_def trial_server_def trial_record_def)
  have bytes: "unat (vr_bytes trial_record) = 2" by (simp add: trial_record_def)
  let ?turn = "vault_turn trial_server ''r'' (Some ''xy'') [''f''] 0"
  have "?turn (trial_start, None) = (Inl (VaultIo OtherKind), trial_after 1 ''ab'' rep, Some (trial_broken ?ex))"
    using 1 by (simp add: vault_turn_def rec fetch_content_def bytes file_name_def)
  moreover have "?turn (trial_after 1 ''ab'' rep, Some (trial_broken ?ex)) = (Inr trial_record, trial_after 2 ''xy'' rep', None)"
    using 2 by (simp add: vault_turn_def rec fetch_content_def bytes file_name_def hex_digest_def trial_fields)
  ultimately have "retrying (state_random trial_server) (state_sleep trial_server) DOWNLOAD (\<lambda>_. ?turn) vault_disposition
      (trial_start, None) = (Inr trial_record, trial_after 2 ''xy'' rep', None)"
    by (intro trial_two_turns) (auto simp: names_the_host_def)
  then have run: "fetch_to_file trial_server DOWNLOAD ''r'' (Some ''xy'') [''f''] trial_start =
      (Inr trial_record, trial_after 2 ''xy'' rep')"
    by (simp add: fetch_to_file_def mark_def trial_start_def [THEN arg_cong [of _ _ dl_reporter]])
  with vault_fetch_verified [OF run] show ?thesis by blast
qed

end
