(* ===== verification/Eval_Checkpoint.thy ===== *)
theory Eval_Checkpoint
  imports File_System Utf8 Sse "HOL-Library.Multiset"
begin

text \<open>
  The checkpoint of an eval run, \<open>pipette-ops/src/eval_completions.rs\<close>: an append-only file with a
  header line and one line per recorded sample. The last row of an id counts, every failed row of an
  id is an attempt spent, and a torn last line is cut when the file is opened again.

  \<open>serde_json\<close>, the order a \<open>HashMap\<close> yields its values in and the clock are fields of
  \<open>checkpoint_env\<close>; what is relied on of them is \<open>header_law\<close>, \<open>row_law\<close> and that the values come
  out as a permutation. The file is a node of the file system; an append may stop after any number
  of bytes.
\<close>

section \<open>Definitions\<close>

subsection \<open>Rows and the session\<close>

record row =
  row_id :: string
  row_text :: string
  row_failed :: bool
  row_failed_reason :: "string option"
  row_stop :: stop_reason
  row_stop_detail :: "string option"
  row_tokens :: "nat option"

record cell_meta =
  meta_benchmark :: string
  meta_runtime :: string
  meta_model :: string

record header =
  header_digest :: string
  header_meta :: cell_meta
  header_timeout :: "nat option"

record checkpoint_env =
  render_header :: "header \<Rightarrow> string + string"
  parse_header :: "string \<Rightarrow> string + header"
  render_row :: "row \<Rightarrow> string + string"
  parse_row :: "string \<Rightarrow> string + row"
  values_order :: "row list \<Rightarrow> row list"
  stale_secs :: string

record session =
  cs_path :: fs_path
  cs_rows :: "row list"
  cs_done :: "string set"
  cs_failed :: nat
  cs_attempts :: "string \<rightharpoonup> nat"
  cs_unfit :: "string set"

datatype checkpoint_error =
  CheckpointIo io_kind
| HeaderUnreadable
| EmptyFile
| HeaderInvalid string
| LineUnreadable nat
| RenderFailed string

definition MAX_SAMPLE_ATTEMPTS :: nat where "MAX_SAMPLE_ATTEMPTS = 3"

definition PRE_GATE_CHAT_DETAIL :: string where
  "PRE_GATE_CHAT_DETAIL = ''stream ended without finish_reason''"

text \<open>\<open>map.get(id).copied().unwrap_or(0)\<close> and \<open>*map.entry(id).or_insert(0) += 1\<close>.\<close>

definition spent :: "(string \<rightharpoonup> nat) \<Rightarrow> string \<Rightarrow> nat" where
  "spent m i = (case m i of None \<Rightarrow> 0 | Some n \<Rightarrow> n)"

definition count_attempt :: "string \<Rightarrow> (string \<rightharpoonup> nat) \<Rightarrow> string \<rightharpoonup> nat" where
  "count_attempt i m = m(i \<mapsto> spent m i + 1)"

text \<open>\<open>position(|c| c.id == id)\<close> and \<open>remove\<close> at that index.\<close>

fun remove_row :: "string \<Rightarrow> row list \<Rightarrow> row option \<times> row list" where
  "remove_row i [] = (None, [])"
| "remove_row i (r # rs) =
     (if row_id r = i then (Some r, rs) else (let (old, rest) = remove_row i rs in (old, r # rest)))"

subsection \<open>Paths and files\<close>

text \<open>\<open>Path::with_extension\<close>: what follows the last dot of the file name, unless that dot starts it,
  is replaced.\<close>

definition file_stem :: "string \<Rightarrow> string" where
  "file_stem name =
     (let tail = dropWhile (\<lambda>c. c \<noteq> CHR ''.'') (rev name)
      in if length tail \<le> 1 then name else rev (tl tail))"

definition with_extension :: "fs_path \<Rightarrow> string \<Rightarrow> fs_path" where
  "with_extension p ext = butlast p @ [file_stem (last p) @ ''.'' @ ext]"

definition digest_prefix :: "string \<Rightarrow> string" where
  "digest_prefix digest = take_chars 16 digest"

definition session_path :: "fs_path \<Rightarrow> string \<Rightarrow> fs_path" where
  "session_path root digest = root @ [digest_prefix digest @ ''.jsonl'']"

text \<open>\<open>OpenOptions::new().write(true).open(path)\<close>, with \<open>append\<close> as well, and \<open>set_len\<close>.\<close>

definition fs_open_write :: "fs_path \<Rightarrow> fs_state \<Rightarrow> io_kind + fs_node" where
  "fs_open_write p s =
     bind_result (fs_open s p) (\<lambda>n. if is_dir_node n then Inl OtherIo else Inr n)"

definition fs_set_len :: "fs_path \<Rightarrow> nat \<Rightarrow> fs_state \<Rightarrow> (io_kind + unit) \<times> fs_state" where
  "fs_set_len p n s =
     (case fs_open_write p s of
        Inl k \<Rightarrow> (Inl k, s)
      | Inr f \<Rightarrow>
          (case faults s OpWrite p of
             Some k \<Rightarrow> (Inl k, s)
           | None \<Rightarrow> (Inr (), set_node p (f\<lparr>contents := take n (contents f)\<rparr>) s)))"

text \<open>What becomes of a write at the end of the file: all of it, or a first part and an error.\<close>

datatype append_io = Appended | TornAt nat io_kind

definition fs_append :: "fs_path \<Rightarrow> append_io \<Rightarrow> string \<Rightarrow> fs_state \<Rightarrow> (io_kind + unit) \<times> fs_state" where
  "fs_append p io bs s =
     (let extend = (\<lambda>new. case lookup s p of
                            None \<Rightarrow> s
                          | Some f \<Rightarrow> set_node p (f\<lparr>contents := contents f @ new\<rparr>) s)
      in case io of Appended \<Rightarrow> (Inr (), extend bs) | TornAt n k \<Rightarrow> (Inl k, extend (take n bs)))"

definition rotate_stale :: "checkpoint_env \<Rightarrow> fs_path \<Rightarrow> fs_state \<Rightarrow> fs_state" where
  "rotate_stale env p s = snd (fs_rename p (with_extension p (''jsonl.stale-'' @ stale_secs env)) s)"

fun render_rows :: "checkpoint_env \<Rightarrow> row list \<Rightarrow> string + string" where
  "render_rows env [] = Inr []"
| "render_rows env (r # rs) =
     bind_result (render_row env r) (\<lambda>line.
     bind_result (render_rows env rs) (\<lambda>rest. Inr (line @ [CHR 0x0A] @ rest)))"

definition write_checkpoint ::
  "checkpoint_env \<Rightarrow> fs_path \<Rightarrow> header \<Rightarrow> row list \<Rightarrow> fs_state \<Rightarrow> (checkpoint_error + unit) \<times> fs_state" where
  "write_checkpoint env p h rs s =
     (case bind_result (render_header env h) (\<lambda>line.
           bind_result (render_rows env rs) (\<lambda>rest. Inr (line @ [CHR 0x0A] @ rest))) of
        Inl e \<Rightarrow> (Inl (RenderFailed e), s)
      | Inr body \<Rightarrow>
          (let tmp = with_extension p ''jsonl.tmp''
           in case fs_write_file tmp body s of
                (Inl k, s1) \<Rightarrow> (Inl (CheckpointIo k), s1)
              | (Inr _, s1) \<Rightarrow>
                  (case fs_rename tmp p s1 of
                     (Inl k, s2) \<Rightarrow> (Inl (CheckpointIo k), s2)
                   | (Inr _, s2) \<Rightarrow> (Inr (), s2))))"

subsection \<open>Loading\<close>

definition sanitize_pre_gate_success :: "row \<Rightarrow> row" where
  "sanitize_pre_gate_success c =
     (if \<not> row_failed c \<and> row_stop_detail c = Some PRE_GATE_CHAT_DETAIL
      then c\<lparr>row_failed := True,
             row_failed_reason := Some
               (''recovered on load: pre-fix checkpoint recorded this as a success with no terminal stop event (''
                @ (case row_stop_detail c of Some d \<Rightarrow> d | None \<Rightarrow> ''no detail'') @ '')'')\<rparr>
      else c)"

text \<open>One turn of the loop over the rows: \<open>by_id\<close> as the list of its values.\<close>

definition load_row :: "row \<Rightarrow> row list \<times> (string \<rightharpoonup> nat) \<Rightarrow> row list \<times> (string \<rightharpoonup> nat)" where
  "load_row c0 = (\<lambda>(by_id, attempts).
     (let c = sanitize_pre_gate_success c0
      in (snd (remove_row (row_id c) by_id) @ [c],
          if row_failed c then count_attempt (row_id c) attempts else attempts)))"

fun load_rows ::
  "checkpoint_env \<Rightarrow> nat \<Rightarrow> string list \<Rightarrow> row list \<times> (string \<rightharpoonup> nat) \<Rightarrow>
   checkpoint_error + row list \<times> (string \<rightharpoonup> nat)" where
  "load_rows env k [] acc = Inr acc"
| "load_rows env k (line # rest) acc =
     (if \<not> utf8_valid line then Inl (LineUnreadable k)
      else if trim line = [] then load_rows env (Suc k) rest acc
      else (case parse_row env line of
              Inr c \<Rightarrow> load_rows env (Suc k) rest (load_row c acc)
            | Inl _ \<Rightarrow> load_rows env (Suc k) rest acc))"

definition complete_len :: "string \<Rightarrow> nat" where
  "complete_len body = length (dropWhile (\<lambda>b. b \<noteq> CHR 0x0A) (rev body))"

definition load_existing ::
  "checkpoint_env \<Rightarrow> fs_path \<Rightarrow> string \<Rightarrow> fs_state \<Rightarrow>
   (checkpoint_error + (header \<times> row list \<times> (string \<rightharpoonup> nat)) option) \<times> fs_state" where
  "load_existing env p expected s =
     (case fs_read s p of
        Inl k \<Rightarrow> (Inl (CheckpointIo k), s)
      | Inr body0 \<Rightarrow>
          (let complete = complete_len body0;
               body = take complete body0;
               (cut, s1) = (if complete < length body0 then fs_set_len p complete s else (Inr (), s))
           in case cut of
                Inl k \<Rightarrow> (Inl (CheckpointIo k), s1)
              | Inr _ \<Rightarrow>
                  (case str_lines body of
                     [] \<Rightarrow> (Inl EmptyFile, s1)
                   | first # rest \<Rightarrow>
                       if \<not> utf8_valid first then (Inl HeaderUnreadable, s1)
                       else (case parse_header env first of
                               Inl e \<Rightarrow> (Inl (HeaderInvalid e), s1)
                             | Inr h \<Rightarrow>
                                 if header_digest h \<noteq> expected then (Inr None, rotate_stale env p s1)
                                 else (case load_rows env 2 rest ([], Map.empty) of
                                         Inl e \<Rightarrow> (Inl e, s1)
                                       | Inr (by_id, attempts) \<Rightarrow>
                                           (Inr (Some (h, values_order env by_id, attempts)), s1))))))"

subsection \<open>Opening, recording and retiring\<close>

definition open_in ::
  "checkpoint_env \<Rightarrow> fs_path \<Rightarrow> header \<Rightarrow> fs_state \<Rightarrow> (checkpoint_error + session) \<times> fs_state" where
  "open_in env root h s =
     (case fs_create_dir_all root s of
        (Inl k, s1) \<Rightarrow> (Inl (CheckpointIo k), s1)
      | (Inr _, s1) \<Rightarrow>
          (let p = session_path root (header_digest h);
               (loaded, s2) =
                 (if fs_exists s1 p
                  then (case load_existing env p (header_digest h) s1 of
                          (Inr found, s2) \<Rightarrow> (found, s2)
                        | (Inl _, s2) \<Rightarrow> (None, rotate_stale env p s2))
                  else (None, s1));
               (ready, s3) =
                 (case loaded of
                    Some (found, rows, attempts) \<Rightarrow>
                      if header_timeout found = header_timeout h then (Inr (rows, attempts), s2)
                      else (let completed = filter (\<lambda>c. \<not> row_failed c) rows
                            in case write_checkpoint env p h completed s2 of
                                 (Inl e, s3) \<Rightarrow> (Inl e, s3)
                               | (Inr _, s3) \<Rightarrow> (Inr (completed, Map.empty), s3))
                  | None \<Rightarrow>
                      (case write_checkpoint env p h [] s2 of
                         (Inl e, s3) \<Rightarrow> (Inl e, s3)
                       | (Inr _, s3) \<Rightarrow> (Inr ([], Map.empty), s3)))
           in case ready of
                Inl e \<Rightarrow> (Inl e, s3)
              | Inr (rows, attempts) \<Rightarrow>
                  (case fs_open_write p s3 of
                     Inl k \<Rightarrow> (Inl (CheckpointIo k), s3)
                   | Inr _ \<Rightarrow>
                       (Inr \<lparr>cs_path = p, cs_rows = rows, cs_done = set (map row_id rows),
                             cs_failed = length (filter row_failed rows), cs_attempts = attempts,
                             cs_unfit = {}\<rparr>, s3))))"

text \<open>What \<open>append\<close> does in memory once the line is written.\<close>

definition remember :: "row \<Rightarrow> session \<Rightarrow> session" where
  "remember c cs =
     (let (old, rest) = remove_row (row_id c) (cs_rows cs);
          before = (case old of Some r \<Rightarrow> if row_failed r then cs_failed cs - 1 else cs_failed cs
                              | None \<Rightarrow> cs_failed cs)
      in cs\<lparr>cs_rows := rest @ [c], cs_done := insert (row_id c) (cs_done cs),
            cs_failed := (if row_failed c then before + 1 else before),
            cs_attempts := (if row_failed c then count_attempt (row_id c) (cs_attempts cs)
                            else cs_attempts cs)\<rparr>)"

definition append_row ::
  "checkpoint_env \<Rightarrow> append_io \<Rightarrow> row \<Rightarrow> session \<Rightarrow> fs_state \<Rightarrow>
   (checkpoint_error + unit) \<times> session \<times> fs_state" where
  "append_row env io c cs s =
     (case render_row env c of
        Inl e \<Rightarrow> (Inl (RenderFailed e), cs, s)
      | Inr line \<Rightarrow>
          (case fs_append (cs_path cs) io (line @ [CHR 0x0A]) s of
             (Inl k, s1) \<Rightarrow> (Inl (CheckpointIo k), cs, s1)
           | (Inr _, s1) \<Rightarrow> (Inr (), remember c cs, s1)))"

definition record_unfit :: "row \<Rightarrow> session \<Rightarrow> session" where
  "record_unfit c cs =
     (let (old, rest) = remove_row (row_id c) (cs_rows cs);
          before = (case old of Some r \<Rightarrow> if row_failed r then cs_failed cs - 1 else cs_failed cs
                              | None \<Rightarrow> cs_failed cs)
      in cs\<lparr>cs_rows := rest @ [c], cs_done := insert (row_id c) (cs_done cs),
            cs_failed := (if row_failed c then before + 1 else before),
            cs_unfit := insert (row_id c) (cs_unfit cs)\<rparr>)"

definition contains :: "session \<Rightarrow> string \<Rightarrow> bool" where
  "contains cs i \<longleftrightarrow> i \<in> cs_done cs"

definition should_reattempt :: "session \<Rightarrow> string \<Rightarrow> nat \<Rightarrow> bool" where
  "should_reattempt cs i max_attempts \<longleftrightarrow>
     list_ex (\<lambda>c. row_id c = i \<and> row_failed c) (cs_rows cs) \<and> spent (cs_attempts cs) i < max_attempts"

definition unfit_ids :: "session \<Rightarrow> string list" where
  "unfit_ids cs = map row_id (filter (\<lambda>c. row_failed c \<and> row_id c \<in> cs_unfit cs) (cs_rows cs))"

definition failed_ids :: "session \<Rightarrow> string list" where
  "failed_ids cs = map row_id (filter row_failed (cs_rows cs))"

definition failure_split :: "session \<Rightarrow> nat \<Rightarrow> string list \<times> string list" where
  "failure_split cs max_attempts =
     (let ids = map row_id (filter (\<lambda>c. row_failed c \<and> row_id c \<notin> cs_unfit cs) (cs_rows cs))
      in (filter (\<lambda>i. spent (cs_attempts cs) i < max_attempts) ids,
          filter (\<lambda>i. \<not> spent (cs_attempts cs) i < max_attempts) ids))"

definition failed_lines :: "(string \<rightharpoonup> nat) \<Rightarrow> row list \<Rightarrow> row list" where
  "failed_lines attempts rows =
     concat (map (\<lambda>c. replicate (max 1 (spent attempts (row_id c))) c) (filter row_failed rows))"

definition finalize ::
  "checkpoint_env \<Rightarrow> fs_path \<Rightarrow> string \<Rightarrow> fs_state \<Rightarrow> (checkpoint_error + unit) \<times> fs_state" where
  "finalize env root digest s =
     (let p = session_path root digest
      in if \<not> fs_exists s p then (Inr (), s)
         else (case load_existing env p digest s of
                 (Inl e, s1) \<Rightarrow> (Inl e, s1)
               | (Inr None, s1) \<Rightarrow> (Inr (), s1)
               | (Inr (Some (h, rows, attempts)), s1) \<Rightarrow>
                   (let failed = failed_lines attempts rows
                    in if failed \<noteq> [] then write_checkpoint env p h failed s1
                       else (case fs_remove_file p s1 of
                               (Inl k, s2) \<Rightarrow> (Inl (CheckpointIo k), s2)
                             | (Inr _, s2) \<Rightarrow> (Inr (), s2)))))"

subsection \<open>Whether a cell is complete\<close>

datatype waiver = Honored | WaiverRefused

datatype recovery = NothingToRecover | AttemptsUsedUp string | RunAgain

datatype incomplete =
  WrongCount nat nat
| FailedRows nat nat "string list" "string list" "string list" recovery

definition waives :: "string option \<Rightarrow> bool" where
  "waives var =
     (case var of None \<Rightarrow> False
                | Some v \<Rightarrow> to_ascii_lowercase (trim v) \<in> {''1'', ''true'', ''yes''})"

definition check_complete :: "string option \<Rightarrow> session \<Rightarrow> nat \<Rightarrow> waiver \<Rightarrow> incomplete + unit" where
  "check_complete var cs served w =
     (let submitted = length (cs_rows cs); failed = cs_failed cs
      in if submitted \<noteq> served then Inl (WrongCount submitted served)
         else if failed = 0 then Inr ()
         else (let (retriable, exhausted) = failure_split cs MAX_SAMPLE_ATTEMPTS
               in if w = Honored \<and> waives var then Inr ()
                  else Inl (FailedRows failed submitted retriable exhausted (unfit_ids cs)
                         (if retriable = [] \<and> exhausted = [] then NothingToRecover
                          else if retriable = []
                          then AttemptsUsedUp (case w of Honored \<Rightarrow> ''image'' | WaiverRefused \<Rightarrow> ''audio'')
                          else RunAgain))))"

definition ensure_complete :: "string option \<Rightarrow> session \<Rightarrow> nat \<Rightarrow> incomplete + unit" where
  "ensure_complete var cs served = check_complete var cs served Honored"

definition ensure_every_answer :: "string option \<Rightarrow> session \<Rightarrow> nat \<Rightarrow> incomplete + unit" where
  "ensure_every_answer var cs served = check_complete var cs served WaiverRefused"

section \<open>What the file stands for\<close>

text \<open>
  The abstract view of a file is the sequence of rows written to it: the last row of an id counts,
  and the failed rows of an id are its attempts.
\<close>

definition last_row :: "row list \<Rightarrow> string \<Rightarrow> row option" where
  "last_row log i = find (\<lambda>c. row_id c = i) (rev log)"

definition failures :: "row list \<Rightarrow> string \<Rightarrow> nat" where
  "failures log i = length (filter (\<lambda>c. row_id c = i \<and> row_failed c) log)"

definition row_of :: "session \<Rightarrow> string \<Rightarrow> row option" where
  "row_of cs i = find (\<lambda>c. row_id c = i) (cs_rows cs)"

definition line_ok :: "string \<Rightarrow> bool" where
  "line_ok l \<longleftrightarrow> CHR 0x0A \<notin> set l \<and> strip_cr l = l \<and> utf8_valid l \<and> trim l \<noteq> []"

definition header_law :: "checkpoint_env \<Rightarrow> header \<Rightarrow> bool" where
  "header_law env h \<longleftrightarrow> (case render_header env h of Inl _ \<Rightarrow> False
                        | Inr l \<Rightarrow> line_ok l \<and> parse_header env l = Inr h)"

definition row_law :: "checkpoint_env \<Rightarrow> row \<Rightarrow> bool" where
  "row_law env r \<longleftrightarrow> (case render_row env r of Inl _ \<Rightarrow> False
                     | Inr l \<Rightarrow> line_ok l \<and> parse_row env l = Inr r)"

definition ok_text :: "'e + string \<Rightarrow> string" where
  "ok_text r = (case r of Inl _ \<Rightarrow> [] | Inr t \<Rightarrow> t)"

definition log_text :: "checkpoint_env \<Rightarrow> header \<Rightarrow> row list \<Rightarrow> string" where
  "log_text env h log =
     concat (map (\<lambda>l. l @ [CHR 0x0A]) (ok_text (render_header env h) # map (\<lambda>r. ok_text (render_row env r)) log))"

definition session_ok :: "session \<Rightarrow> bool" where
  "session_ok cs \<longleftrightarrow>
     distinct (map row_id (cs_rows cs)) \<and> cs_done cs = set (map row_id (cs_rows cs))
     \<and> cs_failed cs = length (filter row_failed (cs_rows cs)) \<and> cs_unfit cs \<subseteq> cs_done cs
     \<and> (\<forall>r\<in>set (cs_rows cs). row_failed r \<and> row_id r \<notin> cs_unfit cs \<longrightarrow> 0 < spent (cs_attempts cs) (row_id r))
     \<and> (\<forall>i. i \<notin> cs_done cs \<longrightarrow> spent (cs_attempts cs) i = 0)"

section \<open>The session in memory\<close>

lemma filter_others: "distinct (map row_id (r # rs)) \<Longrightarrow> filter (\<lambda>x. row_id x \<noteq> row_id r \<and> P x) rs = filter P rs"
  by (rule filter_cong) (simp_all, metis imageI)

lemma remove_row_distinct:
  "distinct (map row_id rs) \<Longrightarrow>
   remove_row i rs = (find (\<lambda>r. row_id r = i) rs, filter (\<lambda>r. row_id r \<noteq> i) rs)"
proof (induction rs)
  case (Cons r rs)
  have "filter (\<lambda>x. row_id x \<noteq> row_id r) rs = rs" using filter_others [OF Cons.prems, of "\<lambda>_. True"] by simp
  then show ?case using Cons by auto
qed simp

lemma failed_without:
  "distinct (map row_id rs) \<Longrightarrow>
   length (filter (\<lambda>r. row_id r \<noteq> i \<and> row_failed r) rs) =
   (case find (\<lambda>r. row_id r = i) rs of
      Some r \<Rightarrow> length (filter row_failed rs) - (if row_failed r then 1 else 0)
    | None \<Rightarrow> length (filter row_failed rs))"
proof (induction rs)
  case (Cons r rs)
  show ?case
  proof (cases "row_id r = i")
    case True
    then show ?thesis using filter_others [OF Cons.prems, of row_failed] by simp
  next
    case False
    have "0 < length (filter row_failed rs)" if "find (\<lambda>r. row_id r = i) rs = Some x" "row_failed x" for x
      using that by (auto simp: find_Some_iff filter_empty_conv)
    then show ?thesis using Cons False by (auto split: option.splits)
  qed
qed simp

lemma find_without:
  "find (\<lambda>r. row_id r = j) (filter (\<lambda>r. row_id r \<noteq> i) rs @ [c]) =
   (if j = row_id c \<and> (j = i \<or> find (\<lambda>r. row_id r = j) rs = None) then Some c
    else if j = i then None else find (\<lambda>r. row_id r = j) rs)"
  by (induction rs) auto

lemma spent_count: "spent (count_attempt i m) j = spent m j + (if j = i then 1 else 0)"
  by (simp add: spent_def count_attempt_def)

lemma session_ok_remember: "session_ok cs \<Longrightarrow> session_ok (remember c cs)"
  by (auto simp: Let_def session_ok_def remember_def remove_row_distinct failed_without spent_count distinct_map_filter
      split: option.splits)

lemma session_ok_unfit: "session_ok cs \<Longrightarrow> session_ok (record_unfit c cs)"
  by (auto simp: Let_def session_ok_def record_unfit_def remove_row_distinct failed_without distinct_map_filter
      split: option.splits)

lemma row_of_remember:
  "session_ok cs \<Longrightarrow> row_of (remember c cs) i = (if i = row_id c then Some c else row_of cs i)"
  by (auto simp: Let_def row_of_def remember_def remove_row_distinct session_ok_def find_without)

lemma row_of_unfit:
  "session_ok cs \<Longrightarrow> row_of (record_unfit c cs) i = (if i = row_id c then Some c else row_of cs i)"
  by (auto simp: Let_def row_of_def record_unfit_def remove_row_distinct session_ok_def find_without)

lemma spent_remember:
  "spent (cs_attempts (remember c cs)) i =
   spent (cs_attempts cs) i + (if row_failed c \<and> i = row_id c then 1 else 0)"
  by (simp add: Let_def remember_def spent_count split: prod.splits)

lemma remember_fields [simp]:
  "cs_path (remember c cs) = cs_path cs" "cs_unfit (remember c cs) = cs_unfit cs"
  "cs_done (remember c cs) = insert (row_id c) (cs_done cs)"
  by (simp_all add: Let_def remember_def split: prod.splits)

section \<open>Lines\<close>

lemma lines_from_line: "CHR 0x0A \<notin> set l \<Longrightarrow> lines_from acc (l @ CHR 0x0A # t) = strip_cr (rev acc @ l) # lines_from [] t"
  by (induction l arbitrary: acc) auto

lemma str_lines_lines:
  "(\<And>l. l \<in> set ls \<Longrightarrow> CHR 0x0A \<notin> set l \<and> strip_cr l = l) \<Longrightarrow> str_lines (concat (map (\<lambda>l. l @ [CHR 0x0A]) ls)) = ls"
  by (induction ls) (auto simp: str_lines_def lines_from_line)

lemma complete_len_tail: "CHR 0x0A \<notin> set t \<Longrightarrow> complete_len (b @ CHR 0x0A # t) = length b + 1"
proof -
  assume "CHR 0x0A \<notin> set t"
  then have "dropWhile (\<lambda>b. b \<noteq> CHR 0x0A) (rev t @ CHR 0x0A # rev b) = CHR 0x0A # rev b"
    by (subst dropWhile_append2) auto
  then show ?thesis by (simp add: complete_len_def)
qed

text \<open>What a kill in the middle of a line leaves is cut back to the lines before it.\<close>

lemma complete_len_lines:
  assumes "ls \<noteq> []" "CHR 0x0A \<notin> set t"
  shows "complete_len (concat (map (\<lambda>l. l @ [CHR 0x0A]) ls) @ t) = length (concat (map (\<lambda>l. l @ [CHR 0x0A]) ls))"
proof -
  let ?b = "concat (map (\<lambda>l. l @ [CHR 0x0A]) (butlast ls)) @ last ls"
  have "concat (map (\<lambda>l. l @ [CHR 0x0A]) ls) = ?b @ [CHR 0x0A]"
    using assms(1) by (induction ls) auto
  then show ?thesis using complete_len_tail [OF assms(2), of ?b] by simp
qed

section \<open>Loading reads back what was written\<close>

abbreviation sane :: "row list \<Rightarrow> row list" where
  "sane log \<equiv> map sanitize_pre_gate_success log"

lemma row_id_sanitize [simp]: "row_id (sanitize_pre_gate_success c) = row_id c"
  by (simp add: sanitize_pre_gate_success_def)

lemma last_row_snoc: "last_row (log @ [c]) i = (if row_id c = i then Some c else last_row log i)"
  by (simp add: last_row_def)

lemma failures_snoc: "failures (log @ [c]) i = failures log i + (if row_id c = i \<and> row_failed c then 1 else 0)"
  by (simp add: failures_def)

definition stands_for :: "row list \<Rightarrow> (string \<rightharpoonup> nat) \<Rightarrow> row list \<Rightarrow> bool" where
  "stands_for rows attempts log \<longleftrightarrow>
     distinct (map row_id rows) \<and> (\<forall>i. find (\<lambda>c. row_id c = i) rows = last_row log i)
     \<and> (\<forall>i. spent attempts i = failures log i)"

lemma fold_load_row: "fold load_row log ([], Map.empty) = (rows, attempts) \<Longrightarrow> stands_for rows attempts (sane log)"
proof (induction log arbitrary: rows attempts rule: rev_induct)
  case Nil
  then show ?case by (auto simp: stands_for_def last_row_def failures_def spent_def)
next
  case (snoc c log)
  obtain rs at where eq: "fold load_row log ([], Map.empty) = (rs, at)" by fastforce
  let ?c = "sanitize_pre_gate_success c"
  have step: "load_row c (rs, at) = (rows, attempts)" using snoc.prems eq by simp
  from snoc.IH [OF eq] have "stands_for rs at (sane log)" .
  moreover have "rows = filter (\<lambda>r. row_id r \<noteq> row_id c) rs @ [?c]"
    "attempts = (if row_failed ?c then count_attempt (row_id c) at else at)"
    using step calculation by (auto simp: load_row_def Let_def remove_row_distinct stands_for_def)
  ultimately show ?case
    by (auto simp: stands_for_def find_without last_row_snoc failures_snoc spent_count distinct_map_filter)
qed

lemma load_rows_lines:
  "\<forall>r\<in>set log. row_law env r \<Longrightarrow>
   load_rows env k (map (\<lambda>r. ok_text (render_row env r)) log) acc = Inr (fold load_row log acc)"
  by (induction log arbitrary: k acc) (auto simp: row_law_def line_ok_def ok_text_def split: sum.splits)

lemma find_row:
  "distinct (map row_id rs) \<Longrightarrow> find (\<lambda>c. row_id c = i) rs = Some r \<longleftrightarrow> r \<in> set rs \<and> row_id r = i"
  by (induction rs) auto

lemma find_permuted:
  assumes "mset ys = mset xs" "distinct (map row_id xs)"
  shows "find (\<lambda>c. row_id c = i) ys = find (\<lambda>c. row_id c = i) xs"
proof (rule option.expand)
  have sets: "set ys = set xs" by (rule mset_eq_setD [OF assms(1)])
  have dist: "distinct (map row_id ys)"
    using assms by (metis mset_eq_imp_distinct_iff mset_map)
  show "(find (\<lambda>c. row_id c = i) ys = None) = (find (\<lambda>c. row_id c = i) xs = None)"
    by (simp add: find_None_iff sets)
  show "the (find (\<lambda>c. row_id c = i) ys) = the (find (\<lambda>c. row_id c = i) xs)"
    if "find (\<lambda>c. row_id c = i) ys \<noteq> None"
  proof -
    from that obtain r where "find (\<lambda>c. row_id c = i) ys = Some r" by blast
    then show ?thesis using find_row [OF dist] find_row [OF assms(2)] sets by (metis option.sel)
  qed
qed

lemma stands_for_permuted:
  assumes "mset rows' = mset rows" "stands_for rows attempts log"
  shows "stands_for rows' attempts log"
  using assms mset_eq_imp_distinct_iff [of "map row_id rows'" "map row_id rows"]
  by (auto simp: stands_for_def find_permuted mset_map)

lemma stands_for_mem:
  assumes "stands_for rows attempts log" "r \<in> set rows"
  shows "r \<in> set log"
proof -
  have "find (\<lambda>c. row_id c = row_id r) rows = Some r"
    by (subst find_row) (use assms in \<open>simp_all add: stands_for_def\<close>)
  then have "last_row log (row_id r) = Some r" using assms(1) by (simp add: stands_for_def)
  then show ?thesis by (auto simp: last_row_def find_Some_iff) (metis nth_mem set_rev length_rev)
qed

lemma stands_for_failed:
  assumes "stands_for rows attempts log" "r \<in> set rows" "row_failed r"
  shows "0 < spent attempts (row_id r)"
proof -
  have "0 < failures log (row_id r)"
    using stands_for_mem [OF assms(1,2)] assms(3) by (auto simp: failures_def filter_empty_conv)
  then show ?thesis using assms(1) by (simp add: stands_for_def)
qed

definition laws :: "checkpoint_env \<Rightarrow> header \<Rightarrow> row list \<Rightarrow> bool" where
  "laws env h log \<longleftrightarrow>
     header_law env h \<and> (\<forall>r\<in>set log. row_law env r) \<and> (\<forall>xs. mset (values_order env xs) = mset xs)"

definition holds_file :: "fs_path \<Rightarrow> string \<Rightarrow> fs_state \<Rightarrow> bool" where
  "holds_file p text s \<longleftrightarrow> (\<exists>f. lookup s p = Some f \<and> \<not> is_dir_node f \<and> contents f = text)"

lemma ok_text_Inr [simp]: "ok_text (Inr t) = t"
  by (simp add: ok_text_def)

lemma str_lines_log:
  assumes "laws env h log"
  shows "str_lines (log_text env h log) = ok_text (render_header env h) # map (\<lambda>r. ok_text (render_row env r)) log"
  unfolding log_text_def
  by (rule str_lines_lines)
    (use assms in \<open>auto simp: laws_def header_law_def row_law_def line_ok_def ok_text_def split: sum.splits\<close>)

lemma load_existing_log:
  assumes laws: "laws env h log" and stored: "holds_file p (log_text env h log @ t) s"
    and quiet: "faults s = (\<lambda>_ _. None)" and torn: "CHR 0x0A \<notin> set t"
  obtains rows attempts s' where "load_existing env p (header_digest h) s = (Inr (Some (h, rows, attempts)), s')"
    "stands_for rows attempts (sane log)" "holds_file p (log_text env h log) s'" "faults s' = faults s"
    "\<And>q. q \<noteq> p \<Longrightarrow> lookup s' q = lookup s q"
proof -
  let ?text = "log_text env h log"
  obtain f where f: "lookup s p = Some f" "\<not> is_dir_node f" "contents f = ?text @ t"
    using stored by (auto simp: holds_file_def)
  define s' where "s' = (if t = [] then s else set_node p (f\<lparr>contents := ?text\<rparr>) s)"
  have len: "complete_len (?text @ t) = length ?text"
    unfolding log_text_def by (rule complete_len_lines) (use torn in simp_all)
  have cut: "(if t \<noteq> [] then fs_set_len p (length ?text) s else (Inr (), s)) = (Inr (), s')"
    using f quiet by (auto simp: s'_def fs_set_len_def fs_open_write_def fs_open_def)
  obtain l where l: "render_header env h = Inr l" "utf8_valid l" "parse_header env l = Inr h"
    using laws by (auto simp: laws_def header_law_def line_ok_def split: sum.splits)
  obtain rows attempts where rows: "fold load_row log ([], Map.empty) = (rows, attempts)" by fastforce
  have loaded: "load_rows env 2 (map (\<lambda>r. ok_text (render_row env r)) log) ([], Map.empty) = Inr (rows, attempts)"
    using load_rows_lines [of log env 2 "([], Map.empty)"] laws rows by (simp add: laws_def)
  have "load_existing env p (header_digest h) s = (Inr (Some (h, values_order env rows, attempts)), s')"
    using f quiet cut
    by (simp add: load_existing_def Let_def fs_read_def fs_open_def len str_lines_log [OF laws] l loaded)
  moreover have "stands_for (values_order env rows) attempts (sane log)"
    by (rule stands_for_permuted [OF _ fold_load_row [OF rows]]) (use laws in \<open>simp add: laws_def\<close>)
  moreover have "holds_file p ?text s'" "faults s' = faults s"
    using f by (auto simp: s'_def holds_file_def lookup_set_node)
  moreover have "lookup s' q = lookup s q" if "q \<noteq> p" for q
    using that by (simp add: s'_def lookup_set_node)
  ultimately show thesis using that by blast
qed

section \<open>Replacing a file\<close>

abbreviation temp_path :: "fs_path \<Rightarrow> string \<Rightarrow> fs_path" where
  "temp_path root d \<equiv> with_extension (session_path root d) ''jsonl.tmp''"

definition plain :: "fs_path \<Rightarrow> fs_state \<Rightarrow> bool" where
  "plain p s \<longleftrightarrow>
     (\<forall>q. strict_prefix p q \<longrightarrow> lookup s q = None) \<and> (\<forall>n. lookup s p = Some n \<longrightarrow> \<not> is_dir_node n)"

text \<open>The store's directory exists, the two paths of the checkpoint are no directories, and no
  operation fails.\<close>

definition ready :: "fs_path \<Rightarrow> string \<Rightarrow> fs_state \<Rightarrow> bool" where
  "ready root d s \<longleftrightarrow>
     faults s = (\<lambda>_ _. None)
     \<and> (\<forall>q\<in>insert root (set (tl (prefixes root))). \<exists>n. lookup s q = Some n \<and> is_dir_node n)
     \<and> plain (session_path root d) s \<and> plain (temp_path root d) s"

lemma make_dirs_present:
  "(\<forall>q\<in>set ps. \<exists>n. lookup s q = Some n \<and> is_dir_node n) \<Longrightarrow> make_dirs ps s = (Inr (), s)"
  by (induction ps) auto

lemma create_dir_ready: "ready root d s \<Longrightarrow> fs_create_dir_all root s = (Inr (), s)"
  by (simp add: ready_def fs_create_dir_all_def make_dirs_present)

lemma temp_path_eq: "temp_path root d = root @ [file_stem (digest_prefix d @ ''.jsonl'') @ ''.jsonl.tmp'']"
  by (simp add: with_extension_def session_path_def)

lemma temp_path_other: "temp_path root d \<noteq> session_path root d"
proof
  assume eq: "temp_path root d = session_path root d"
  have "last (last (temp_path root d)) = CHR ''p''" by (simp add: temp_path_eq)
  moreover have "last (last (session_path root d)) = CHR ''l''" by (simp add: session_path_def)
  ultimately show False by (simp add: eq)
qed

lemma sibling_not_prefix:
  "\<not> prefix (temp_path root d) (session_path root d)" "\<not> prefix (session_path root d) (temp_path root d)"
proof -
  obtain a b where "temp_path root d = root @ [a]" "session_path root d = root @ [b]"
    using temp_path_eq [of root d] session_path_def [of root d] by blast
  then show "\<not> prefix (temp_path root d) (session_path root d)" "\<not> prefix (session_path root d) (temp_path root d)"
    using temp_path_other [of root d] by (auto simp: prefix_def)
qed

lemma root_not_sibling: "q \<in> insert root (set (tl (prefixes root))) \<Longrightarrow> \<not> prefix (root @ [a]) q"
  by (auto dest!: list.set_sel(2) [rotated] prefix_length_le)

lemma root_not_path:
  assumes "q \<in> insert root (set (tl (prefixes root)))"
  shows "\<not> prefix (session_path root d) q" "\<not> prefix (temp_path root d) q"
  using root_not_sibling [OF assms]
  by (simp add: session_path_def) (metis root_not_sibling [OF assms] temp_path_eq)

lemma plain_children: "plain p s \<Longrightarrow> children s p = []"
proof -
  assume plain: "plain p s"
  have False if "q \<in> set (children s p)" for q
  proof -
    have q: "q \<noteq> []" "butlast q = p" "q \<in> fst ` set (nodes s)" using that by (auto simp: children_def)
    then have "q = p @ [last q]" using append_butlast_last_id [OF q(1)] by simp
    then have "strict_prefix p q" unfolding strict_prefix_def prefix_def by auto
    then have "lookup s q = None" using plain by (simp add: plain_def)
    then show False using q(3) by (simp add: map_of_eq_None_iff)
  qed
  then show ?thesis by (cases "children s p") auto
qed

lemma render_rows_law:
  "\<forall>r\<in>set log. row_law env r \<Longrightarrow>
   render_rows env log = Inr (concat (map (\<lambda>r. ok_text (render_row env r) @ [CHR 0x0A]) log))"
  by (induction log) (auto simp: row_law_def split: sum.splits)

lemma write_temp:
  assumes "ready root d s"
  obtains s1 where "fs_write_file (temp_path root d) body s = (Inr (), s1)" "faults s1 = faults s"
    "lookup s1 (temp_path root d) = Some (fresh_file\<lparr>contents := body\<rparr>)"
    "\<And>q. q \<noteq> temp_path root d \<Longrightarrow> lookup s1 q = lookup s q"
proof -
  have "butlast (temp_path root d) = root" by (simp add: temp_path_eq)
  then show thesis
    using assms that
    by (cases "lookup s (temp_path root d)")
      (auto simp: ready_def plain_def fs_write_file_def fs_open_or_create_def lookup_set_node lookup_add_node
         split: option.splits)
qed

lemma rename_temp:
  assumes "ready root d s" "lookup s1 (temp_path root d) = Some f" "\<not> is_dir_node f" "faults s1 = faults s"
    and "\<And>q. q \<noteq> temp_path root d \<Longrightarrow> lookup s1 q = lookup s q"
  obtains s2 where "fs_rename (temp_path root d) (session_path root d) s1 = (Inr (), s2)" "faults s2 = faults s"
    "\<And>x. lookup s2 (session_path root d @ x) = lookup s1 (temp_path root d @ x)"
    "\<And>q. \<not> prefix (session_path root d) q \<Longrightarrow> lookup s2 q = (if prefix (temp_path root d) q then None else lookup s1 q)"
proof -
  let ?t = "session_path root d" and ?p = "temp_path root d"
  have below: "lookup s1 q = None" if "strict_prefix ?t q" for q
    using that assms(1,5) sibling_not_prefix(2) [of root d] by (auto simp: ready_def plain_def strict_prefix_def)
  have notdir: "\<not> is_dir_node m" if "lookup s1 ?t = Some m" for m
    using that assms(1) assms(5) [OF temp_path_other [symmetric]] by (auto simp: ready_def plain_def)
  have alone: "children s1 ?t = []" by (rule plain_children) (use below notdir in \<open>simp add: plain_def\<close>)
  have "root \<noteq> ?p" using root_not_path(2) [of root root d] by auto
  then have "lookup s1 root \<noteq> None" using assms(1) assms(5) [of root] by (auto simp: ready_def)
  then have "lookup s1 (butlast ?t) \<noteq> None" by (simp add: session_path_def [of root d])
  moreover have "faults s1 OpRename ?p = None" using assms(1,4) by (simp add: ready_def)
  ultimately have run: "fs_rename ?p ?t s1 = (Inr (), move_under ?p ?t (if lookup s1 ?t = None then s1 else drop_under ?t s1))"
    using assms(3) notdir sibling_not_prefix(1) [of root d]
    by (cases "lookup s1 ?t") (simp_all add: fs_rename_def assms(2) alone)
  let ?s = "if lookup s1 ?t = None then s1 else drop_under ?t s1"
  have none: "lookup ?s q = None" if "prefix ?t q" for q
    using that below by (cases "q = ?t") (auto simp: lookup_drop_under strict_prefix_def)
  have "lookup ?s q = lookup s1 q" if "\<not> prefix ?t q" for q
    using that by (simp add: lookup_drop_under)
  moreover have "\<not> prefix ?t (?p @ x)" for x
    using sibling_not_prefix [of root d] prefix_same_cases [of ?t "?p @ x" ?p] by auto
  ultimately have "lookup (move_under ?p ?t ?s) (?t @ x) = lookup s1 (?p @ x)" for x
    using lookup_move_target [of ?s ?t x ?p] none by simp
  moreover have "lookup (move_under ?p ?t ?s) q = (if prefix ?p q then None else lookup s1 q)" if "\<not> prefix ?t q" for q
    using that by (simp add: lookup_move_under lookup_drop_under)
  ultimately show thesis using that [OF run] assms(4) by simp
qed

lemma write_checkpoint_log:
  assumes "laws env h rows" "ready root d s"
  obtains s' where "write_checkpoint env (session_path root d) h rows s = (Inr (), s')" "ready root d s'"
    "holds_file (session_path root d) (log_text env h rows) s'"
proof -
  let ?t = "session_path root d" and ?p = "temp_path root d" and ?body = "log_text env h rows"
  obtain s1 where w: "fs_write_file ?p ?body s = (Inr (), s1)" "faults s1 = faults s"
    "lookup s1 ?p = Some (fresh_file\<lparr>contents := ?body\<rparr>)" "\<And>q. q \<noteq> ?p \<Longrightarrow> lookup s1 q = lookup s q"
    by (rule write_temp [OF assms(2)]) blast
  obtain s2 where r: "fs_rename ?p ?t s1 = (Inr (), s2)" "faults s2 = faults s"
    "\<And>x. lookup s2 (?t @ x) = lookup s1 (?p @ x)"
    "\<And>q. \<not> prefix ?t q \<Longrightarrow> lookup s2 q = (if prefix ?p q then None else lookup s1 q)"
    by (rule rename_temp [OF assms(2) w(3) _ w(2,4)]) (auto simp: fresh_file_def)
  obtain l where l: "render_header env h = Inr l" using assms(1) by (auto simp: laws_def header_law_def split: sum.splits)
  have "bind_result (render_header env h) (\<lambda>line. bind_result (render_rows env rows) (\<lambda>rest. Inr (line @ [CHR 0x0A] @ rest))) = Inr ?body"
    using assms(1) by (simp add: l laws_def render_rows_law log_text_def comp_def)
  then have "write_checkpoint env ?t h rows s = (Inr (), s2)" by (simp add: write_checkpoint_def w(1) r(1))
  moreover have "lookup s2 ?t = Some (fresh_file\<lparr>contents := ?body\<rparr>)" using r(3) [of "[]"] w(3) by simp
  moreover have "ready root d s2" unfolding ready_def
  proof (intro conjI ballI)
    show "faults s2 = (\<lambda>_ _. None)" using assms(2) r(2) by (simp add: ready_def)
    show "\<exists>n. lookup s2 q = Some n \<and> is_dir_node n" if "q \<in> insert root (set (tl (prefixes root)))" for q
      using that root_not_path [OF that, of d] r(4) [of q] w(4) [of q] assms(2) by (auto simp: ready_def)
    have "x = []" if "lookup s1 (?p @ x) \<noteq> None" for x
    proof (rule ccontr)
      assume "x \<noteq> []"
      then show False using that w(4) [of "?p @ x"] assms(2) by (simp add: ready_def plain_def strict_prefix_def)
    qed
    then show "plain ?t s2"
      using r(3) \<open>lookup s2 ?t = _\<close> by (auto simp: plain_def strict_prefix_def prefix_def fresh_file_def)
    have "\<not> prefix ?t q" if "prefix ?p q" for q
      using sibling_not_prefix [of root d] prefix_same_cases [of ?t q ?p] that by auto
    then show "plain ?p s2" using r(4) by (auto simp: plain_def strict_prefix_def)
  qed
  ultimately show thesis using that by (simp add: holds_file_def fresh_file_def)
qed

section \<open>Opening a file\<close>

text \<open>The session that an opened file gives.\<close>

definition session_for :: "fs_path \<Rightarrow> string \<Rightarrow> row list \<Rightarrow> (string \<rightharpoonup> nat) \<Rightarrow> session" where
  "session_for root d rows attempts =
     \<lparr>cs_path = session_path root d, cs_rows = rows, cs_done = set (map row_id rows),
      cs_failed = length (filter row_failed rows), cs_attempts = attempts, cs_unfit = {}\<rparr>"

lemma session_for_ok:
  assumes "stands_for rows attempts log"
  shows "session_ok (session_for root d rows attempts)"
proof -
  have "spent attempts i = 0" if "i \<notin> row_id ` set rows" for i
  proof -
    have "find (\<lambda>c. row_id c = i) rows = None" using that by (auto simp: find_None_iff)
    then have "last_row log i = None" using assms by (simp add: stands_for_def)
    then have "failures log i = 0" by (auto simp: last_row_def failures_def find_None_iff filter_empty_conv)
    then show ?thesis using assms by (simp add: stands_for_def)
  qed
  then show ?thesis
    using assms stands_for_failed [OF assms] by (auto simp: session_ok_def session_for_def stands_for_def)
qed

lemma ready_transfer:
  assumes "ready root d s" "\<And>q. q \<noteq> session_path root d \<Longrightarrow> lookup s' q = lookup s q"
    and "holds_file (session_path root d) text s'" "faults s' = faults s"
  shows "ready root d s'"
proof -
  have "q \<noteq> session_path root d" if "q \<in> insert root (set (tl (prefixes root)))" for q
    using root_not_sibling [OF that] by (auto simp: session_path_def)
  moreover have "\<not> strict_prefix (temp_path root d) (session_path root d)"
    using sibling_not_prefix(1) by (auto simp: strict_prefix_def)
  ultimately show ?thesis
    using assms temp_path_other by (auto simp: ready_def plain_def holds_file_def)
qed

lemma open_in_log:
  assumes "laws env h log" "holds_file (session_path root (header_digest h)) (log_text env h log @ t) s"
    and "ready root (header_digest h) s" "CHR 0x0A \<notin> set t"
  obtains rows attempts s' where
    "open_in env root h s = (Inr (session_for root (header_digest h) rows attempts), s')"
    "stands_for rows attempts (sane log)" "ready root (header_digest h) s'"
    "holds_file (session_path root (header_digest h)) (log_text env h log) s'"
proof -
  let ?p = "session_path root (header_digest h)"
  have quiet: "faults s = (\<lambda>_ _. None)" using assms(3) by (simp add: ready_def)
  obtain rows attempts s' where l:
    "load_existing env ?p (header_digest h) s = (Inr (Some (h, rows, attempts)), s')"
    "stands_for rows attempts (sane log)" "holds_file ?p (log_text env h log) s'" "faults s' = faults s"
    "\<And>q. q \<noteq> ?p \<Longrightarrow> lookup s' q = lookup s q"
    by (rule load_existing_log [OF assms(1,2) quiet assms(4)]) blast
  have "fs_exists s ?p" using assms(2) quiet by (auto simp: fs_exists_def fs_stat_def holds_file_def)
  moreover have "\<exists>f. fs_open_write ?p s' = Inr f"
    using l(3,4) quiet by (auto simp: fs_open_write_def fs_open_def holds_file_def)
  ultimately have "open_in env root h s = (Inr (session_for root (header_digest h) rows attempts), s')"
    by (auto simp: open_in_def create_dir_ready [OF assms(3)] l(1) session_for_def)
  moreover have "ready root (header_digest h) s'"
    by (rule ready_transfer [OF assms(3) _ l(3,4)]) (use l(5) in simp)
  ultimately show thesis using l(2,3) that by blast
qed

section \<open>The session and its file agree\<close>

definition matches :: "checkpoint_env \<Rightarrow> fs_path \<Rightarrow> header \<Rightarrow> session \<Rightarrow> fs_state \<Rightarrow> row list \<Rightarrow> bool" where
  "matches env root h cs s log \<longleftrightarrow>
     cs_path cs = session_path root (header_digest h) \<and> session_ok cs
     \<and> holds_file (cs_path cs) (log_text env h log) s
     \<and> (\<forall>i. i \<notin> cs_unfit cs \<longrightarrow> row_of cs i = last_row (sane log) i)
     \<and> (\<forall>i. spent (cs_attempts cs) i = failures (sane log) i)"

lemma matches_open:
  "stands_for rows attempts (sane log) \<Longrightarrow> holds_file (session_path root (header_digest h)) (log_text env h log) s \<Longrightarrow>
   matches env root h (session_for root (header_digest h) rows attempts) s log"
  unfolding matches_def
  by (intro conjI session_for_ok [of rows attempts "sane log"]) (simp_all add: session_for_def row_of_def stands_for_def)

lemma log_text_snoc: "log_text env h (log @ [c]) = log_text env h log @ ok_text (render_row env c) @ [CHR 0x0A]"
  by (simp add: log_text_def)

lemma holds_append:
  assumes "holds_file p text s"
  shows "holds_file p (text @ (case io of Appended \<Rightarrow> bs | TornAt n _ \<Rightarrow> take n bs)) (snd (fs_append p io bs s))"
    "faults (snd (fs_append p io bs s)) = faults s"
    "q \<noteq> p \<Longrightarrow> lookup (snd (fs_append p io bs s)) q = lookup s q"
  using assms by (auto simp: holds_file_def fs_append_def lookup_set_node split: append_io.splits option.splits)

lemma reopened:
  assumes "laws env h log" "ready root (header_digest h) s" "CHR 0x0A \<notin> set t"
    and "holds_file (session_path root (header_digest h)) (log_text env h log @ t) s"
  shows "\<exists>cs' s'. open_in env root h s = (Inr cs', s') \<and> matches env root h cs' s' log \<and> cs_unfit cs' = {}"
proof -
  have "cs_unfit (session_for root (header_digest h) rows attempts) = {}" for rows attempts
    by (simp add: session_for_def)
  with open_in_log [OF assms(1,4,2,3)] show ?thesis using matches_open by metis
qed

lemma laws_snoc: "laws env h (log @ [c]) \<Longrightarrow> laws env h log"
  by (simp add: laws_def)

text \<open>C3. A kill at any byte of an append costs at most the row that was being written. Whatever became
  of the append (all of it written, or any first part of the line), opening the file again succeeds,
  and the session it gives stands for the rows before the append, or for those and the appended row;
  for those and the appended row if the append returned \<open>Ok\<close>, in which case the session in memory
  stands for them as well. The file then holds complete lines only, so the next row starts a line.
\<close>

theorem checkpoint_survives_kill:
  assumes "laws env h (log @ [c])" "ready root (header_digest h) s" "matches env root h cs s log"
    and "sanitize_pre_gate_success c = c" "append_row env io c cs s = (r, cs1, s1)"
  shows "\<exists>log' cs' s'. open_in env root h s1 = (Inr cs', s') \<and> matches env root h cs' s' log'
    \<and> (log' = log \<or> log' = log @ [c]) \<and> (r = Inr () \<longrightarrow> log' = log @ [c] \<and> matches env root h cs1 s1 log')"
proof -
  let ?p = "session_path root (header_digest h)"
  have path: "cs_path cs = ?p" and held: "holds_file ?p (log_text env h log) s" using assms(3) by (auto simp: matches_def)
  obtain l where l: "render_row env c = Inr l" "CHR 0x0A \<notin> set l"
    using assms(1) by (auto simp: laws_def row_law_def line_ok_def split: sum.splits)
  let ?bs = "l @ [CHR 0x0A]"
  have s1: "s1 = snd (fs_append ?p io ?bs s)" and r: "r = Inr () \<longrightarrow> io = Appended \<and> cs1 = remember c cs"
    using assms(5) l by (auto simp: append_row_def path fs_append_def split: append_io.splits)
  note after = holds_append [OF held, where io = io and bs = ?bs]
  have ready: "ready root (header_digest h) s1"
    by (rule ready_transfer [OF assms(2)]) (use after in \<open>auto simp: s1\<close>)
  let ?whole = "case io of Appended \<Rightarrow> True | TornAt n _ \<Rightarrow> length l < n"
  let ?log = "if ?whole then log @ [c] else log" and ?t = "if ?whole then [] else case io of TornAt n _ \<Rightarrow> take n l | _ \<Rightarrow> []"
  have holds1: "holds_file ?p (log_text env h ?log @ ?t) s1"
    using after(1) l by (auto simp: s1 log_text_snoc split: append_io.splits)
  have "laws env h ?log" using assms(1) laws_snoc by simp
  moreover have "CHR 0x0A \<notin> set ?t" using l(2) by (auto split: append_io.splits dest: in_set_takeD)
  ultimately obtain cs' s' where "open_in env root h s1 = (Inr cs', s')" "matches env root h cs' s' ?log"
    using reopened ready holds1 by blast
  moreover have "matches env root h cs1 s1 (log @ [c])" if "r = Inr ()"
    using that r holds1 assms(3,4)
    by (auto simp: matches_def session_ok_remember row_of_remember spent_remember last_row_snoc failures_snoc)
  ultimately show ?thesis using r by (intro exI [of _ ?log] exI [of _ cs'] exI [of _ s']) auto
qed

section \<open>Retiring a checkpoint\<close>

lemma sanitize_failed: "row_failed c \<Longrightarrow> sanitize_pre_gate_success c = c"
  by (simp add: sanitize_pre_gate_success_def)

lemma find_replicate: "find P (replicate n c @ xs) = (if 0 < n \<and> P c then Some c else find P xs)"
  by (induction n) auto

text \<open>One line per attempt spent: the last row of an id and its number of failures are those of the
  session.\<close>

lemma repeated_rows:
  assumes "distinct (map row_id rs)" "\<forall>c\<in>set rs. row_failed c \<and> 0 < n c"
  shows "last_row (concat (map (\<lambda>c. replicate (n c) c) rs)) i = find (\<lambda>c. row_id c = i) rs"
    and "failures (concat (map (\<lambda>c. replicate (n c) c) rs)) i = (case find (\<lambda>c. row_id c = i) rs of None \<Rightarrow> 0 | Some c \<Rightarrow> n c)"
proof -
  have "find P (rev (concat (map (\<lambda>c. replicate (n c) c) rs))) = find P (rev rs)" for P
    using assms(2) by (induction rs rule: rev_induct) (auto simp: find_replicate)
  moreover have "find (\<lambda>c. row_id c = i) (rev rs) = find (\<lambda>c. row_id c = i) rs"
    by (rule find_permuted [OF _ assms(1)]) simp
  ultimately show "last_row (concat (map (\<lambda>c. replicate (n c) c) rs)) i = find (\<lambda>c. row_id c = i) rs"
    by (simp add: last_row_def)
  show "failures (concat (map (\<lambda>c. replicate (n c) c) rs)) i = (case find (\<lambda>c. row_id c = i) rs of None \<Rightarrow> 0 | Some c \<Rightarrow> n c)"
    using assms
  proof (induction rs)
    case (Cons r rs)
    have "find (\<lambda>c. row_id c = row_id r) rs = None"
      using Cons.prems(1) by (auto simp: find_None_iff image_iff)
    then show ?case using Cons by (auto simp: failures_def filter_replicate)
  qed (simp add: failures_def)
qed

definition only_failed :: "row option \<Rightarrow> row option" where
  "only_failed r = (case r of Some c \<Rightarrow> if row_failed c then Some c else None | None \<Rightarrow> None)"

lemma find_failed:
  "distinct (map row_id rs) \<Longrightarrow>
   find (\<lambda>c. row_id c = i) (filter row_failed rs) = only_failed (find (\<lambda>c. row_id c = i) rs)"
proof (induction rs)
  case (Cons r rs)
  have "find (\<lambda>c. row_id c = row_id r) (filter row_failed rs) = None"
    using Cons.prems by (auto simp: find_None_iff image_iff)
  then show ?case using Cons by (auto simp: only_failed_def)
qed (simp add: only_failed_def)

lemma failed_log:
  assumes "stands_for rows attempts log"
    and "log' = failed_lines attempts rows"
  shows "last_row (sane log') i = only_failed (last_row log i)"
    and "failures (sane log') i = (if only_failed (last_row log i) = None then 0 else failures log i)"
proof -
  let ?n = "\<lambda>c. max 1 (spent attempts (row_id c))" and ?rs = "filter row_failed rows"
  have "sane log' = log'" by (rule map_idI) (auto simp: assms(2) failed_lines_def sanitize_failed)
  moreover have dist: "distinct (map row_id rows)" using assms(1) by (simp add: stands_for_def)
  then have distr: "distinct (map row_id ?rs)" by (rule distinct_map_filter)
  moreover have "\<forall>c\<in>set ?rs. row_failed c \<and> 0 < ?n c" by (simp add: less_max_iff_disj)
  ultimately have rep: "last_row (sane log') i = find (\<lambda>c. row_id c = i) ?rs"
    "failures (sane log') i = (case find (\<lambda>c. row_id c = i) ?rs of None \<Rightarrow> 0 | Some c \<Rightarrow> ?n c)"
    unfolding assms(2) failed_lines_def by (simp_all only: repeated_rows)
  have at: "find (\<lambda>c. row_id c = i) ?rs = only_failed (last_row log i)"
    using assms(1) find_failed [OF dist] by (simp add: stands_for_def)
  show "last_row (sane log') i = only_failed (last_row log i)" using rep(1) at by simp
  have "?n c = failures log i" if "only_failed (last_row log i) = Some c" for c
  proof -
    have "c \<in> set ?rs" "row_id c = i" using that at find_row [OF distr, of i c] by simp_all
    then have "0 < spent attempts (row_id c)" using stands_for_failed [OF assms(1)] by auto
    then show ?thesis using assms(1) \<open>row_id c = i\<close> by (simp add: stands_for_def)
  qed
  then show "failures (sane log') i = (if only_failed (last_row log i) = None then 0 else failures log i)"
    using rep(2) at by (auto split: option.splits)
qed

lemma remove_ready:
  assumes "ready root d s" "holds_file (session_path root d) text s"
  obtains s' where "fs_remove_file (session_path root d) s = (Inr (), s')" "ready root d s'"
    "lookup s' (session_path root d) = None"
proof -
  let ?p = "session_path root d"
  let ?s = "s\<lparr>nodes := filter (\<lambda>(q, _). q \<noteq> ?p) (nodes s)\<rparr>"
  have "fs_remove_file ?p s = (Inr (), ?s)"
    using assms by (auto simp: ready_def holds_file_def fs_remove_file_def)
  moreover have look: "lookup ?s q = (if q = ?p then None else lookup s q)" for q
    using map_of_filter_key [of "\<lambda>q. q \<noteq> ?p" "nodes s" q] by simp
  moreover have "\<exists>n. lookup ?s q = Some n \<and> is_dir_node n" if "q \<in> insert root (set (tl (prefixes root)))" for q
    using assms(1) that root_not_path(1) [OF that, of d] look [of q] by (auto simp: ready_def)
  then have "ready root d ?s"
    using assms(1) look by (simp add: ready_def plain_def)
  ultimately show thesis using that by simp
qed

lemma open_fresh:
  assumes "laws env h []" "ready root (header_digest h) s" "lookup s (session_path root (header_digest h)) = None"
  shows "\<exists>s'. open_in env root h s = (Inr (session_for root (header_digest h) [] Map.empty), s')"
proof -
  let ?p = "session_path root (header_digest h)"
  obtain s' where w: "write_checkpoint env ?p h [] s = (Inr (), s')" "ready root (header_digest h) s'"
    "holds_file ?p (log_text env h []) s'"
    by (rule write_checkpoint_log [OF assms(1,2)])
  have "\<not> fs_exists s ?p" using assms(2,3) by (simp add: fs_exists_def fs_stat_def ready_def)
  moreover have "\<exists>f. fs_open_write ?p s' = Inr f"
    using w(2,3) by (auto simp: fs_open_write_def fs_open_def holds_file_def ready_def)
  ultimately show ?thesis
    by (auto simp: open_in_def create_dir_ready [OF assms(2)] w(1) session_for_def)
qed

text \<open>C12. Retiring a checkpoint keeps the attempt budget. After \<open>finalize\<close>, a later run under the same
  HTTP timeout opens a session with the failed samples and no other, each with the row and the number
  of attempts it had before; every sample that succeeded last is sent again from scratch.
\<close>

theorem finalize_keeps_budget:
  assumes "laws env h (log @ sane log)" "ready root (header_digest h) s" "matches env root h cs s log"
  shows "\<exists>s1 cs' s'. finalize env root (header_digest h) s = (Inr (), s1) \<and> open_in env root h s1 = (Inr cs', s')
    \<and> (\<forall>i. row_of cs' i = only_failed (last_row (sane log) i)
         \<and> spent (cs_attempts cs') i = (if only_failed (last_row (sane log) i) = None then 0 else failures (sane log) i))"
proof -
  let ?d = "header_digest h" and ?p = "session_path root (header_digest h)"
  have held: "holds_file ?p (log_text env h log @ []) s" using assms(3) by (auto simp: matches_def)
  have quiet: "faults s = (\<lambda>_ _. None)" and lw: "laws env h log" using assms(1,2) by (auto simp: ready_def laws_def)
  obtain rows attempts s0 where l: "load_existing env ?p ?d s = (Inr (Some (h, rows, attempts)), s0)"
    "stands_for rows attempts (sane log)" "holds_file ?p (log_text env h log) s0" "faults s0 = faults s"
    "\<And>q. q \<noteq> ?p \<Longrightarrow> lookup s0 q = lookup s q"
    by (rule load_existing_log [OF lw held quiet]) auto
  have ready0: "ready root ?d s0" by (rule ready_transfer [OF assms(2) l(5,3,4)])
  define log' where "log' = failed_lines attempts rows"
  have start: "fs_exists s ?p" using held quiet by (auto simp: fs_exists_def fs_stat_def holds_file_def)
  note failed = failed_log [OF l(2) log'_def]
  show ?thesis
  proof (cases "log' = []")
    case True
    obtain s1 where r: "fs_remove_file ?p s0 = (Inr (), s1)" "ready root ?d s1" "lookup s1 ?p = None"
      by (rule remove_ready [OF ready0 l(3)])
    have "finalize env root ?d s = (Inr (), s1)"
      using True by (simp add: finalize_def Let_def start l(1) log'_def [symmetric] r(1))
    moreover have "laws env h []" using lw by (simp add: laws_def)
    note open_fresh [OF this r(2,3)]
    moreover have "spent Map.empty i = 0" for i by (simp add: spent_def)
    ultimately show ?thesis using failed by (auto simp: True session_for_def row_of_def last_row_def failures_def)
  next
    case False
    have "set log' \<subseteq> set (sane log)" using stands_for_mem [OF l(2)] by (auto simp: log'_def failed_lines_def)
    then have lw': "laws env h log'" using assms(1) by (auto simp: laws_def)
    obtain s1 where w: "write_checkpoint env ?p h log' s0 = (Inr (), s1)" "ready root ?d s1"
      "holds_file ?p (log_text env h log') s1"
      by (rule write_checkpoint_log [OF lw' ready0])
    have "finalize env root ?d s = (Inr (), s1)"
      using False by (simp add: finalize_def Let_def start l(1) log'_def [symmetric] w(1))
    moreover obtain cs' s' where "open_in env root h s1 = (Inr cs', s')" "matches env root h cs' s' log'" "cs_unfit cs' = {}"
      using reopened [OF lw' w(2), of "[]"] w(3) by auto
    ultimately show ?thesis using failed by (auto simp: matches_def)
  qed
qed

section \<open>Every session is well formed\<close>

lemma load_rows_fold:
  "load_rows env k ls acc = Inr res \<Longrightarrow> \<exists>log. res = fold load_row log acc"
proof (induction ls arbitrary: k acc)
  case Nil
  then show ?case by (auto intro: exI [of _ "[]"])
next
  case (Cons l ls)
  show ?case
  proof (cases "utf8_valid l \<and> trim l \<noteq> [] \<and> (\<exists>c. parse_row env l = Inr c)")
    case True
    then obtain c where "parse_row env l = Inr c" by blast
    with Cons.prems True have "load_rows env (Suc k) ls (load_row c acc) = Inr res" by simp
    from Cons.IH [OF this] obtain log where "res = fold load_row (c # log) acc" by auto
    then show ?thesis by blast
  next
    case False
    then have "load_rows env (Suc k) ls acc = Inr res" using Cons.prems by (auto split: if_splits sum.splits)
    then show ?thesis by (rule Cons.IH)
  qed
qed

lemma load_existing_stands:
  assumes "\<forall>xs. mset (values_order env xs) = mset xs" "load_existing env p d s = (Inr (Some (h, rows, attempts)), s')"
  shows "\<exists>log. stands_for rows attempts log"
proof -
  obtain ls by_id where "load_rows env 2 ls ([], Map.empty) = Inr (by_id, attempts)" "rows = values_order env by_id"
    using assms(2)
    by (auto simp: load_existing_def Let_def split: sum.splits if_splits list.splits prod.splits)
  then show ?thesis
    using load_rows_fold fold_load_row stands_for_permuted assms(1) by metis
qed

lemma open_in_rows:
  assumes perm: "\<forall>xs. mset (values_order env xs) = mset xs" and ok: "open_in env root h s = (Inr cs, s')"
  shows "\<exists>rows attempts log. cs = session_for root (header_digest h) rows attempts \<and> stands_for rows attempts log"
proof -
  have empty: "stands_for [] Map.empty []" by (simp add: stands_for_def last_row_def failures_def spent_def)
  have "stands_for (filter (\<lambda>c. \<not> row_failed c) rows) Map.empty (filter (\<lambda>c. \<not> row_failed c) rows)"
    if "stands_for rows attempts log" for rows attempts log
  proof -
    have d: "distinct (map row_id (filter (\<lambda>c. \<not> row_failed c) rows))"
      using that by (simp add: stands_for_def distinct_map_filter)
    then show ?thesis
      using find_permuted [OF _ d, of "rev (filter (\<lambda>c. \<not> row_failed c) rows)"]
      by (auto simp: stands_for_def last_row_def failures_def spent_def filter_empty_conv)
  qed
  note cases = this load_existing_stands [OF perm] empty
  show ?thesis
    using ok unfolding open_in_def Let_def session_for_def [symmetric]
    by (auto simp: session_for_def [symmetric] split: sum.splits if_splits option.splits prod.splits dest!: cases(2) intro: cases(1,3))
qed

datatype session_op = AppendOp append_io row | UnfitOp row

fun run_op :: "checkpoint_env \<Rightarrow> session \<times> fs_state \<Rightarrow> session_op \<Rightarrow> session \<times> fs_state" where
  "run_op env (cs, s) (AppendOp io c) = snd (append_row env io c cs s)"
| "run_op env (cs, s) (UnfitOp c) = (record_unfit c cs, s)"

lemma session_ok_run_op: "session_ok (fst x) \<Longrightarrow> session_ok (fst (run_op env x op))"
  by (cases x; cases op)
    (auto simp: append_row_def session_ok_unfit session_ok_remember split: sum.splits prod.splits)

text \<open>C15. Whatever the file held when it was opened (torn, corrupt, rotated away, written under another
  timeout) and whatever rows are appended or held unfit since, with or without write errors: the
  session has one row per id, its set of ids and its count of failures are those of its rows, and a
  failed row that was not held unfit has spent an attempt.
\<close>

theorem session_well_formed:
  assumes "\<forall>xs. mset (values_order env xs) = mset xs" "open_in env root h s = (Inr cs, s')"
  shows "session_ok (fst (foldl (run_op env) (cs, s') ops))"
proof -
  have "session_ok cs" using open_in_rows [OF assms] session_for_ok by blast
  then have "session_ok (fst (cs, s'))" by simp
  then show ?thesis by (induction ops rule: rev_induct) (simp_all add: session_ok_run_op)
qed

section \<open>The properties at a concrete input\<close>

definition sample_row :: "string \<Rightarrow> bool \<Rightarrow> row" where
  "sample_row i f = \<lparr>row_id = i, row_text = ''x'', row_failed = f, row_failed_reason = None, row_stop = Eos,
                     row_stop_detail = None, row_tokens = None\<rparr>"

definition sample_header :: header where
  "sample_header = \<lparr>header_digest = ''d'', header_meta = \<lparr>meta_benchmark = ''b'', meta_runtime = ''r'', meta_model = ''m''\<rparr>,
                    header_timeout = None\<rparr>"

definition sample_env :: checkpoint_env where
  "sample_env = \<lparr>render_header = (\<lambda>_. Inr ''h''), parse_header = (\<lambda>_. Inr sample_header),
     render_row = (\<lambda>r. Inr (if row_failed r then ''f'' else ''g'')),
     parse_row = (\<lambda>l. Inr (if l = ''f'' then sample_row ''i'' True else sample_row ''i'' False)),
     values_order = rev, stale_secs = ''0''\<rparr>"

definition sample_log :: "row list" where
  "sample_log = [sample_row ''i'' True]"

definition sample_fs :: fs_state where
  "sample_fs = \<lparr>nodes = [([''evals''], fresh_dir),
      (session_path [''evals''] ''d'', fresh_file\<lparr>contents := log_text sample_env sample_header sample_log\<rparr>)],
     held = (\<lambda>_. False), faults = (\<lambda>_ _. None), uuids = (\<lambda>_. []), drawn = 0\<rparr>"

definition sample_session :: session where
  "sample_session = session_for [''evals''] ''d'' sample_log (Map.empty(''i'' \<mapsto> 1))"

lemma sample_lines [simp]: "line_ok ''h'' \<and> line_ok ''f'' \<and> line_ok ''g''"
  by (auto simp: line_ok_def strip_cr_def trim_visible visible_def ascii_def intro!: ascii_utf8_valid)

lemma sample_laws:
  "laws sample_env sample_header (sample_log @ [sample_row ''i'' False])"
  "laws sample_env sample_header (sample_log @ sane sample_log)"
  by (auto simp: laws_def header_law_def row_law_def sample_env_def sample_log_def sample_row_def
      sanitize_pre_gate_success_def PRE_GATE_CHAT_DETAIL_def)

lemma sample_paths: "session_path [''evals''] ''d'' = [''evals'', ''d.jsonl'']" "with_extension [''evals'', ''d.jsonl''] ''jsonl.tmp'' = [''evals'', ''d.jsonl.tmp'']"
  by (simp_all add: with_extension_def session_path_def digest_prefix_def file_stem_def starts_char_def)

lemma sample_ready: "ready [''evals''] (header_digest sample_header) sample_fs"
  by (auto simp: ready_def plain_def sample_header_def sample_fs_def sample_paths fresh_dir_def fresh_file_def
      strict_prefix_def)

lemma sample_matches: "matches sample_env [''evals''] sample_header sample_session sample_fs sample_log"
proof -
  have "stands_for sample_log (Map.empty(''i'' \<mapsto> 1)) (sane sample_log)"
    by (auto simp: stands_for_def sample_log_def sample_row_def last_row_def failures_def spent_def
        sanitize_pre_gate_success_def)
  moreover have "holds_file (session_path [''evals''] (header_digest sample_header)) (log_text sample_env sample_header sample_log) sample_fs"
    by (simp add: holds_file_def sample_header_def sample_fs_def sample_paths fresh_file_def)
  ultimately show ?thesis
    using matches_open [of sample_log _ sample_log "[''evals'']" sample_header sample_env sample_fs]
    by (simp add: sample_session_def sample_header_def)
qed

theorem checkpoint_survives_kill_witness:
  "\<exists>r cs1 s1 log' cs' s'.
     append_row sample_env (TornAt 1 OtherIo) (sample_row ''i'' False) sample_session sample_fs = (r, cs1, s1)
     \<and> open_in sample_env [''evals''] sample_header s1 = (Inr cs', s') \<and> matches sample_env [''evals''] sample_header cs' s' log'
     \<and> (log' = sample_log \<or> log' = sample_log @ [sample_row ''i'' False])"
proof -
  obtain r cs1 s1 where run:
    "append_row sample_env (TornAt 1 OtherIo) (sample_row ''i'' False) sample_session sample_fs = (r, cs1, s1)"
    by (rule prod_cases3)
  have "sanitize_pre_gate_success (sample_row ''i'' False) = sample_row ''i'' False"
    by (simp add: sanitize_pre_gate_success_def sample_row_def)
  from checkpoint_survives_kill [OF sample_laws(1) sample_ready sample_matches this run] run
  show ?thesis by blast
qed

theorem finalize_keeps_budget_witness:
  "\<exists>s1 cs' s'. finalize sample_env [''evals''] (header_digest sample_header) sample_fs = (Inr (), s1)
     \<and> open_in sample_env [''evals''] sample_header s1 = (Inr cs', s')
     \<and> row_of cs' ''i'' = Some (sample_row ''i'' True) \<and> spent (cs_attempts cs') ''i'' = 1"
proof -
  have "last_row (sane sample_log) ''i'' = Some (sample_row ''i'' True)" "failures (sane sample_log) ''i'' = 1"
    "only_failed (Some (sample_row ''i'' True)) = Some (sample_row ''i'' True)"
    by (simp_all add: sample_log_def sample_row_def last_row_def failures_def sanitize_pre_gate_success_def only_failed_def)
  then show ?thesis
    using finalize_keeps_budget [OF sample_laws(2) sample_ready sample_matches] by (metis option.distinct(1))
qed

theorem session_well_formed_witness:
  "\<exists>cs s'. open_in sample_env [''evals''] sample_header sample_fs = (Inr cs, s')
     \<and> session_ok (fst (run_op sample_env (cs, s') (UnfitOp (sample_row ''j'' True))))"
proof -
  obtain cs s' where "open_in sample_env [''evals''] sample_header sample_fs = (Inr cs, s')"
    using reopened [of sample_env sample_header sample_log "[''evals'']" sample_fs "[]"] sample_laws(1) sample_ready
      sample_matches by (auto simp: laws_def matches_def)
  moreover have "\<forall>xs. mset (values_order sample_env xs) = mset xs" by (simp add: sample_env_def)
  ultimately show ?thesis
    using session_well_formed [of sample_env "[''evals'']" sample_header sample_fs cs s' "[UnfitOp (sample_row ''j'' True)]"]
    by auto
qed

end
