(* ===== verification/Eval_Loop.thy ===== *)
theory Eval_Loop
  imports Eval_Checkpoint
begin

text \<open>
  The run of an eval cell over its dataset, \<open>pipette-ops/src/measurement/eval.rs\<close>: which samples are
  sent, the recording of each reading, batches of samples, the pool of workers with the samples it
  loses, and the refusal of an incomplete result.

  The engine is any relation between a group of samples and the runs it may make on it: the calls of
  the \<open>record\<close> callback, each with what becomes of the write, and how the attempt ends given what
  those calls returned. The one law relied on is that an attempt returns an error that a call
  returned (\<open>passes_errors\<close>). The workers of the pool interleave call by call. The
  heartbeat and the log lines only read and are not modelled.
\<close>

section \<open>Definitions\<close>

subsection \<open>The dataset\<close>

datatype ('v, 'c) eval_messages = RawMessages 'v | ChatMessages 'c

record ('v, 'c, 'k) sample =
  sm_id :: string
  sm_messages :: "('v, 'c) eval_messages"
  sm_kwargs :: "'k option"
  sm_position :: string

record ('c, 'k) chat_row =
  chat_id :: string
  chat_messages :: 'c
  chat_kwargs :: "'k option"

datatype ('v, 'c, 'k) eval_rows = RawRows "'v list" | ChatRows "('c, 'k) chat_row list"

datatype eval_error =
  MissingSamples
| MissingId nat
| MissingMessages string
| TypedMessages
| OutOfRange nat nat
| RecordedTwice string
| Unrecorded string
| RowNotWritten checkpoint_error
| AttemptFailed string string
| WorkerPanicked
| Incomplete incomplete
| ChunkFailed nat string
| ChunkEmpty nat nat
| ChunkPastEnd nat nat nat
| StrayId nat string string

definition raw_messages :: "('v, 'c) eval_messages \<Rightarrow> eval_error + 'v" where
  "raw_messages m = (case m of RawMessages v \<Rightarrow> Inr v | ChatMessages _ \<Rightarrow> Inl TypedMessages)"

definition position_of :: "nat \<Rightarrow> nat \<Rightarrow> string \<Rightarrow> string" where
  "position_of number tot i = ''eval sample '' @ decimal number @ ''/'' @ decimal tot @ '': id='' @ i"

fun chat_samples :: "('c, 'k) chat_row list \<Rightarrow> nat \<Rightarrow> nat \<Rightarrow> ('v, 'c, 'k) sample list" where
  "chat_samples [] offset tot = []"
| "chat_samples (r # rs) offset tot =
     \<lparr>sm_id = chat_id r, sm_messages = ChatMessages (chat_messages r), sm_kwargs = chat_kwargs r,
      sm_position = position_of (offset + 1) tot (chat_id r)\<rparr> # chat_samples rs (offset + 1) tot"

fun raw_samples ::
  "'v json_ops \<Rightarrow> 'v list \<Rightarrow> nat \<Rightarrow> nat \<Rightarrow> eval_error + ('v, 'c, 'k) sample list" where
  "raw_samples ops [] number tot = Inr []"
| "raw_samples ops (r # rs) number tot =
     bind_result (ok_or (MissingId number) (Option.bind (json_get ops r ''id'') (json_as_str ops))) (\<lambda>i.
     bind_result (ok_or (MissingMessages i) (json_get ops r ''messages'')) (\<lambda>m.
     bind_result (raw_samples ops rs (number + 1) tot) (\<lambda>rest.
       Inr (\<lparr>sm_id = i, sm_messages = RawMessages m, sm_kwargs = None,
             sm_position = position_of number tot i\<rparr> # rest))))"

definition dataset ::
  "'v json_ops \<Rightarrow> ('v, 'c, 'k) eval_rows option \<Rightarrow> eval_error + ('v, 'c, 'k) sample list" where
  "dataset ops rows =
     bind_result (ok_or MissingSamples rows) (\<lambda>r.
       case r of RawRows vs \<Rightarrow> raw_samples ops vs 1 (length vs)
               | ChatRows cs \<Rightarrow> Inr (chat_samples cs 0 (length cs)))"

text \<open>The filter of \<open>pending\<close>, with the ids it has let through.\<close>

fun unsettled :: "(string \<Rightarrow> bool) \<Rightarrow> string set \<Rightarrow> ('v, 'c, 'k) sample list \<Rightarrow> ('v, 'c, 'k) sample list" where
  "unsettled settled seen [] = []"
| "unsettled settled seen (s # ss) =
     (if \<not> settled (sm_id s) \<and> sm_id s \<notin> seen then s # unsettled settled (insert (sm_id s) seen) ss
      else unsettled settled seen ss)"

definition pending :: "('v, 'c, 'k) sample list \<Rightarrow> session \<Rightarrow> bool \<Rightarrow> ('v, 'c, 'k) sample list" where
  "pending samples cs retry_failed =
     (let retry = (if retry_failed then set (fst (failure_split cs MAX_SAMPLE_ATTEMPTS)) else {})
      in unsettled (\<lambda>i. contains cs i \<and> i \<notin> retry) {} samples)"

subsection \<open>One attempt\<close>

datatype reading =
  Completed string stop_reason "string option" "nat option"
| FailedSample string
| LostSample string
| UnfitSample string

record call =
  call_at :: nat
  call_reading :: reading
  call_io :: append_io

record engine_run =
  run_calls :: "call list"
  run_end :: "(eval_error + unit) list \<Rightarrow> string + unit"

type_synonym cell = "session \<times> fs_state"

record ('v, 'c, 'k) attempt_state =
  at_recorded :: "bool list"
  at_lost :: "('v, 'c, 'k) sample list"

definition failed_row :: "string \<Rightarrow> string \<Rightarrow> row" where
  "failed_row i reason =
     \<lparr>row_id = i, row_text = [], row_failed = True, row_failed_reason = Some reason, row_stop = Failure,
      row_stop_detail = Some reason, row_tokens = None\<rparr>"

definition completed_row :: "string \<Rightarrow> string \<Rightarrow> stop_reason \<Rightarrow> string option \<Rightarrow> nat option \<Rightarrow> row" where
  "completed_row i text why detail tokens =
     \<lparr>row_id = i, row_text = text, row_failed = False, row_failed_reason = None, row_stop = why,
      row_stop_detail = detail, row_tokens = tokens\<rparr>"

definition label :: "('v, 'c, 'k) sample list \<Rightarrow> string" where
  "label grp =
     (case grp of
        [] \<Rightarrow> []
      | [only] \<Rightarrow> sm_position only
      | first # _ \<Rightarrow> ''batch of '' @ decimal (length grp) @ '' from '' @ sm_position first)"

definition append_reading :: "checkpoint_env \<Rightarrow> append_io \<Rightarrow> row \<Rightarrow> cell \<Rightarrow> (eval_error + unit) \<times> cell" where
  "append_reading env io c x =
     (case append_row env io c (fst x) (snd x) of
        (Inl e, cs, s) \<Rightarrow> (Inl (RowNotWritten e), cs, s)
      | (Inr _, cs, s) \<Rightarrow> (Inr (), cs, s))"

text \<open>The closure \<open>record\<close> of \<open>send\<close>.\<close>

definition record_reading ::
  "checkpoint_env \<Rightarrow> bool \<Rightarrow> ('v, 'c, 'k) sample list \<Rightarrow> call \<Rightarrow> ('v, 'c, 'k) attempt_state \<Rightarrow> cell \<Rightarrow>
   (eval_error + unit) \<times> ('v, 'c, 'k) attempt_state \<times> cell" where
  "record_reading env alone grp c st x =
     (let at = call_at c; io = call_io c
      in if length grp \<le> at then (Inl (OutOfRange at (length grp)), st, x)
         else (let sample = grp ! at; i = sm_id sample
               in if at_recorded st ! at then (Inl (RecordedTwice i), st, x)
                  else (let st1 = st\<lparr>at_recorded := (at_recorded st)[at := True]\<rparr>
                        in case call_reading c of
                             LostSample reason \<Rightarrow>
                               if \<not> alone then (Inr (), st1\<lparr>at_lost := at_lost st1 @ [sample]\<rparr>, x)
                               else (let (r, x1) = append_reading env io (failed_row i reason) x in (r, st1, x1))
                           | Completed text why detail tokens \<Rightarrow>
                               (let (r, x1) = append_reading env io (completed_row i text why detail tokens) x
                                in (r, st1, x1))
                           | FailedSample reason \<Rightarrow>
                               (let (r, x1) = append_reading env io (failed_row i reason) x in (r, st1, x1))
                           | UnfitSample reason \<Rightarrow>
                               (Inr (), st1, (record_unfit (failed_row i reason) (fst x), snd x)))))"

fun make_calls ::
  "checkpoint_env \<Rightarrow> bool \<Rightarrow> ('v, 'c, 'k) sample list \<Rightarrow> call list \<Rightarrow> (eval_error + unit) list \<Rightarrow>
   ('v, 'c, 'k) attempt_state \<Rightarrow> cell \<Rightarrow> (eval_error + unit) list \<times> ('v, 'c, 'k) attempt_state \<times> cell" where
  "make_calls env alone grp [] results st x = (results, st, x)"
| "make_calls env alone grp (c # cs) results st x =
     (let (r, st1, x1) = record_reading env alone grp c st x
      in make_calls env alone grp cs (results @ [r]) st1 x1)"

definition fresh_attempt :: "('v, 'c, 'k) sample list \<Rightarrow> ('v, 'c, 'k) attempt_state" where
  "fresh_attempt grp = \<lparr>at_recorded = replicate (length grp) False, at_lost = []\<rparr>"

text \<open>What \<open>send\<close> makes of an attempt that has returned.\<close>

definition attempt_end ::
  "('v, 'c, 'k) sample list \<Rightarrow> engine_run \<Rightarrow> (eval_error + unit) list \<Rightarrow> ('v, 'c, 'k) attempt_state \<Rightarrow>
   eval_error + ('v, 'c, 'k) sample list" where
  "attempt_end grp run results st =
     (case run_end run results of
        Inl e \<Rightarrow> Inl (AttemptFailed (label grp) e)
      | Inr _ \<Rightarrow>
          (case find (\<lambda>(s, recorded). \<not> recorded) (zip grp (at_recorded st)) of
             Some (s, _) \<Rightarrow> Inl (Unrecorded (sm_id s))
           | None \<Rightarrow> Inr (at_lost st)))"

definition send_group ::
  "checkpoint_env \<Rightarrow> ('v, 'c, 'k) sample list \<Rightarrow> bool \<Rightarrow> engine_run \<Rightarrow> cell \<Rightarrow>
   (eval_error + ('v, 'c, 'k) sample list) \<times> cell" where
  "send_group env grp alone run x =
     (let (results, st, x1) = make_calls env alone grp (run_calls run) [] (fresh_attempt grp) x
      in (attempt_end grp run results st, x1))"

subsection \<open>Batches\<close>

text \<open>\<open>slice::chunks\<close>.\<close>

function chunks :: "nat \<Rightarrow> 'a list \<Rightarrow> 'a list list" where
  "chunks n xs = (if n = 0 \<or> xs = [] then [] else take n xs # chunks n (drop n xs))"
  by pat_completeness auto
termination by (relation "measure (\<lambda>(n, xs). length xs)") auto

declare chunks.simps [simp del]

type_synonym ('v, 'c, 'k) engine = "('v, 'c, 'k) sample list \<Rightarrow> engine_run \<Rightarrow> bool"

text \<open>Each lost sample is sent again alone; what comes back is dropped.\<close>

inductive settle ::
  "checkpoint_env \<Rightarrow> ('v, 'c, 'k) engine \<Rightarrow> ('v, 'c, 'k) sample list \<Rightarrow> cell \<Rightarrow> eval_error + unit \<Rightarrow> cell \<Rightarrow> bool"
  for env engine where
  settled: "settle env engine [] x (Inr ()) x"
| settle_err: "engine [s] run \<Longrightarrow> send_group env [s] True run x = (Inl e, x1) \<Longrightarrow> settle env engine (s # ss) x (Inl e) x1"
| settle_ok: "engine [s] run \<Longrightarrow> send_group env [s] True run x = (Inr dropped, x1) \<Longrightarrow> settle env engine ss x1 r x2
    \<Longrightarrow> settle env engine (s # ss) x r x2"

inductive batches ::
  "checkpoint_env \<Rightarrow> ('v, 'c, 'k) engine \<Rightarrow> ('v, 'c, 'k) sample list list \<Rightarrow> cell \<Rightarrow> eval_error + unit \<Rightarrow> cell \<Rightarrow> bool"
  for env engine where
  batches_done: "batches env engine [] x (Inr ()) x"
| batch_err: "engine g run \<Longrightarrow> send_group env g (length g = 1) run x = (Inl e, x1) \<Longrightarrow> batches env engine (g # gs) x (Inl e) x1"
| batch_lost: "engine g run \<Longrightarrow> send_group env g (length g = 1) run x = (Inr lost, x1) \<Longrightarrow> settle env engine lost x1 (Inl e) x2
    \<Longrightarrow> batches env engine (g # gs) x (Inl e) x2"
| batch_ok: "engine g run \<Longrightarrow> send_group env g (length g = 1) run x = (Inr lost, x1) \<Longrightarrow> settle env engine lost x1 (Inr ()) x2
    \<Longrightarrow> batches env engine gs x2 r x3 \<Longrightarrow> batches env engine (g # gs) x r x3"

subsection \<open>The pool\<close>

text \<open>A flight is an attempt a worker is inside of: its sample, the calls it has still to make, what
  the calls made returned, and the state of its \<open>send\<close>. \<open>ps_workers\<close> counts the worker threads
  that have not panicked.\<close>

record ('v, 'c, 'k) flight =
  fl_sample :: "('v, 'c, 'k) sample"
  fl_run :: engine_run
  fl_calls :: "call list"
  fl_results :: "(eval_error + unit) list"
  fl_state :: "('v, 'c, 'k) attempt_state"

record ('v, 'c, 'k) pool_state =
  ps_claimed :: nat
  ps_stopped :: bool
  ps_lost :: "('v, 'c, 'k) sample list"
  ps_flights :: "('v, 'c, 'k) flight list"
  ps_errors :: "eval_error list"
  ps_workers :: nat
  ps_cell :: cell

definition pool_start :: "nat \<Rightarrow> cell \<Rightarrow> ('v, 'c, 'k) pool_state" where
  "pool_start workers x =
     \<lparr>ps_claimed = 0, ps_stopped = False, ps_lost = [], ps_flights = [], ps_errors = [], ps_workers = workers,
      ps_cell = x\<rparr>"

definition take_off :: "('v, 'c, 'k) sample \<Rightarrow> engine_run \<Rightarrow> ('v, 'c, 'k) flight" where
  "take_off s run =
     \<lparr>fl_sample = s, fl_run = run, fl_calls = run_calls run, fl_results = [], fl_state = fresh_attempt [s]\<rparr>"

definition flight_end :: "('v, 'c, 'k) flight \<Rightarrow> eval_error + ('v, 'c, 'k) sample list" where
  "flight_end f = attempt_end [fl_sample f] (fl_run f) (fl_results f) (fl_state f)"

inductive pool_step ::
  "checkpoint_env \<Rightarrow> ('v, 'c, 'k) engine \<Rightarrow> bool \<Rightarrow> ('v, 'c, 'k) sample list \<Rightarrow>
   ('v, 'c, 'k) pool_state \<Rightarrow> ('v, 'c, 'k) pool_state \<Rightarrow> bool"
  for env engine alone rest where
  claim: "\<not> ps_stopped p \<Longrightarrow> ps_claimed p < length rest \<Longrightarrow> length (ps_flights p) < ps_workers p
    \<Longrightarrow> engine [rest ! ps_claimed p] run
    \<Longrightarrow> pool_step env engine alone rest p
          (p\<lparr>ps_claimed := ps_claimed p + 1, ps_flights := ps_flights p @ [take_off (rest ! ps_claimed p) run]\<rparr>)"
| call: "ps_flights p = fs @ f # gs \<Longrightarrow> fl_calls f = c # cs
    \<Longrightarrow> record_reading env alone [fl_sample f] c (fl_state f) (ps_cell p) = (r, st, x)
    \<Longrightarrow> pool_step env engine alone rest p
          (p\<lparr>ps_flights := fs @ f\<lparr>fl_calls := cs, fl_results := fl_results f @ [r], fl_state := st\<rparr> # gs, ps_cell := x\<rparr>)"
| failed: "ps_flights p = fs @ f # gs \<Longrightarrow> fl_calls f = [] \<Longrightarrow> flight_end f = Inl e
    \<Longrightarrow> pool_step env engine alone rest p
          (p\<lparr>ps_stopped := True, ps_flights := fs @ gs, ps_errors := ps_errors p @ [e]\<rparr>)"
| landed: "ps_flights p = fs @ f # gs \<Longrightarrow> fl_calls f = [] \<Longrightarrow> flight_end f = Inr dropped
    \<Longrightarrow> pool_step env engine alone rest p
          (p\<lparr>ps_stopped := (ps_stopped p \<or> dropped \<noteq> []), ps_lost := ps_lost p @ dropped, ps_flights := fs @ gs\<rparr>)"
| panicked: "\<not> alone \<Longrightarrow> ps_flights p = fs @ f # gs
    \<Longrightarrow> pool_step env engine alone rest p
          (p\<lparr>ps_flights := fs @ gs, ps_errors := ps_errors p @ [WorkerPanicked], ps_workers := ps_workers p - 1\<rparr>)"

text \<open>Every worker has returned: it found nothing to claim, or it is gone.\<close>

definition round_over :: "('v, 'c, 'k) sample list \<Rightarrow> ('v, 'c, 'k) pool_state \<Rightarrow> bool" where
  "round_over rest p \<longleftrightarrow>
     ps_flights p = [] \<and> (ps_stopped p \<or> ps_claimed p = length rest \<or> ps_workers p = 0)"

definition pool_round ::
  "checkpoint_env \<Rightarrow> ('v, 'c, 'k) engine \<Rightarrow> nat \<Rightarrow> ('v, 'c, 'k) sample list \<Rightarrow> cell \<Rightarrow> ('v, 'c, 'k) pool_state \<Rightarrow> bool"
where
  "pool_round env engine workers rest x p \<longleftrightarrow>
     (let n = min workers (length rest)
      in (pool_step env engine (n = 1) rest)\<^sup>*\<^sup>* (pool_start n x) p \<and> round_over rest p)"

inductive pool ::
  "checkpoint_env \<Rightarrow> ('v, 'c, 'k) engine \<Rightarrow> nat \<Rightarrow> ('v, 'c, 'k) sample list \<Rightarrow> cell \<Rightarrow> eval_error + unit \<Rightarrow> cell \<Rightarrow> bool"
  for env engine workers where
  pool_done: "pool env engine workers [] x (Inr ()) x"
| pool_err: "rest \<noteq> [] \<Longrightarrow> pool_round env engine workers rest x p \<Longrightarrow> e \<in> set (ps_errors p)
    \<Longrightarrow> pool env engine workers rest x (Inl e) (ps_cell p)"
| pool_lost: "rest \<noteq> [] \<Longrightarrow> pool_round env engine workers rest x p \<Longrightarrow> ps_errors p = []
    \<Longrightarrow> settle env engine (ps_lost p) (ps_cell p) (Inl e) x1 \<Longrightarrow> pool env engine workers rest x (Inl e) x1"
| pool_next: "rest \<noteq> [] \<Longrightarrow> pool_round env engine workers rest x p \<Longrightarrow> ps_errors p = []
    \<Longrightarrow> settle env engine (ps_lost p) (ps_cell p) (Inr ()) x1
    \<Longrightarrow> pool env engine workers (drop (ps_claimed p) rest) x1 r x2 \<Longrightarrow> pool env engine workers rest x r x2"

subsection \<open>The cell\<close>

datatype in_flight_mode = Batch nat | Parallel nat

definition run_samples ::
  "checkpoint_env \<Rightarrow> ('v, 'c, 'k) engine \<Rightarrow> in_flight_mode \<Rightarrow> ('v, 'c, 'k) sample list \<Rightarrow> cell \<Rightarrow> eval_error + unit \<Rightarrow> cell \<Rightarrow> bool"
where
  "run_samples env engine mode todo x r x1 \<longleftrightarrow>
     (case mode of Batch n \<Rightarrow> batches env engine (chunks n todo) x r x1
                 | Parallel workers \<Rightarrow> pool env engine workers todo x r x1)"

definition distinct_ids :: "('v, 'c, 'k) sample list \<Rightarrow> nat" where
  "distinct_ids samples = card (set (map sm_id samples))"

inductive run_cell ::
  "checkpoint_env \<Rightarrow> 'v json_ops \<Rightarrow> ('v, 'c, 'k) engine \<Rightarrow> in_flight_mode \<Rightarrow> bool \<Rightarrow> ('v, 'c, 'k) eval_rows option \<Rightarrow> cell \<Rightarrow>
   eval_error + nat \<Rightarrow> cell \<Rightarrow> bool"
  for env ops engine mode retry rows x where
  no_dataset: "dataset ops rows = Inl e \<Longrightarrow> run_cell env ops engine mode retry rows x (Inl e) x"
| cell_err: "dataset ops rows = Inr samples \<Longrightarrow> run_samples env engine mode (pending samples (fst x) retry) x (Inl e) x1
    \<Longrightarrow> run_cell env ops engine mode retry rows x (Inl e) x1"
| cell_ok: "dataset ops rows = Inr samples \<Longrightarrow> run_samples env engine mode (pending samples (fst x) retry) x (Inr ()) x1
    \<Longrightarrow> run_cell env ops engine mode retry rows x (Inr (distinct_ids samples)) x1"

definition eval ::
  "checkpoint_env \<Rightarrow> 'v json_ops \<Rightarrow> ('v, 'c, 'k) engine \<Rightarrow> in_flight_mode \<Rightarrow> ('v, 'c, 'k) eval_rows option \<Rightarrow> cell \<Rightarrow>
   eval_error + row list \<Rightarrow> cell \<Rightarrow> bool" where
  "eval env ops engine mode rows x r x1 \<longleftrightarrow>
     (\<exists>n. run_cell env ops engine mode False rows x n x1
        \<and> r = (case n of Inl e \<Rightarrow> Inl e | Inr _ \<Rightarrow> Inr (cs_rows (fst x1))))"

definition eval_complete ::
  "checkpoint_env \<Rightarrow> string option \<Rightarrow> 'v json_ops \<Rightarrow> ('v, 'c, 'k) engine \<Rightarrow> in_flight_mode \<Rightarrow> ('v, 'c, 'k) eval_rows option \<Rightarrow>
   cell \<Rightarrow> eval_error + row list \<Rightarrow> cell \<Rightarrow> bool" where
  "eval_complete env var ops engine mode rows x r x1 \<longleftrightarrow>
     (\<exists>n. run_cell env ops engine mode True rows x n x1
        \<and> r = (case n of
                 Inl e \<Rightarrow> Inl e
               | Inr served \<Rightarrow> (case ensure_complete var (fst x1) served of
                                  Inl e \<Rightarrow> Inl (Incomplete e) | Inr _ \<Rightarrow> Inr (cs_rows (fst x1)))))"

subsection \<open>A dataset read in chunks\<close>

definition chunked_pending :: "session \<Rightarrow> nat \<Rightarrow> (nat \<Rightarrow> string) \<Rightarrow> (nat \<times> string) list" where
  "chunked_pending cs declared id_at =
     (let retriable = set (fst (failure_split cs MAX_SAMPLE_ATTEMPTS))
      in filter (\<lambda>(_, i). \<not> contains cs i \<or> i \<in> retriable) (map (\<lambda>p. (p, id_at p)) [0..<declared]))"

definition check_chunk ::
  "nat \<Rightarrow> (nat \<Rightarrow> string) \<Rightarrow> nat \<Rightarrow> ('c, 'k) chat_row list \<Rightarrow> eval_error + unit" where
  "check_chunk declared id_at offset rows =
     (let stop = offset + length rows
      in if rows = [] then Inl (ChunkEmpty offset declared)
         else if declared < stop then Inl (ChunkPastEnd offset stop declared)
         else (case find (\<lambda>(p, r). chat_id r \<noteq> id_at p) (zip [offset..<stop] rows) of
                 Some (p, r) \<Rightarrow> Inl (StrayId p (chat_id r) (id_at p))
               | None \<Rightarrow> Inr ()))"

text \<open>The loop over the cursor: \<open>todo\<close> is what the cursor has left. \<open>fetch\<close> is any answer of the
  chunk source at an offset.\<close>

inductive chunked_loop ::
  "checkpoint_env \<Rightarrow> ('v, 'c, 'k) engine \<Rightarrow> in_flight_mode \<Rightarrow> nat \<Rightarrow> (nat \<Rightarrow> string) \<Rightarrow>
   (nat \<Rightarrow> string + ('c, 'k) chat_row list \<Rightarrow> bool) \<Rightarrow> string set \<Rightarrow> (nat \<times> string) list \<Rightarrow> cell \<Rightarrow> eval_error + unit \<Rightarrow> cell \<Rightarrow> bool"
  for env engine mode declared id_at fetch todo_ids where
  chunks_done: "chunked_loop env engine mode declared id_at fetch todo_ids [] x (Inr ()) x"
| chunk_err: "fetch offset (Inl e)
    \<Longrightarrow> chunked_loop env engine mode declared id_at fetch todo_ids ((offset, i) # todo) x (Inl (ChunkFailed offset e)) x"
| chunk_bad: "fetch offset (Inr rows) \<Longrightarrow> check_chunk declared id_at offset rows = Inl e
    \<Longrightarrow> chunked_loop env engine mode declared id_at fetch todo_ids ((offset, i) # todo) x (Inl e) x"
| chunk_run_err: "fetch offset (Inr rows) \<Longrightarrow> check_chunk declared id_at offset rows = Inr ()
    \<Longrightarrow> todo' = filter (\<lambda>s. sm_id s \<in> todo_ids) (chat_samples rows offset declared)
    \<Longrightarrow> todo' \<noteq> [] \<Longrightarrow> run_samples env engine mode todo' x (Inl e) x1
    \<Longrightarrow> chunked_loop env engine mode declared id_at fetch todo_ids ((offset, i) # todo) x (Inl e) x1"
| chunk_ok: "fetch offset (Inr rows) \<Longrightarrow> check_chunk declared id_at offset rows = Inr ()
    \<Longrightarrow> todo' = filter (\<lambda>s. sm_id s \<in> todo_ids) (chat_samples rows offset declared)
    \<Longrightarrow> (if todo' = [] then x1 = x else run_samples env engine mode todo' x (Inr ()) x1)
    \<Longrightarrow> chunked_loop env engine mode declared id_at fetch todo_ids
          (dropWhile (\<lambda>(p, _). p < offset + length rows) ((offset, i) # todo)) x1 r x2
    \<Longrightarrow> chunked_loop env engine mode declared id_at fetch todo_ids ((offset, i) # todo) x r x2"

definition eval_complete_chunked ::
  "checkpoint_env \<Rightarrow> string option \<Rightarrow> ('v, 'c, 'k) engine \<Rightarrow> in_flight_mode \<Rightarrow> nat \<Rightarrow> (nat \<Rightarrow> string) \<Rightarrow>
   (nat \<Rightarrow> string + ('c, 'k) chat_row list \<Rightarrow> bool) \<Rightarrow> cell \<Rightarrow> eval_error + row list \<Rightarrow> cell \<Rightarrow> bool" where
  "eval_complete_chunked env var engine mode declared id_at fetch x r x1 \<longleftrightarrow>
     (\<exists>n todo. todo = chunked_pending (fst x) declared id_at
        \<and> chunked_loop env engine mode declared id_at fetch (set (map snd todo)) todo x n x1
        \<and> r = (case n of
                 Inl e \<Rightarrow> Inl e
               | Inr _ \<Rightarrow> (case ensure_every_answer var (fst x1) declared of
                             Inl e \<Rightarrow> Inl (Incomplete e) | Inr _ \<Rightarrow> Inr (cs_rows (fst x1)))))"

section \<open>What one attempt does to the checkpoint\<close>

definition passes_errors :: "engine_run \<Rightarrow> bool" where
  "passes_errors run \<longleftrightarrow> (\<forall>rs. (\<exists>e. Inl e \<in> set rs) \<longrightarrow> (\<exists>e. run_end run rs = Inl e))"

text \<open>\<open>written cs0 D cs\<close>: since the run started at \<open>cs0\<close>, exactly the samples of \<open>D\<close> were given a row,
  and each at most one attempt.\<close>

definition written :: "session \<Rightarrow> string set \<Rightarrow> session \<Rightarrow> bool" where
  "written cs0 D cs \<longleftrightarrow>
     session_ok cs
     \<and> (\<forall>i. i \<notin> D \<longrightarrow> row_of cs i = row_of cs0 i \<and> spent (cs_attempts cs) i = spent (cs_attempts cs0) i)
     \<and> (\<forall>i\<in>D. row_of cs i \<noteq> None \<and> spent (cs_attempts cs) i \<le> spent (cs_attempts cs0) i + 1)"

lemma written_start: "session_ok cs \<Longrightarrow> written cs {} cs"
  by (simp add: written_def)

lemma written_remember:
  "written cs0 D cs \<Longrightarrow> row_id c \<notin> D \<Longrightarrow> written cs0 (insert (row_id c) D) (remember c cs)"
  by (auto simp: written_def session_ok_remember row_of_remember spent_remember)

lemma spent_unfit: "spent (cs_attempts (record_unfit c cs)) i = spent (cs_attempts cs) i"
  by (simp add: Let_def record_unfit_def split: prod.splits)

lemma written_unfit:
  "written cs0 D cs \<Longrightarrow> row_id c \<notin> D \<Longrightarrow> written cs0 (insert (row_id c) D) (record_unfit c cs)"
  by (auto simp: written_def session_ok_unfit row_of_unfit spent_unfit)

lemma append_reading_written:
  assumes "append_reading env io c x = (r, x1)" "written cs0 D (fst x)" "row_id c \<notin> D"
  shows "(r = Inr () \<and> written cs0 (insert (row_id c) D) (fst x1)) \<or> ((\<exists>e. r = Inl e) \<and> written cs0 D (fst x1))"
  using assms written_remember [OF assms(2,3)]
  by (auto simp: append_reading_def append_row_def split: sum.splits prod.splits)

text \<open>\<open>attempting D grp st rs\<close>: of the group, a recorded sample has its row or was lost, unless a call
  returned an error; a sample that is not recorded, or lost, has no row of this run.\<close>

definition attempting ::
  "string set \<Rightarrow> ('v, 'c, 'k) sample list \<Rightarrow> ('v, 'c, 'k) attempt_state \<Rightarrow> (eval_error + unit) list \<Rightarrow> bool" where
  "attempting D grp st rs \<longleftrightarrow>
     length (at_recorded st) = length grp \<and> distinct (map sm_id (at_lost st)) \<and> set (at_lost st) \<subseteq> set grp
     \<and> (\<forall>s\<in>set (at_lost st). sm_id s \<notin> D)
     \<and> (\<forall>k<length grp. \<not> at_recorded st ! k \<longrightarrow> sm_id (grp ! k) \<notin> D \<and> grp ! k \<notin> set (at_lost st))
     \<and> ((\<forall>e. Inl e \<notin> set rs) \<longrightarrow>
        (\<forall>k<length grp. at_recorded st ! k \<longrightarrow> sm_id (grp ! k) \<in> D \<or> grp ! k \<in> set (at_lost st)))"

lemma attempting_start: "\<forall>s\<in>set grp. sm_id s \<notin> D \<Longrightarrow> attempting D grp (fresh_attempt grp) []"
  by (simp add: attempting_def fresh_attempt_def)

lemma attempting_error: "attempting D grp st rs \<Longrightarrow> attempting D grp st (rs @ [Inl e])"
  by (auto simp: attempting_def)

lemma same_sample: "distinct (map sm_id grp) \<Longrightarrow> s \<in> set grp \<Longrightarrow> t \<in> set grp \<Longrightarrow> sm_id s = sm_id t \<Longrightarrow> s = t"
  by (auto simp: distinct_map inj_on_def)

lemma other_sample:
  assumes "distinct (map sm_id grp)" "k < length grp" "j < length grp" "j \<noteq> k"
  shows "sm_id (grp ! j) \<noteq> sm_id (grp ! k)"
  using assms nth_eq_iff_index_eq [of "map sm_id grp" j k] by simp

lemma lost_other:
  assumes "distinct (map sm_id grp)" "attempting D grp st rs" "k < length grp" "\<not> at_recorded st ! k" "s \<in> set (at_lost st)"
  shows "sm_id s \<noteq> sm_id (grp ! k)"
  using assms same_sample [OF assms(1), of s "grp ! k"] by (auto simp: attempting_def subset_iff)

lemma attempting_mark_lost:
  assumes "distinct (map sm_id grp)" "attempting D grp st rs" "k < length grp" "\<not> at_recorded st ! k"
  shows "attempting D grp (st\<lparr>at_recorded := (at_recorded st)[k := True], at_lost := at_lost st @ [grp ! k]\<rparr>) (rs @ [r])"
proof -
  have "sm_id (grp ! k) \<notin> sm_id ` set (at_lost st)" using lost_other [OF assms] by force
  moreover have "grp ! j \<noteq> grp ! k" if "j < length grp" "j \<noteq> k" for j using other_sample [OF assms(1,3) that] by metis
  ultimately show ?thesis using assms(2-4) by (simp add: attempting_def nth_list_update)
qed

lemma attempting_mark_done:
  assumes "distinct (map sm_id grp)" "attempting D grp st rs" "k < length grp" "\<not> at_recorded st ! k"
  shows "attempting (insert (sm_id (grp ! k)) D) grp (st\<lparr>at_recorded := (at_recorded st)[k := True]\<rparr>) (rs @ [r])"
  using assms(2-4) other_sample [OF assms(1,3)] lost_other [OF assms] by (auto simp: attempting_def nth_list_update)

lemma attempting_mark_error:
  assumes "attempting D grp st rs" "k < length grp"
  shows "attempting D grp (st\<lparr>at_recorded := (at_recorded st)[k := True]\<rparr>) (rs @ [Inl e])"
  using assms by (auto simp: attempting_def nth_list_update)

lemma record_reading_cases:
  assumes "record_reading env alone grp c st x = (r, st1, x1)"
  obtains (refused) e where "r = Inl e" "st1 = st" "x1 = x"
  | (lost) "\<not> alone" "call_at c < length grp" "\<not> at_recorded st ! call_at c" "r = Inr ()" "x1 = x"
      "st1 = st\<lparr>at_recorded := (at_recorded st)[call_at c := True], at_lost := at_lost st @ [grp ! call_at c]\<rparr>"
  | (row) io row where "call_at c < length grp" "\<not> at_recorded st ! call_at c" "row_id row = sm_id (grp ! call_at c)"
      "append_reading env io row x = (r, x1)" "st1 = st\<lparr>at_recorded := (at_recorded st)[call_at c := True]\<rparr>"
  | (unfit) row where "call_at c < length grp" "\<not> at_recorded st ! call_at c" "row_id row = sm_id (grp ! call_at c)"
      "r = Inr ()" "x1 = (record_unfit row (fst x), snd x)" "st1 = st\<lparr>at_recorded := (at_recorded st)[call_at c := True]\<rparr>"
proof -
  let ?i = "sm_id (grp ! call_at c)"
  have id: "row_id (failed_row ?i reason) = ?i" for reason by (simp add: failed_row_def)
  have id': "row_id (completed_row ?i words why detail tokens) = ?i" for words why detail tokens
    by (simp add: completed_row_def)
  consider "length grp \<le> call_at c" | "call_at c < length grp" "at_recorded st ! call_at c"
    | "call_at c < length grp" "\<not> at_recorded st ! call_at c"
    by linarith
  then show thesis
  proof cases
    case 3
    show thesis
    proof (cases "call_reading c")
      case (Completed words why detail tokens)
      then show thesis using row [OF 3 id'] assms 3 by (auto simp: record_reading_def Let_def split: prod.splits)
    next
      case (FailedSample reason)
      then show thesis using row [OF 3 id] assms 3 by (auto simp: record_reading_def Let_def split: prod.splits)
    next
      case (LostSample reason)
      then show thesis using lost [OF _ 3] row [OF 3 id] assms 3
        by (auto simp: record_reading_def Let_def split: prod.splits if_splits)
    next
      case (UnfitSample reason)
      then show thesis using unfit [OF 3 id] assms 3 by (auto simp: record_reading_def Let_def)
    qed
  qed (use refused assms in \<open>auto simp: record_reading_def Let_def\<close>)
qed

lemma record_step:
  assumes "record_reading env alone grp c st x = (r, st1, x1)" "distinct (map sm_id grp)" "attempting D grp st rs"
    and "written cs0 D (fst x)"
  obtains D' where "D \<subseteq> D'" "D' \<subseteq> D \<union> sm_id ` set grp" "written cs0 D' (fst x1)" "attempting D' grp st1 (rs @ [r])"
    "alone \<Longrightarrow> at_lost st1 = at_lost st"
  using assms(1)
proof (cases rule: record_reading_cases)
  case (refused e)
  then show thesis using that [of D] assms(4) attempting_error [OF assms(3)] by auto
next
  case lost
  then show thesis using that [of D] assms(4) attempting_mark_lost [OF assms(2,3)] by auto
next
  case (row io c')
  have new: "row_id c' \<notin> D" using row assms(3) by (auto simp: attempting_def)
  have "row_id c' \<in> sm_id ` set grp" using row by auto
  then show thesis
    using append_reading_written [OF row(4) assms(4) new]
      that [of "insert (row_id c') D"] that [of D] attempting_mark_done [OF assms(2,3) row(1,2), of r]
      attempting_mark_error [OF assms(3) row(1)] row(3,5) by auto
next
  case (unfit c')
  have new: "row_id c' \<notin> D" using unfit assms(3) by (auto simp: attempting_def)
  have "row_id c' \<in> sm_id ` set grp" using unfit by auto
  then show thesis
    using that [of "insert (row_id c') D"] written_unfit [OF assms(4) new]
      attempting_mark_done [OF assms(2,3) unfit(1,2), of r] unfit by auto
qed

lemma make_calls_written:
  assumes "make_calls env alone grp calls rs st x = (rs', st', x')" "distinct (map sm_id grp)" "attempting D grp st rs"
    and "written cs0 D (fst x)"
  shows "\<exists>D'. D \<subseteq> D' \<and> D' \<subseteq> D \<union> sm_id ` set grp \<and> written cs0 D' (fst x') \<and> attempting D' grp st' rs'
    \<and> (alone \<longrightarrow> at_lost st' = at_lost st)"
  using assms
proof (induction calls arbitrary: rs st x D)
  case (Cons c calls)
  obtain r st1 x1 where rec: "record_reading env alone grp c st x = (r, st1, x1)" by (rule prod_cases3)
  obtain D1 where D1: "D \<subseteq> D1" "D1 \<subseteq> D \<union> sm_id ` set grp" "written cs0 D1 (fst x1)" "attempting D1 grp st1 (rs @ [r])"
    "alone \<Longrightarrow> at_lost st1 = at_lost st"
    by (rule record_step [OF rec Cons.prems(2-4)]) blast
  have "make_calls env alone grp calls (rs @ [r]) st1 x1 = (rs', st', x')" using Cons.prems(1) rec by simp
  from Cons.IH [OF this Cons.prems(2) D1(4,3)]
  obtain D' where "D1 \<subseteq> D'" "D' \<subseteq> D1 \<union> sm_id ` set grp" "written cs0 D' (fst x')" "attempting D' grp st' rs'"
    "alone \<longrightarrow> at_lost st' = at_lost st1"
    by blast
  then show ?case using D1(1,2,5) by (intro exI [of _ D']) auto
qed auto

lemma attempt_end_covers:
  assumes "attempt_end grp run rs st = Inr lost" "attempting D grp st rs" "passes_errors run"
  shows "lost = at_lost st" "s \<in> set grp \<Longrightarrow> sm_id s \<in> D \<or> s \<in> set lost"
proof -
  have ok: "run_end run rs = Inr ()" "find (\<lambda>(s, recorded). \<not> recorded) (zip grp (at_recorded st)) = None" "lost = at_lost st"
    using assms(1) by (auto simp: attempt_end_def split: sum.splits option.splits)
  then show "lost = at_lost st" by simp
  have "\<forall>e. Inl e \<notin> set rs" using ok(1) assms(3) by (auto simp: passes_errors_def)
  moreover have "at_recorded st ! k" if "k < length grp" for k
  proof -
    have "(grp ! k, at_recorded st ! k) \<in> set (zip grp (at_recorded st))"
      using that assms(2) by (auto simp: attempting_def set_zip)
    then show ?thesis using ok(2) by (auto simp: find_None_iff)
  qed
  ultimately show "s \<in> set grp \<Longrightarrow> sm_id s \<in> D \<or> s \<in> set lost"
    using assms(2) ok(3) by (auto simp: attempting_def in_set_conv_nth)
qed

text \<open>\<open>lands cs0 D I r cs\<close>: a run over the samples \<open>I\<close> gave each of them a row, or it failed and gave
  rows to some of them.\<close>

definition lands :: "session \<Rightarrow> string set \<Rightarrow> string set \<Rightarrow> eval_error + 'a \<Rightarrow> session \<Rightarrow> bool" where
  "lands cs0 D I r cs \<longleftrightarrow>
     (case r of Inr _ \<Rightarrow> written cs0 (D \<union> I) cs
              | Inl _ \<Rightarrow> (\<exists>D'. D \<subseteq> D' \<and> D' \<subseteq> D \<union> I \<and> written cs0 D' cs))"

lemma lands_error: "lands cs0 D I (Inl e) cs \<Longrightarrow> D0 \<subseteq> D \<Longrightarrow> D \<union> I \<subseteq> D0 \<union> J \<Longrightarrow> lands cs0 D0 J (Inl e') cs"
proof -
  assume "lands cs0 D I (Inl e) cs" and sub: "D0 \<subseteq> D" "D \<union> I \<subseteq> D0 \<union> J"
  then obtain D' where "D \<subseteq> D'" "D' \<subseteq> D \<union> I" "written cs0 D' cs" by (auto simp: lands_def)
  then have "D0 \<subseteq> D'" "D' \<subseteq> D0 \<union> J" "written cs0 D' cs" using sub by auto
  then show ?thesis by (auto simp: lands_def)
qed

lemma send_lands:
  assumes "send_group env grp alone run x = (r, x1)" "distinct (map sm_id grp)" "sm_id ` set grp \<inter> D = {}"
    and "written cs0 D (fst x)" "passes_errors run"
  shows "case r of
     Inl e \<Rightarrow> lands cs0 D (sm_id ` set grp) r (fst x1)
   | Inr lost \<Rightarrow> lands cs0 D (sm_id ` set grp - sm_id ` set lost) r (fst x1) \<and> distinct (map sm_id lost)
       \<and> set lost \<subseteq> set grp \<and> (alone \<longrightarrow> lost = [])"
proof -
  obtain rs st x' where mk: "make_calls env alone grp (run_calls run) [] (fresh_attempt grp) x = (rs, st, x')"
    by (rule prod_cases3)
  have "attempting D grp (fresh_attempt grp) []" using assms(3) by (intro attempting_start) auto
  from make_calls_written [OF mk assms(2) this assms(4)]
  obtain D' where D': "D \<subseteq> D'" "D' \<subseteq> D \<union> sm_id ` set grp" "written cs0 D' (fst x')" "attempting D' grp st rs"
    "alone \<longrightarrow> at_lost st = []"
    by (auto simp: fresh_attempt_def)
  have r: "r = attempt_end grp run rs st" "x1 = x'" using assms(1) mk by (auto simp: send_group_def)
  show ?thesis
  proof (cases r)
    case (Inl e)
    then show ?thesis using D' r by (auto simp: lands_def)
  next
    case (Inr lost)
    have "attempt_end grp run rs st = Inr lost" using Inr r by simp
    note cover = attempt_end_covers [OF this D'(4) assms(5)]
    have "sm_id s \<in> D'" if "s \<in> set grp" "sm_id s \<notin> sm_id ` set lost" for s using cover(2) [OF that(1)] that(2) by auto
    moreover have "sm_id s \<notin> D'" if "s \<in> set lost" for s using that cover(1) D'(4) by (auto simp: attempting_def)
    ultimately have "D' = D \<union> (sm_id ` set grp - sm_id ` set lost)"
      using D'(1,2) by auto
    then show ?thesis using Inr D' cover(1) r by (auto simp: lands_def attempting_def)
  qed
qed

section \<open>Settling and batches\<close>

definition passes_all :: "('v, 'c, 'k) engine \<Rightarrow> bool" where
  "passes_all engine \<longleftrightarrow> (\<forall>g run. engine g run \<longrightarrow> passes_errors run)"

lemma lands_then:
  assumes "lands cs0 (D \<union> I) J r cs"
  shows "lands cs0 D (I \<union> J) r cs"
  using assms by (cases r) (auto simp: lands_def Un_assoc)

lemma send_alone_lands:
  assumes "send_group env [s] True run x = (Inr dropped, x1)" "sm_id s \<notin> D" "written cs0 D (fst x)" "passes_errors run"
  shows "written cs0 (D \<union> {sm_id s}) (fst x1)"
  using send_lands [OF assms(1) _ _ assms(3,4)] assms(2) by (auto simp: lands_def)

lemma send_err_lands:
  assumes "send_group env grp alone run x = (Inl e, x1)" "distinct (map sm_id grp)" "sm_id ` set grp \<inter> D = {}"
    and "written cs0 D (fst x)" "passes_errors run" "sm_id ` set grp \<subseteq> J"
  shows "lands cs0 D J (Inl e) (fst x1)"
  by (rule lands_error [OF send_lands [OF assms(1-5), simplified]]) (use assms(6) in auto)

lemma settle_lands:
  assumes "settle env engine ss x r x1" "passes_all engine" "distinct (map sm_id ss)" "sm_id ` set ss \<inter> D = {}"
    and "written cs0 D (fst x)"
  shows "lands cs0 D (sm_id ` set ss) r (fst x1)"
  using assms
proof (induction arbitrary: D rule: settle.induct)
  case (settle_err s run x e x1 ss)
  show ?case by (rule send_err_lands [OF settle_err.hyps(2)]) (use settle_err in \<open>auto simp: passes_all_def\<close>)
next
  case (settle_ok s run x dropped x1 ss r x2)
  have "written cs0 (D \<union> {sm_id s}) (fst x1)"
    using send_alone_lands [OF settle_ok.hyps(2)] settle_ok.prems settle_ok.hyps(1) by (simp add: passes_all_def)
  with settle_ok.IH [of "D \<union> {sm_id s}"] settle_ok.prems
  have "lands cs0 (D \<union> {sm_id s}) (sm_id ` set ss) r (fst x2)" by auto
  then show ?case using lands_then by fastforce
qed (simp add: lands_def)

text \<open>An attempt and the settling of what it lost, together.\<close>

lemma send_settle_lands:
  assumes "send_group env g alone run x = (Inr lost, x1)" "settle env engine lost x1 r x2" "passes_errors run" "passes_all engine"
    and "distinct (map sm_id g)" "sm_id ` set g \<inter> D = {}" "written cs0 D (fst x)"
  shows "lands cs0 D (sm_id ` set g) r (fst x2)"
proof -
  let ?I = "sm_id ` set g - sm_id ` set lost"
  have sent: "written cs0 (D \<union> ?I) (fst x1)" "distinct (map sm_id lost)" "set lost \<subseteq> set g"
    using send_lands [OF assms(1,5,6,7,3)] by (auto simp: lands_def)
  have apart: "sm_id ` set lost \<inter> (D \<union> ?I) = {}" using assms(6) sent(3) by auto
  have "lands cs0 (D \<union> ?I) (sm_id ` set lost) r (fst x2)"
    by (rule settle_lands [OF assms(2,4) sent(2) apart sent(1)])
  then have "lands cs0 D (?I \<union> sm_id ` set lost) r (fst x2)" by (rule lands_then)
  moreover have "?I \<union> sm_id ` set lost = sm_id ` set g" using sent(3) by auto
  ultimately show ?thesis by simp
qed

lemma batches_lands:
  assumes "batches env engine gs x r x1" "passes_all engine" "distinct (map sm_id (concat gs))"
    and "sm_id ` set (concat gs) \<inter> D = {}" "written cs0 D (fst x)"
  shows "lands cs0 D (sm_id ` set (concat gs)) r (fst x1)"
  using assms
proof (induction arbitrary: D rule: batches.induct)
  case (batch_err g run x e x1 gs)
  show ?case by (rule send_err_lands [OF batch_err.hyps(2)]) (use batch_err in \<open>auto simp: passes_all_def\<close>)
next
  case (batch_lost g run x lost x1 e x2 gs)
  have "sm_id ` set g \<inter> D = {}" using batch_lost.prems(3) by auto
  then have "lands cs0 D (sm_id ` set g) (Inl e :: eval_error + unit) (fst x2)"
    using send_settle_lands [OF batch_lost.hyps(2,3), of D cs0] batch_lost.prems batch_lost.hyps(1) by (simp add: passes_all_def)
  then show ?case by (rule lands_error) auto
next
  case (batch_ok g run x lost x1 x2 gs r x3)
  let ?I = "sm_id ` set g"
  have "?I \<inter> D = {}" using batch_ok.prems(3) by auto
  then have "lands cs0 D ?I (Inr () :: eval_error + unit) (fst x2)"
    using send_settle_lands [OF batch_ok.hyps(2,3), of D cs0] batch_ok.prems batch_ok.hyps(1) by (simp add: passes_all_def)
  then have "written cs0 (D \<union> ?I) (fst x2)" by (simp add: lands_def)
  moreover have "sm_id ` set (concat gs) \<inter> (D \<union> ?I) = {}" using batch_ok.prems(2,3) by auto
  moreover have "distinct (map sm_id (concat gs))" using batch_ok.prems(2) by simp
  ultimately have "lands cs0 (D \<union> ?I) (sm_id ` set (concat gs)) r (fst x3)"
    using batch_ok.IH batch_ok.prems(1) by blast
  then have "lands cs0 D (?I \<union> sm_id ` set (concat gs)) r (fst x3)" by (rule lands_then)
  then show ?case by (simp add: image_Un)
qed (simp add: lands_def)

lemma concat_chunks: "0 < n \<Longrightarrow> concat (chunks n xs) = xs"
  by (induction n xs rule: chunks.induct) (subst chunks.simps, simp)

section \<open>The pool\<close>

abbreviation ids :: "('v, 'c, 'k) sample list \<Rightarrow> string set" where
  "ids ss \<equiv> sm_id ` set ss"

abbreviation flying :: "('v, 'c, 'k) flight list \<Rightarrow> string list" where
  "flying fs \<equiv> map (\<lambda>f. sm_id (fl_sample f)) fs"

text \<open>The claimed samples are apart: those that have a row, those that were lost and those in flight.
  While no worker has failed there are no others.\<close>

definition pool_inv ::
  "session \<Rightarrow> string set \<Rightarrow> ('v, 'c, 'k) sample list \<Rightarrow> string set \<Rightarrow> ('v, 'c, 'k) pool_state \<Rightarrow> bool" where
  "pool_inv cs0 D rest D' p \<longleftrightarrow>
     D \<subseteq> D' \<and> D' \<subseteq> D \<union> ids (take (ps_claimed p) rest) \<and> written cs0 D' (fst (ps_cell p))
     \<and> ps_claimed p \<le> length rest
     \<and> distinct (map sm_id (ps_lost p) @ flying (ps_flights p))
     \<and> set (ps_lost p) \<subseteq> set (take (ps_claimed p) rest) \<and> ids (ps_lost p) \<inter> D' = {}
     \<and> (\<forall>f\<in>set (ps_flights p). fl_sample f \<in> set (take (ps_claimed p) rest)
          \<and> attempting D' [fl_sample f] (fl_state f) (fl_results f) \<and> passes_errors (fl_run f))
     \<and> (ps_errors p = [] \<longrightarrow> ids (take (ps_claimed p) rest) \<subseteq> D' \<union> ids (ps_lost p) \<union> set (flying (ps_flights p)))"

lemma attempting_more:
  assumes "attempting D [s] st rs" "D \<subseteq> D'" "sm_id s \<in> D' \<Longrightarrow> sm_id s \<in> D"
  shows "attempting D' [s] st rs"
  using assms by (auto simp: attempting_def)

lemma pool_inv_start:
  assumes "written cs0 D (fst x)"
  shows "pool_inv cs0 D rest D (pool_start n x)"
  using assms by (simp add: pool_inv_def pool_start_def)

lemma flight_id: "attempting D [s] st rs \<Longrightarrow> s' \<in> set (at_lost st) \<Longrightarrow> s' = s"
  by (auto simp: attempting_def)

lemma sets_apart:
  "A \<subseteq> {i} \<Longrightarrow> i \<notin> B \<Longrightarrow> A \<inter> B = {}" "A \<subseteq> {i} \<Longrightarrow> i \<notin> B \<Longrightarrow> B \<inter> A = {}"
  "B \<subseteq> A \<union> {i} \<Longrightarrow> i \<notin> L \<Longrightarrow> L \<inter> A = {} \<Longrightarrow> L \<inter> B = {}"
  "B \<subseteq> A \<union> {i} \<Longrightarrow> i \<in> T \<Longrightarrow> A \<subseteq> D \<union> T \<Longrightarrow> B \<subseteq> D \<union> T"
  by auto

lemma pool_inv_claim:
  assumes "pool_inv cs0 D rest D' p" "ps_claimed p < length rest" "passes_errors run"
    and "distinct (map sm_id rest)" "ids rest \<inter> D = {}"
  shows "pool_inv cs0 D rest D'
    (p\<lparr>ps_claimed := ps_claimed p + 1, ps_flights := ps_flights p @ [take_off (rest ! ps_claimed p) run]\<rparr>)"
proof -
  let ?k = "ps_claimed p" let ?s = "rest ! ?k"
  have more: "set (take (?k + 1) rest) = insert ?s (set (take ?k rest))"
    using assms(2) by (simp add: take_Suc_conv_app_nth)
  have "sm_id ?s \<notin> ids (take ?k rest)"
  proof
    assume "sm_id ?s \<in> ids (take ?k rest)"
    then obtain j where "j < ?k" "sm_id (rest ! j) = sm_id ?s" using assms(2) by (auto simp: in_set_conv_nth)
    then show False using other_sample [OF assms(4,2), of j] assms(2) by simp
  qed
  moreover have "sm_id ?s \<notin> D" using imageI [OF nth_mem [OF assms(2)], of sm_id] assms(5) by auto
  ultimately have new: "sm_id ?s \<notin> D'" "sm_id ?s \<notin> ids (ps_lost p)" "sm_id ?s \<notin> set (flying (ps_flights p))"
    using assms(1) by (auto simp: pool_inv_def)
  have "attempting D' [?s] (fresh_attempt [?s]) []" using new(1) by (intro attempting_start) simp
  then show ?thesis
    using assms(1-3) new more by (auto simp: pool_inv_def take_off_def)
qed

lemma pool_inv_call:
  assumes "pool_inv cs0 D rest D' p" "ps_flights p = fs @ f # gs"
    and "record_reading env alone [fl_sample f] c (fl_state f) (ps_cell p) = (r, st, x)"
  shows "\<exists>D1. pool_inv cs0 D rest D1
    (p\<lparr>ps_flights := fs @ f\<lparr>fl_calls := cs, fl_results := fl_results f @ [r], fl_state := st\<rparr> # gs, ps_cell := x\<rparr>)"
proof -
  let ?i = "sm_id (fl_sample f)"
  have inv: "attempting D' [fl_sample f] (fl_state f) (fl_results f)" "written cs0 D' (fst (ps_cell p))"
    "fl_sample f \<in> set (take (ps_claimed p) rest)"
    using assms(1,2) by (auto simp: pool_inv_def)
  obtain D1 where D1: "D' \<subseteq> D1" "D1 \<subseteq> D' \<union> {?i}" "written cs0 D1 (fst x)" "attempting D1 [fl_sample f] st (fl_results f @ [r])"
    by (rule record_step [OF assms(3) _ inv(1,2)]) auto
  have others: "?i \<notin> set (flying fs)" "?i \<notin> set (flying gs)" "?i \<notin> ids (ps_lost p)"
    using assms(1,2) by (auto simp: pool_inv_def)
  have keep: "attempting D1 [fl_sample g] (fl_state g) (fl_results g)" if "g \<in> set fs \<union> set gs" for g
  proof (rule attempting_more [OF _ D1(1)])
    show "attempting D' [fl_sample g] (fl_state g) (fl_results g)" using that assms(1,2) by (auto simp: pool_inv_def)
    have "sm_id (fl_sample g) \<noteq> ?i" using that others(1,2) by (auto simp: image_iff)
    then show "sm_id (fl_sample g) \<in> D1 \<Longrightarrow> sm_id (fl_sample g) \<in> D'" using D1(2) by auto
  qed
  have "ids (ps_lost p) \<inter> D' = {}" "D \<subseteq> D'" "D' \<subseteq> D \<union> ids (take (ps_claimed p) rest)"
    using assms(1) by (simp_all add: pool_inv_def)
  then have "D \<subseteq> D1" "D1 \<subseteq> D \<union> ids (take (ps_claimed p) rest)" "ids (ps_lost p) \<inter> D1 = {}"
    using D1(1) sets_apart(3) [OF D1(2) others(3)] sets_apart(4) [OF D1(2) imageI [where f = sm_id, OF inv(3)]] by simp_all
  moreover have "fl_sample g \<in> set (take (ps_claimed p) rest) \<and> passes_errors (fl_run g)" if "g \<in> set fs \<union> {f} \<union> set gs" for g
  proof -
    have "g \<in> set (ps_flights p)" using that assms(2) by auto
    then show ?thesis using assms(1) by (simp add: pool_inv_def)
  qed
  moreover have "ids (take (ps_claimed p) rest) \<subseteq> D1 \<union> ids (ps_lost p) \<union> set (flying (fs @ f # gs))" if "ps_errors p = []"
    by (rule order_trans [OF _ Un_mono [OF Un_mono [OF D1(1) order_refl] order_refl]])
      (use that assms(1) in \<open>simp add: pool_inv_def flip: assms(2)\<close>)
  ultimately have "pool_inv cs0 D rest D1
    (p\<lparr>ps_flights := fs @ f\<lparr>fl_calls := cs, fl_results := fl_results f @ [r], fl_state := st\<rparr> # gs, ps_cell := x\<rparr>)"
    using assms(1,2) D1(3,4) keep by (simp add: pool_inv_def)
  then show ?thesis by blast
qed

lemma pool_inv_drop:
  assumes "pool_inv cs0 D rest D' p" "ps_flights p = fs @ f # gs"
  shows "pool_inv cs0 D rest D' (p\<lparr>ps_stopped := b, ps_flights := fs @ gs, ps_errors := ps_errors p @ [e], ps_workers := n\<rparr>)"
  using assms by (auto simp: pool_inv_def)

lemma pool_inv_land:
  assumes "pool_inv cs0 D rest D' p" "ps_flights p = fs @ f # gs" "flight_end f = Inr dropped"
  shows "pool_inv cs0 D rest D' (p\<lparr>ps_stopped := b, ps_lost := ps_lost p @ dropped, ps_flights := fs @ gs\<rparr>)"
proof -
  have att: "attempting D' [fl_sample f] (fl_state f) (fl_results f)" "passes_errors (fl_run f)"
    "fl_sample f \<in> set (take (ps_claimed p) rest)"
    using assms(1,2) by (auto simp: pool_inv_def)
  note cover = attempt_end_covers [OF assms(3) [unfolded flight_end_def] att(1,2)]
  let ?i = "sm_id (fl_sample f)"
  have only: "ids dropped \<subseteq> {?i}" "set dropped \<subseteq> {fl_sample f}" using flight_id [OF att(1)] cover(1) by auto
  have drops: "distinct (map sm_id dropped)" "ids dropped \<inter> D' = {}" "?i \<in> D' \<union> ids dropped"
    using att(1) cover(1) cover(2) [of "fl_sample f"] by (auto simp: attempting_def)
  have inv: "distinct (map sm_id (ps_lost p) @ flying (fs @ f # gs))"
    "ps_errors p = [] \<Longrightarrow> ids (take (ps_claimed p) rest) \<subseteq> D' \<union> ids (ps_lost p) \<union> set (flying (fs @ f # gs))"
    using assms(1,2) by (simp_all add: pool_inv_def)
  have "distinct (map sm_id (ps_lost p @ dropped) @ flying (fs @ gs))"
  proof -
    have "?i \<notin> ids (ps_lost p)" "?i \<notin> set (flying (fs @ gs))" using inv(1) by auto
    then have "ids (ps_lost p) \<inter> ids dropped = {}" "ids dropped \<inter> set (flying (fs @ gs)) = {}" 
      using sets_apart(1,2) [OF only(1)] by simp_all
    then show ?thesis using inv(1) drops(1) by (simp add: Int_Un_distrib Int_Un_distrib2)
  qed
  moreover have "ids (take (ps_claimed p) rest) \<subseteq> D' \<union> ids (ps_lost p @ dropped) \<union> set (flying (fs @ gs))" if "ps_errors p = []"
    using inv(2) [OF that] drops(3) by auto
  moreover have "ids (ps_lost p @ dropped) \<inter> D' = {}" "set (ps_lost p @ dropped) \<subseteq> set (take (ps_claimed p) rest)"
    using assms(1) drops(2) only(2) att(3) by (auto simp: pool_inv_def)
  ultimately show ?thesis using assms(1,2) by (simp add: pool_inv_def)
qed

lemma pool_step_inv:
  assumes "pool_step env engine alone rest p q" "pool_inv cs0 D rest D' p" "passes_all engine"
    and "distinct (map sm_id rest)" "ids rest \<inter> D = {}"
  shows "\<exists>D1. pool_inv cs0 D rest D1 q"
  using assms(1)
proof cases
  case (claim run)
  then show ?thesis using pool_inv_claim [OF assms(2) _ _ assms(4,5), of run] assms(3) by (auto simp: passes_all_def)
next
  case (call fs f gs c cs r st x)
  then show ?thesis using pool_inv_call [OF assms(2)] by blast
next
  case (failed fs f gs e)
  then show ?thesis using pool_inv_drop [OF assms(2) failed(2), where b = True and e = e and n = "ps_workers p"] by auto
next
  case (landed fs f gs dropped)
  then show ?thesis using pool_inv_land [OF assms(2)] by blast
next
  case (panicked fs f gs)
  then show ?thesis using pool_inv_drop [OF assms(2) panicked(3), where b = "ps_stopped p" and e = WorkerPanicked] by auto
qed

lemma pool_round_lands:
  assumes "pool_round env engine workers rest x p" "passes_all engine" "distinct (map sm_id rest)" "ids rest \<inter> D = {}"
    and "written cs0 D (fst x)"
  shows "\<exists>D'. pool_inv cs0 D rest D' p"
proof -
  have "(pool_step env engine (min workers (length rest) = 1) rest)\<^sup>*\<^sup>* (pool_start (min workers (length rest)) x) p"
    using assms(1) by (simp add: pool_round_def Let_def)
  then show ?thesis
  proof (induction rule: rtranclp_induct)
    case base
    then show ?case using pool_inv_start [OF assms(5)] by blast
  next
    case (step p q)
    then show ?case using pool_step_inv [OF step(2) _ assms(2-4)] by blast
  qed
qed

text \<open>A round without an error, and the settling of what it lost: every claimed sample has its row.\<close>

lemma round_settle_lands:
  assumes "pool_round env engine workers rest x p" "ps_errors p = []" "settle env engine (ps_lost p) (ps_cell p) r x1"
    and "passes_all engine" "distinct (map sm_id rest)" "ids rest \<inter> D = {}" "written cs0 D (fst x)"
  shows "lands cs0 D (ids (take (ps_claimed p) rest)) r (fst x1)"
proof -
  let ?T = "ids (take (ps_claimed p) rest)"
  obtain D' where inv: "pool_inv cs0 D rest D' p" using pool_round_lands [OF assms(1,4-7)] by blast
  have "ps_flights p = []" using assms(1) by (simp add: pool_round_def Let_def round_over_def)
  then have facts: "D \<subseteq> D'" "D' \<subseteq> D \<union> ?T" "written cs0 D' (fst (ps_cell p))" "distinct (map sm_id (ps_lost p))"
    "set (ps_lost p) \<subseteq> set (take (ps_claimed p) rest)" "ids (ps_lost p) \<inter> D' = {}" "?T \<subseteq> D' \<union> ids (ps_lost p)"
    using inv assms(2) by (simp_all add: pool_inv_def)
  have "lands cs0 D' (ids (ps_lost p)) r (fst x1)"
    by (rule settle_lands [OF assms(3,4) facts(4,6,3)])
  moreover have "D' \<union> ids (ps_lost p) = D \<union> ?T" using facts(1,2,5,7) by blast
  ultimately show ?thesis using facts(1) by (cases r) (auto simp: lands_def)
qed

lemma pool_lands:
  assumes "pool env engine workers rest x r x1" "passes_all engine" "distinct (map sm_id rest)" "ids rest \<inter> D = {}"
    and "written cs0 D (fst x)"
  shows "lands cs0 D (ids rest) r (fst x1)"
  using assms
proof (induction arbitrary: D rule: pool.induct)
  case (pool_err rest x p e)
  obtain D' where "pool_inv cs0 D rest D' p" using pool_round_lands [OF pool_err.hyps(2) pool_err.prems] by blast
  then have "lands cs0 D (ids (take (ps_claimed p) rest)) (Inl e :: eval_error + unit) (fst (ps_cell p))"
    unfolding lands_def pool_inv_def by auto
  moreover have "ids (take (ps_claimed p) rest) \<subseteq> ids rest" using set_take_subset [of "ps_claimed p" rest] by blast
  ultimately show ?case by (elim lands_error) auto
next
  case (pool_lost rest x p e x1)
  have "lands cs0 D (ids (take (ps_claimed p) rest)) (Inl e :: eval_error + unit) (fst x1)"
    by (rule round_settle_lands [OF pool_lost.hyps(2,3,4) pool_lost.prems])
  moreover have "ids (take (ps_claimed p) rest) \<subseteq> ids rest" using set_take_subset [of "ps_claimed p" rest] by blast
  ultimately show ?case by (elim lands_error) auto
next
  case (pool_next rest x p x1 r x2)
  let ?a = "take (ps_claimed p) rest" and ?b = "drop (ps_claimed p) rest"
  have "lands cs0 D (ids ?a) (Inr () :: eval_error + unit) (fst x1)"
    by (rule round_settle_lands [OF pool_next.hyps(2,3,4) pool_next.prems])
  then have wrote: "written cs0 (D \<union> ids ?a) (fst x1)" by (simp add: lands_def)
  have parts: "ids rest = ids ?a \<union> ids ?b" by (metis append_take_drop_id image_Un set_append)
  have "distinct (map sm_id (?a @ ?b))" using pool_next.prems(2) by simp
  then have "distinct (map sm_id ?b)" "ids ?b \<inter> ids ?a = {}" unfolding map_append distinct_append by auto
  moreover have "ids ?b \<inter> D = {}" using pool_next.prems(3) parts by (simp add: Int_Un_distrib2)
  ultimately have "lands cs0 (D \<union> ids ?a) (ids ?b) r (fst x2)"
    using pool_next.IH [OF pool_next.prems(1) _ _ wrote] by (simp add: Int_Un_distrib)
  then show ?case using lands_then parts by metis
qed (simp add: lands_def)

section \<open>The cell\<close>

fun in_flight_count :: "in_flight_mode \<Rightarrow> nat" where
  "in_flight_count (Batch n) = n"
| "in_flight_count (Parallel n) = n"

lemma run_samples_lands_from:
  assumes "run_samples env engine mode todo x r x1" "passes_all engine" "0 < in_flight_count mode" "distinct (map sm_id todo)"
    and "ids todo \<inter> D = {}" "written cs0 D (fst x)"
  shows "lands cs0 D (ids todo) r (fst x1)"
proof (cases mode)
  case (Batch n)
  then have "batches env engine (chunks n todo) x r x1" and eq: "concat (chunks n todo) = todo"
    using assms(1,3) by (simp_all add: run_samples_def concat_chunks)
  from batches_lands [OF this(1) assms(2), of D cs0] show ?thesis using assms(4-6) by (simp add: eq)
next
  case (Parallel n)
  then show ?thesis using assms pool_lands [of env engine n todo x r x1 D cs0] by (simp add: run_samples_def)
qed

lemma run_samples_lands:
  assumes "run_samples env engine mode todo x r x1" "passes_all engine" "0 < in_flight_count mode" "distinct (map sm_id todo)"
    and "session_ok (fst x)"
  shows "lands (fst x) {} (ids todo) r (fst x1)"
  by (rule run_samples_lands_from [OF assms(1-4)]) (use assms(5) in \<open>simp_all add: written_start\<close>)

lemma unsettled_spec:
  "distinct (map sm_id (unsettled settled seen ss))
   \<and> ids (unsettled settled seen ss) = {i \<in> ids ss. \<not> settled i \<and> i \<notin> seen}"
  by (induction settled seen ss rule: unsettled.induct) auto

definition sendable :: "session \<Rightarrow> bool \<Rightarrow> string \<Rightarrow> bool" where
  "sendable cs retry i \<longleftrightarrow> \<not> contains cs i \<or> retry \<and> i \<in> set (fst (failure_split cs MAX_SAMPLE_ATTEMPTS))"

lemma pending_spec:
  "distinct (map sm_id (pending samples cs retry))" "ids (pending samples cs retry) = {i \<in> ids samples. sendable cs retry i}"
  unfolding pending_def Let_def
  using unsettled_spec [of "\<lambda>i. contains cs i \<and> i \<notin> (if retry then set (fst (failure_split cs MAX_SAMPLE_ATTEMPTS)) else {})" "{}" samples]
  by (auto simp: sendable_def split: if_splits)

lemma row_of_Some: "session_ok cs \<Longrightarrow> row_of cs i = Some r \<longleftrightarrow> r \<in> set (cs_rows cs) \<and> row_id r = i"
  unfolding row_of_def by (rule find_row) (simp add: session_ok_def)

lemma row_of_None: "session_ok cs \<Longrightarrow> row_of cs i = None \<longleftrightarrow> \<not> contains cs i"
  by (auto simp: row_of_def find_None_iff session_ok_def contains_def)

text \<open>A sample that may be sent has attempts left, and one that succeeded may not.\<close>

lemma sendable_spent: "session_ok cs \<Longrightarrow> sendable cs retry i \<Longrightarrow> spent (cs_attempts cs) i < MAX_SAMPLE_ATTEMPTS"
  by (auto simp: sendable_def failure_split_def Let_def session_ok_def contains_def MAX_SAMPLE_ATTEMPTS_def)

lemma succeeded_not_sendable:
  assumes "session_ok cs" "row_of cs i = Some r" "\<not> row_failed r"
  shows "\<not> sendable cs retry i"
proof -
  have "r' = r" if "r' \<in> set (cs_rows cs)" "row_id r' = i" for r'
    using that row_of_Some [OF assms(1), of i] assms(2) by (metis option.inject)
  then show ?thesis
    using assms row_of_None [OF assms(1), of i] by (auto simp: sendable_def failure_split_def Let_def)
qed

lemma run_cell_lands:
  assumes "run_cell env ops engine mode retry rows x r x1" "passes_all engine" "0 < in_flight_count mode" "session_ok (fst x)"
  obtains D where "written (fst x) D (fst x1)" "\<forall>i\<in>D. sendable (fst x) retry i"
    "\<And>samples n. dataset ops rows = Inr samples \<Longrightarrow> r = Inr n \<Longrightarrow>
       n = distinct_ids samples \<and> D = {i \<in> ids samples. sendable (fst x) retry i}"
  using assms(1)
proof cases
  case no_dataset
  show thesis by (rule that [of "{}"]) (use no_dataset written_start [OF assms(4)] in simp_all)
next
  case (cell_err samples e)
  have "lands (fst x) {} (ids (pending samples (fst x) retry)) (Inl e :: eval_error + unit) (fst x1)"
    by (rule run_samples_lands [OF cell_err(3) assms(2,3) pending_spec(1) assms(4)])
  then obtain D where "D \<subseteq> ids (pending samples (fst x) retry)" "written (fst x) D (fst x1)" by (auto simp: lands_def)
  then show thesis by (intro that [of D]) (use cell_err(1) in \<open>auto simp: pending_spec(2)\<close>)
next
  case (cell_ok samples)
  have "lands (fst x) {} (ids (pending samples (fst x) retry)) (Inr () :: eval_error + unit) (fst x1)"
    by (rule run_samples_lands [OF cell_ok(3) assms(2,3) pending_spec(1) assms(4)])
  then have "written (fst x) (ids (pending samples (fst x) retry)) (fst x1)" by (simp add: lands_def)
  then show thesis
    by (intro that [of "ids (pending samples (fst x) retry)"]) (use cell_ok(1,2) in \<open>simp_all add: pending_spec(2)\<close>)
qed

lemma eval_Ok:
  assumes "eval env ops engine mode rows x (Inr result) x1"
  shows "\<exists>n. run_cell env ops engine mode False rows x (Inr n) x1 \<and> result = cs_rows (fst x1)"
proof -
  obtain n where "run_cell env ops engine mode False rows x n x1"
    "Inr result = (case n of Inl e \<Rightarrow> Inl e | Inr _ \<Rightarrow> Inr (cs_rows (fst x1)))"
    using assms unfolding eval_def by blast
  then show ?thesis by (cases n) auto
qed

lemma eval_complete_Ok:
  assumes "eval_complete env var ops engine mode rows x (Inr result) x1"
  shows "\<exists>n. run_cell env ops engine mode True rows x (Inr n) x1 \<and> result = cs_rows (fst x1)
    \<and> ensure_complete var (fst x1) n = Inr ()"
proof -
  obtain n where run: "run_cell env ops engine mode True rows x n x1" and
    res: "Inr result = (case n of Inl e \<Rightarrow> Inl e
       | Inr served \<Rightarrow> (case ensure_complete var (fst x1) served of Inl e \<Rightarrow> Inl (Incomplete e) | Inr _ \<Rightarrow> Inr (cs_rows (fst x1))))"
    using assms unfolding eval_complete_def by blast
  then obtain k where "n = Inr k" by (cases n) auto
  then show ?thesis using run res by (cases "ensure_complete var (fst x1) k") auto
qed

text \<open>C8. An eval that returns a result has one row for every sample of its dataset, whatever the engine
  lost, failed or found unfit on the way and however its workers interleaved; no id has two rows, and
  every row the checkpoint carried before the run is in the result unchanged.
\<close>

theorem eval_one_row_per_sample:
  assumes "eval env ops engine mode rows x (Inr result) x1" "dataset ops rows = Inr samples"
    and "passes_all engine" "0 < in_flight_count mode" "session_ok (fst x)"
  shows "distinct (map row_id result) \<and> set (map row_id result) = ids samples \<union> set (map row_id (cs_rows (fst x)))
    \<and> set (cs_rows (fst x)) \<subseteq> set result"
proof -
  obtain n where run: "run_cell env ops engine mode False rows x (Inr n) x1" and res: "result = cs_rows (fst x1)"
    using eval_Ok [OF assms(1)] by blast
  obtain D where D: "written (fst x) D (fst x1)" "D = {i \<in> ids samples. sendable (fst x) False i}"
    by (rule run_cell_lands [OF run assms(3-5)]) (use assms(2) in blast)
  have ok: "session_ok (fst x1)" using D(1) by (simp add: written_def)
  have new: "D = ids samples - cs_done (fst x)" using D(2) by (auto simp: sendable_def contains_def)
  have row: "row_of (fst x1) i = row_of (fst x) i" if "i \<notin> D" for i using that D(1) by (simp add: written_def)
  have some: "row_of (fst x1) i \<noteq> None" if "i \<in> D" for i using that D(1) by (simp add: written_def)
  have "i \<in> cs_done (fst x1) \<longleftrightarrow> i \<in> D \<or> i \<in> cs_done (fst x)" for i
    using row [of i] some [of i] row_of_None [OF ok, of i] row_of_None [OF assms(5), of i]
    by (cases "i \<in> D") (simp_all add: contains_def)
  then have "cs_done (fst x1) = ids samples \<union> cs_done (fst x)" using new by auto
  moreover have "r \<in> set (cs_rows (fst x1))" if "r \<in> set (cs_rows (fst x))" for r
  proof -
    have at: "row_of (fst x) (row_id r) = Some r" using that row_of_Some [OF assms(5)] by simp
    then have "row_id r \<notin> D" using new row_of_None [OF assms(5), of "row_id r"] by (auto simp: contains_def)
    then show ?thesis using row at row_of_Some [OF ok, of "row_id r" r] by simp
  qed
  ultimately show ?thesis using ok assms(5) by (auto simp: res session_ok_def)
qed

text \<open>C5. An eval that must not publish failures, and whose waiver is not set, returns a result only with
  one successful row for every sample of its dataset and no other row. A row that had succeeded before
  the run is the one returned.
\<close>

theorem eval_complete_answers_every_sample:
  assumes "eval_complete env var ops engine mode rows x (Inr result) x1" "dataset ops rows = Inr samples"
    and "\<not> waives var" "passes_all engine" "0 < in_flight_count mode" "session_ok (fst x)"
  shows "distinct (map row_id result) \<and> set (map row_id result) = ids samples \<and> (\<forall>r\<in>set result. \<not> row_failed r)
    \<and> (\<forall>r\<in>set (cs_rows (fst x)). \<not> row_failed r \<longrightarrow> r \<in> set result)"
proof -
  obtain n where run: "run_cell env ops engine mode True rows x (Inr n) x1" and res: "result = cs_rows (fst x1)"
    and whole: "ensure_complete var (fst x1) n = Inr ()"
    using eval_complete_Ok [OF assms(1)] by blast
  obtain D where D: "written (fst x) D (fst x1)" "D = {i \<in> ids samples. sendable (fst x) True i}" "n = distinct_ids samples"
    by (rule run_cell_lands [OF run assms(4-6)]) (use assms(2) in blast)
  have ok: "session_ok (fst x1)" using D(1) by (simp add: written_def)
  have row: "row_of (fst x1) i = row_of (fst x) i" if "i \<notin> D" for i using that D(1) by (simp add: written_def)
  have "contains (fst x1) i" if "i \<in> ids samples" for i
  proof (cases "i \<in> D")
    case True
    then show ?thesis using D(1) row_of_None [OF ok, of i] by (auto simp: written_def)
  next
    case False
    then have "contains (fst x) i" using that D(2) by (auto simp: sendable_def)
    then show ?thesis using row [OF False] row_of_None [OF ok, of i] row_of_None [OF assms(6), of i] by simp
  qed
  then have sub: "ids samples \<subseteq> set (map row_id result)" using ok by (auto simp: res contains_def session_ok_def)
  have size: "length result = card (ids samples)" and none: "cs_failed (fst x1) = 0"
    using whole assms(3) by (auto simp: ensure_complete_def check_complete_def Let_def D(3) distinct_ids_def res split: if_splits prod.splits)
  have dist: "distinct (map row_id result)" using ok by (simp add: res session_ok_def)
  have "card (set (map row_id result)) = card (ids samples)" using size distinct_card [OF dist] by simp
  then have "ids samples = set (map row_id result)" using sub by (intro card_subset_eq) simp_all
  moreover have "\<forall>r\<in>set result. \<not> row_failed r" using none ok by (auto simp: res session_ok_def filter_empty_conv)
  moreover have "r \<in> set result" if r: "r \<in> set (cs_rows (fst x))" "\<not> row_failed r" for r
  proof -
    have at: "row_of (fst x) (row_id r) = Some r" using r row_of_Some [OF assms(6)] by simp
    then have "row_id r \<notin> D" using succeeded_not_sendable [OF assms(6) at r(2)] D(2) by auto
    then show ?thesis using row at row_of_Some [OF ok, of "row_id r" r] by (simp add: res)
  qed
  ultimately show ?thesis using dist by blast
qed

text \<open>C9. However a cell ends, with a result, an error of the engine, of the disk or a panic: a sample
  spends at most one attempt of the run, none beyond \<open>MAX_SAMPLE_ATTEMPTS\<close>, and a sample whose row
  had succeeded keeps it.
\<close>

theorem attempts_bounded:
  assumes "run_cell env ops engine mode retry rows x r x1" "passes_all engine" "0 < in_flight_count mode" "session_ok (fst x)"
  shows "spent (cs_attempts (fst x1)) i \<le> spent (cs_attempts (fst x)) i + 1
    \<and> spent (cs_attempts (fst x1)) i \<le> max (spent (cs_attempts (fst x)) i) MAX_SAMPLE_ATTEMPTS
    \<and> (row_of (fst x) i = Some c \<and> \<not> row_failed c \<longrightarrow> row_of (fst x1) i = Some c)"
proof -
  obtain D where D: "written (fst x) D (fst x1)" "\<forall>i\<in>D. sendable (fst x) retry i"
    by (rule run_cell_lands [OF assms])
  show ?thesis
  proof (cases "i \<in> D")
    case True
    then have "sendable (fst x) retry i" using D(2) by blast
    moreover from sendable_spent [OF assms(4) this] have "spent (cs_attempts (fst x)) i < MAX_SAMPLE_ATTEMPTS" .
    ultimately show ?thesis
      using True D(1) succeeded_not_sendable [OF assms(4)] by (fastforce simp: written_def)
  next
    case False
    then show ?thesis using D(1) by (simp add: written_def)
  qed
qed

section \<open>A dataset in chunks\<close>

lemma filter_chat_samples:
  "map sm_id (filter (\<lambda>s. sm_id s \<in> T) (chat_samples rows offset tot)) = filter (\<lambda>i. i \<in> T) (map chat_id rows)"
  by (induction rows offset tot rule: chat_samples.induct) auto

lemma check_chunk_ok:
  assumes "check_chunk declared id_at offset rows = Inr ()"
  shows "offset + length rows \<le> declared" "map chat_id rows = map id_at [offset..<offset + length rows]"
proof -
  show "offset + length rows \<le> declared"
    using assms by (simp add: check_chunk_def Let_def split: if_splits)
  have none: "find (\<lambda>(p, r). chat_id r \<noteq> id_at p) (zip [offset..<offset + length rows] rows) = None"
    using assms by (auto simp: check_chunk_def Let_def split: if_splits option.splits)
  show "map chat_id rows = map id_at [offset..<offset + length rows]"
  proof (rule nth_equalityI)
    fix k
    assume "k < length (map chat_id rows)"
    then have k: "k < length rows" by simp
    then have "(offset + k, rows ! k) \<in> set (zip [offset..<offset + length rows] rows)"
      by (auto simp: set_zip intro!: exI [of _ k])
    then show "map chat_id rows ! k = map id_at [offset..<offset + length rows] ! k"
      using none k by (auto simp: find_None_iff)
  qed simp
qed

lemma dropWhile_positions:
  "sorted (map fst xs) \<Longrightarrow> set (dropWhile (\<lambda>(p, _). p < e) xs) = {x \<in> set xs. e \<le> fst x}"
  for e :: nat
  by (induction xs) auto

text \<open>\<open>ahead declared id_at todo_ids todo\<close>: \<open>todo\<close> lists in order positions with their ids, and from its
  first position on the ids of \<open>todo_ids\<close> are those it lists.\<close>

definition ahead :: "nat \<Rightarrow> (nat \<Rightarrow> string) \<Rightarrow> string set \<Rightarrow> (nat \<times> string) list \<Rightarrow> bool" where
  "ahead declared id_at todo_ids todo \<longleftrightarrow>
     sorted (map fst todo) \<and> (\<forall>(p, i)\<in>set todo. p < declared \<and> i = id_at p)
     \<and> (\<forall>p<declared. (\<exists>q\<in>fst ` set todo. q \<le> p) \<longrightarrow> (id_at p \<in> todo_ids \<longleftrightarrow> p \<in> fst ` set todo))"

lemma ahead_ids: "ahead declared id_at todo_ids todo \<Longrightarrow> snd ` set todo = id_at ` fst ` set todo"
  unfolding ahead_def image_image by (intro image_cong) auto

lemma ahead_rest:
  assumes "ahead declared id_at todo_ids todo"
  shows "ahead declared id_at todo_ids (dropWhile (\<lambda>(p, _). p < e) todo)"
    "fst ` set (dropWhile (\<lambda>(p, _). p < e) todo) = {p \<in> fst ` set todo. e \<le> p}"
proof -
  have sorted: "sorted (map fst todo)" using assms by (simp add: ahead_def)
  note rest = dropWhile_positions [OF sorted, of e]
  show pos: "fst ` set (dropWhile (\<lambda>(p, _). p < e) todo) = {p \<in> fst ` set todo. e \<le> p}" using rest by auto
  have "map fst (dropWhile (\<lambda>(p, _). p < e) todo) = dropWhile (\<lambda>p. p < e) (map fst todo)"
    by (simp add: dropWhile_map comp_def case_prod_unfold)
  then have "sorted (map fst (dropWhile (\<lambda>(p, _). p < e) todo))" using sorted sorted_dropWhile by metis
  then show "ahead declared id_at todo_ids (dropWhile (\<lambda>(p, _). p < e) todo)"
    unfolding ahead_def pos using assms by (auto simp: ahead_def rest)
qed

lemma ahead_pending:
  "ahead declared id_at (snd ` set (chunked_pending cs declared id_at)) (chunked_pending cs declared id_at)"
proof -
  let ?todo = "chunked_pending cs declared id_at"
  define left where "left = (\<lambda>i. \<not> contains cs i \<or> i \<in> set (fst (failure_split cs MAX_SAMPLE_ATTEMPTS)))"
  have todo: "?todo = map (\<lambda>p. (p, id_at p)) (filter (\<lambda>p. left (id_at p)) [0..<declared])"
    by (simp add: chunked_pending_def Let_def left_def filter_map comp_def)
  have fst: "map fst ?todo = filter (\<lambda>p. left (id_at p)) [0..<declared]" by (simp add: todo comp_def)
  have ids: "snd ` set ?todo = {id_at p | p. p < declared \<and> left (id_at p)}" by (auto simp: todo image_image)
  have pos: "fst ` set ?todo = {p. p < declared \<and> left (id_at p)}" by (auto simp: todo image_iff)
  show ?thesis
    unfolding ahead_def fst pos ids by (auto simp: todo intro: sorted_filter [where f = "\<lambda>x. x", simplified])
qed

text \<open>The samples a chunk sends are those of the list that lie before its end.\<close>

lemma chunk_samples:
  assumes "check_chunk declared id_at offset rows = Inr ()" "ahead declared id_at todo_ids ((offset, i) # todo)"
    and "inj_on id_at {..<declared}" "sent = filter (\<lambda>s. sm_id s \<in> todo_ids) (chat_samples rows offset declared)"
  shows "distinct (map sm_id sent)"
    "ids sent = id_at ` {p \<in> fst ` set ((offset, i) # todo). p < offset + length rows}"
proof -
  let ?e = "offset + length rows" and ?P = "fst ` set ((offset, i) # todo)"
  note chunk = check_chunk_ok [OF assms(1)]
  have sent: "map sm_id sent = filter (\<lambda>i. i \<in> todo_ids) (map id_at [offset..<?e])"
    unfolding assms(4) chunk(2) [symmetric] by (rule filter_chat_samples)
  have "inj_on id_at (set [offset..<?e])" using chunk(1) by (intro inj_on_subset [OF assms(3)]) auto
  then show "distinct (map sm_id sent)" unfolding sent by (simp add: distinct_map)
  have first: "offset \<le> p" if "p \<in> ?P" for p using that assms(2) by (auto simp: ahead_def)
  have "id_at p \<in> todo_ids \<longleftrightarrow> p \<in> ?P" if "offset \<le> p" "p < ?e" for p
    using that chunk(1) assms(2) by (auto simp: ahead_def)
  then have "{p. offset \<le> p \<and> p < ?e \<and> id_at p \<in> todo_ids} = {p \<in> ?P. p < ?e}" using first by blast
  moreover have "set (map sm_id sent) = id_at ` {p. offset \<le> p \<and> p < ?e \<and> id_at p \<in> todo_ids}" unfolding sent by auto
  ultimately show "ids sent = id_at ` {p \<in> ?P. p < ?e}" by simp
qed

lemma image_split:
  fixes e :: nat
  shows "f ` P = f ` {p \<in> P. p < e} \<union> f ` {p \<in> P. e \<le> p}"
    and "inj_on f P \<Longrightarrow> f ` {p \<in> P. p < e} \<inter> f ` {p \<in> P. e \<le> p} = {}"
proof -
  have "P = {p \<in> P. p < e} \<union> {p \<in> P. e \<le> p}" by auto
  from arg_cong [OF this, of "image f"] show "f ` P = f ` {p \<in> P. p < e} \<union> f ` {p \<in> P. e \<le> p}"
    by (simp only: image_Un)
next
  assume "inj_on f P"
  then have "f ` {p \<in> P. p < e} \<inter> f ` {p \<in> P. e \<le> p} = f ` ({p \<in> P. p < e} \<inter> {p \<in> P. e \<le> p})"
    by (intro inj_on_image_Int [symmetric, where C = P]) auto
  then show "f ` {p \<in> P. p < e} \<inter> f ` {p \<in> P. e \<le> p} = {}" by auto
qed

lemma apart_un:
  "(A \<union> B) \<inter> D = {} \<Longrightarrow> A \<inter> D = {}" "(A \<union> B) \<inter> D = {} \<Longrightarrow> B \<inter> D = {}"
  "B \<inter> D = {} \<Longrightarrow> A \<inter> B = {} \<Longrightarrow> B \<inter> (D \<union> A) = {}"
  by auto

lemma chunked_lands:
  assumes "chunked_loop env engine mode declared id_at fetch todo_ids todo x r x1" "passes_all engine" "0 < in_flight_count mode"
    and "inj_on id_at {..<declared}" "ahead declared id_at todo_ids todo" "snd ` set todo \<inter> D = {}" "written cs0 D (fst x)"
  shows "lands cs0 D (snd ` set todo) r (fst x1)"
  using assms
proof (induction arbitrary: D rule: chunked_loop.induct)
  case (chunk_run_err offset rows sent x e x1 i todo)
  note sent = chunk_samples [OF chunk_run_err.hyps(2) chunk_run_err.prems(4,3) chunk_run_err.hyps(3)]
  have sub: "ids sent \<subseteq> snd ` set ((offset, i) # todo)" unfolding sent(2) ahead_ids [OF chunk_run_err.prems(4)] by blast
  then have "ids sent \<inter> D = {}" using chunk_run_err.prems(5) by blast
  from run_samples_lands_from [OF chunk_run_err.hyps(5) chunk_run_err.prems(1,2) sent(1) this chunk_run_err.prems(6)] sub
  show ?case by (elim lands_error) auto
next
  case (chunk_ok offset rows sent x1 x i todo r x2)
  let ?all = "(offset, i) # todo" let ?e = "offset + length rows"
  let ?rest = "dropWhile (\<lambda>(p, _). p < ?e) ?all"
  note sent = chunk_samples [OF chunk_ok.hyps(2) chunk_ok.prems(4,3) chunk_ok.hyps(3)]
  note rest = ahead_rest [OF chunk_ok.prems(4), of ?e]
  have all: "snd ` set ?all = id_at ` fst ` set ?all" by (rule ahead_ids [OF chunk_ok.prems(4)])
  have left: "snd ` set ?rest = id_at ` {p \<in> fst ` set ?all. ?e \<le> p}" unfolding ahead_ids [OF rest(1)] rest(2) ..
  have split: "snd ` set ?all = ids sent \<union> snd ` set ?rest" unfolding all sent(2) left by (rule image_split(1))
  have inj: "inj_on id_at (fst ` set ?all)"
    by (rule inj_on_subset [OF chunk_ok.prems(3)]) (use chunk_ok.prems(4) in \<open>auto simp: ahead_def\<close>)
  have apart: "ids sent \<inter> snd ` set ?rest = {}" unfolding sent(2) left by (rule image_split(2) [OF inj])
  have free: "ids sent \<inter> D = {}" "snd ` set ?rest \<inter> D = {}" 
    by (rule apart_un(1) [OF chunk_ok.prems(5) [unfolded split]], rule apart_un(2) [OF chunk_ok.prems(5) [unfolded split]])
  have "written cs0 (D \<union> ids sent) (fst x1)"
  proof (cases "sent = []")
    case True
    then show ?thesis using chunk_ok.hyps(4) chunk_ok.prems(6) by simp
  next
    case False
    then have run: "run_samples env engine mode sent x (Inr ()) x1" using chunk_ok.hyps(4) by simp
    show ?thesis
      using run_samples_lands_from [OF run chunk_ok.prems(1,2) sent(1) free(1) chunk_ok.prems(6)] by (simp add: lands_def)
  qed
  moreover have "snd ` set ?rest \<inter> (D \<union> ids sent) = {}" by (rule apart_un(3) [OF free(2) apart])
  ultimately have "lands cs0 (D \<union> ids sent) (snd ` set ?rest) r (fst x2)"
    using chunk_ok.IH [OF chunk_ok.prems(1-3) rest(1)] by blast
  then show ?case unfolding split by (rule lands_then)
qed (auto simp: lands_def)

text \<open>C14. An eval read in chunks returns a result only with one successful row for every position of its
  dataset and no other row, and no environment variable waives that, whatever sizes the chunks have
  and whatever part of the dataset an earlier run had settled.
\<close>

theorem chunked_eval_answers_every_sample:
  assumes "eval_complete_chunked env var engine mode declared id_at fetch x (Inr result) x1" "passes_all engine"
    and "0 < in_flight_count mode" "inj_on id_at {..<declared}" "session_ok (fst x)"
  shows "distinct (map row_id result) \<and> set (map row_id result) = id_at ` {..<declared} \<and> (\<forall>r\<in>set result. \<not> row_failed r)"
proof -
  let ?todo = "chunked_pending (fst x) declared id_at"
  obtain n where loop: "chunked_loop env engine mode declared id_at fetch (set (map snd ?todo)) ?todo x n x1" and
    res: "Inr result = (case n of Inl e \<Rightarrow> Inl e
       | Inr _ \<Rightarrow> (case ensure_every_answer var (fst x1) declared of Inl e \<Rightarrow> Inl (Incomplete e) | Inr _ \<Rightarrow> Inr (cs_rows (fst x1))))"
    using assms(1) unfolding eval_complete_chunked_def by blast
  have n: "n = Inr ()" using res by (cases n) auto
  have whole: "ensure_every_answer var (fst x1) declared = Inr ()" "result = cs_rows (fst x1)"
    using res n by (cases "ensure_every_answer var (fst x1) declared", auto)+
  have "lands (fst x) {} (snd ` set ?todo) n (fst x1)"
    by (rule chunked_lands [OF loop assms(2-4)]) (use ahead_pending assms(5) in \<open>simp_all add: written_start\<close>)
  then have wrote: "written (fst x) (snd ` set ?todo) (fst x1)" by (simp add: n lands_def)
  then have ok: "session_ok (fst x1)" by (simp add: written_def)
  have "contains (fst x1) (id_at p)" if "p < declared" for p
  proof (cases "id_at p \<in> snd ` set ?todo")
    case True
    then show ?thesis using wrote row_of_None [OF ok, of "id_at p"] by (auto simp: written_def)
  next
    case False
    then have "contains (fst x) (id_at p)" using that by (force simp: chunked_pending_def Let_def)
    then show ?thesis
      using False wrote row_of_None [OF ok, of "id_at p"] row_of_None [OF assms(5), of "id_at p"] by (auto simp: written_def)
  qed
  then have sub: "id_at ` {..<declared} \<subseteq> set (map row_id result)" using ok by (auto simp: whole(2) contains_def session_ok_def)
  have size: "length result = declared" and none: "cs_failed (fst x1) = 0"
    using whole by (auto simp: ensure_every_answer_def check_complete_def Let_def split: if_splits prod.splits)
  have dist: "distinct (map row_id result)" using ok by (simp add: whole(2) session_ok_def)
  have "card (set (map row_id result)) = card (id_at ` {..<declared})"
    using size distinct_card [OF dist] card_image [OF assms(4)] by simp
  then have "id_at ` {..<declared} = set (map row_id result)" using sub by (intro card_subset_eq) simp_all
  moreover have "\<forall>r\<in>set result. \<not> row_failed r" using none ok by (auto simp: whole(2) session_ok_def filter_empty_conv)
  ultimately show ?thesis using dist by simp
qed


section \<open>A cell returns\<close>

definition answers_all :: "('v, 'c, 'k) engine \<Rightarrow> bool" where
  "answers_all engine \<longleftrightarrow> (\<forall>g. \<exists>run. engine g run)"

lemma settle_returns: "answers_all engine \<Longrightarrow> \<exists>r x1. settle env engine ss x r x1"
proof (induction ss arbitrary: x)
  case Nil
  then show ?case using settled by blast
next
  case (Cons s ss)
  obtain run where run: "engine [s] run" using Cons.prems by (auto simp: answers_all_def)
  obtain r x1 where sent: "send_group env [s] True run x = (r, x1)" by (rule prod.exhaust)
  show ?case
  proof (cases r)
    case (Inl e)
    then show ?thesis using settle_err [where engine = engine, OF run] sent by blast
  next
    case (Inr dropped)
    then show ?thesis using settle_ok [where engine = engine, OF run] sent Cons.IH [OF Cons.prems] by blast
  qed
qed

lemma batches_returns: "answers_all engine \<Longrightarrow> \<exists>r x1. batches env engine gs x r x1"
proof (induction gs arbitrary: x)
  case Nil
  then show ?case using batches_done by blast
next
  case (Cons g gs)
  obtain run where run: "engine g run" using Cons.prems by (auto simp: answers_all_def)
  obtain r x1 where sent: "send_group env g (length g = 1) run x = (r, x1)" by (rule prod.exhaust)
  show ?case
  proof (cases r)
    case (Inl e)
    then show ?thesis using batch_err [where engine = engine, OF run] sent by blast
  next
    case (Inr lost)
    obtain r2 x2 where st: "settle env engine lost x1 r2 x2" using settle_returns [OF Cons.prems] by blast
    show ?thesis
    proof (cases r2)
      case (Inl e)
      then show ?thesis using batch_lost [where engine = engine, OF run] sent Inr st by blast
    next
      case (Inr u)
      then show ?thesis
        using batch_ok [where engine = engine, OF run] sent \<open>r = Inr lost\<close> st Cons.IH [OF Cons.prems, of x2] by (metis (full_types) old.unit.exhaust)
    qed
  qed
qed

text \<open>Every step claims a sample, makes a call of an attempt, or ends an attempt.\<close>

definition pool_order :: "('v, 'c, 'k) sample list \<Rightarrow> (('v, 'c, 'k) pool_state \<times> ('v, 'c, 'k) pool_state) set" where
  "pool_order rest =
     measures [\<lambda>p. length rest - ps_claimed p, \<lambda>p. sum_list (map (\<lambda>f. Suc (length (fl_calls f))) (ps_flights p))]"

lemma pool_step_decreases: "pool_step env engine alone rest p q \<Longrightarrow> (q, p) \<in> pool_order rest"
  by (induction rule: pool_step.induct) (auto simp: pool_order_def)

definition claims_ok :: "nat \<Rightarrow> ('v, 'c, 'k) sample list \<Rightarrow> ('v, 'c, 'k) pool_state \<Rightarrow> bool" where
  "claims_ok n rest p \<longleftrightarrow>
     ps_claimed p \<le> length rest \<and> (ps_stopped p \<or> ps_flights p \<noteq> [] \<or> ps_workers p \<noteq> n \<longrightarrow> 0 < ps_claimed p)"

lemma claims_ok_step: "pool_step env engine alone rest p q \<Longrightarrow> claims_ok n rest p \<Longrightarrow> claims_ok n rest q"
  by (induction rule: pool_step.induct) (auto simp: claims_ok_def)

lemma pool_progress:
  assumes "\<not> round_over rest p" "claims_ok n rest p" "answers_all engine"
  shows "\<exists>q. pool_step env engine alone rest p q"
proof (cases "ps_flights p")
  case Nil
  then have "\<not> ps_stopped p" "ps_claimed p < length rest" "length (ps_flights p) < ps_workers p"
    using assms(1,2) by (auto simp: round_over_def claims_ok_def)
  moreover obtain run where "engine [rest ! ps_claimed p] run" using assms(3) by (auto simp: answers_all_def)
  ultimately show ?thesis using claim by blast
next
  case (Cons f gs)
  then have at: "ps_flights p = [] @ f # gs" by simp
  show ?thesis
  proof (cases "fl_calls f")
    case Nil
    then show ?thesis using failed [OF at] landed [OF at] by (cases "flight_end f") blast+
  next
    case calls: (Cons c cs)
    obtain r st x where "record_reading env alone [fl_sample f] c (fl_state f) (ps_cell p) = (r, st, x)" by (rule prod_cases3)
    then show ?thesis using call [OF at calls] by blast
  qed
qed

lemma round_ends:
  assumes "answers_all engine" "claims_ok n rest p"
  shows "\<exists>q. (pool_step env engine alone rest)\<^sup>*\<^sup>* p q \<and> round_over rest q \<and> claims_ok n rest q"
proof -
  have "wf (pool_order rest)" by (simp add: pool_order_def)
  then show ?thesis using assms(2)
  proof (induction p rule: wf_induct_rule)
    case (less p)
    show ?case
    proof (cases "round_over rest p")
      case True
      then show ?thesis using less.prems by blast
    next
      case False
      obtain q where q: "pool_step env engine alone rest p q" using pool_progress [OF False less.prems assms(1)] by blast
      from less.IH [OF pool_step_decreases [OF q] claims_ok_step [OF q less.prems]] show ?thesis
        using converse_rtranclp_into_rtranclp [where r = "pool_step env engine alone rest", OF q] by blast
    qed
  qed
qed

lemma pool_returns:
  assumes "answers_all engine" "0 < workers"
  shows "\<exists>r x1. pool env engine workers rest x r x1"
proof (induction rest arbitrary: x rule: length_induct)
  case (1 rest)
  show ?case
  proof (cases "rest = []")
    case True
    then show ?thesis using pool_done by blast
  next
    case False
    let ?n = "min workers (length rest)"
    have "claims_ok ?n rest (pool_start ?n x)" by (simp add: claims_ok_def pool_start_def)
    from round_ends [OF assms(1) this, of env "?n = 1"]
    obtain p where p: "pool_round env engine workers rest x p" and over: "round_over rest p" "claims_ok ?n rest p"
      unfolding pool_round_def Let_def by blast
    show ?thesis
    proof (cases "ps_errors p")
      case (Cons e es)
      then have "e \<in> set (ps_errors p)" by simp
      then show ?thesis using pool_err [OF False p] by blast
    next
      case Nil
      have "?n \<noteq> 0" using assms(2) False by (simp add: min_def)
      then have "0 < ps_claimed p" using over False unfolding round_over_def claims_ok_def by (metis length_greater_0_conv)
      then have less: "length (drop (ps_claimed p) rest) < length rest" using False by simp
      obtain r1 x1 where st: "settle env engine (ps_lost p) (ps_cell p) r1 x1" using settle_returns [OF assms(1)] by blast
      show ?thesis
      proof (cases r1)
        case (Inl e)
        then show ?thesis using pool_lost [OF False p Nil] st by blast
      next
        case (Inr u)
        then have "settle env engine (ps_lost p) (ps_cell p) (Inr ()) x1" using st by (cases u) simp
        then show ?thesis using pool_next [OF False p Nil] 1 less by blast
      qed
    qed
  qed
qed

text \<open>C10. A cell always returns, whatever its engine answers: no schedule of the workers runs forever or
  gets stuck before every worker has returned, and every dataset and session has an outcome.
\<close>

theorem cell_returns:
  assumes "answers_all engine" "0 < in_flight_count mode"
  shows "(\<nexists>f. \<forall>k :: nat. pool_step env engine alone rest (f k) (f (Suc k)))
    \<and> (\<forall>n p. (pool_step env engine alone rest)\<^sup>*\<^sup>* (pool_start n x0) p \<longrightarrow> round_over rest p \<or> (\<exists>q. pool_step env engine alone rest p q))
    \<and> (\<exists>r x1. run_cell env ops engine mode retry rows x r x1)"
proof (intro conjI allI impI)
  show "\<nexists>f. \<forall>k :: nat. pool_step env engine alone rest (f k) (f (Suc k))"
  proof
    assume "\<exists>f. \<forall>k :: nat. pool_step env engine alone rest (f k) (f (Suc k))"
    then obtain f where "\<forall>k :: nat. (f (Suc k), f k) \<in> pool_order rest" using pool_step_decreases by blast
    moreover have "wf (pool_order rest)" by (simp add: pool_order_def)
    ultimately show False unfolding wf_iff_no_infinite_down_chain by blast
  qed
next
  fix n p
  assume "(pool_step env engine alone rest)\<^sup>*\<^sup>* (pool_start n x0) p"
  then have "claims_ok n rest p"
    by (induction rule: rtranclp_induct) (auto simp: claims_ok_def pool_start_def dest: claims_ok_step)
  then show "round_over rest p \<or> (\<exists>q. pool_step env engine alone rest p q)"
    using pool_progress [OF _ _ assms(1)] by blast
next
  show "\<exists>r x1. run_cell env ops engine mode retry rows x r x1"
  proof (cases "dataset ops rows")
    case (Inl e)
    then show ?thesis using no_dataset by blast
  next
    case (Inr samples)
    have "\<exists>r x1. run_samples env engine mode (pending samples (fst x) retry) x r x1"
      using batches_returns [OF assms(1)] pool_returns [OF assms(1)] assms(2) by (cases mode) (auto simp: run_samples_def)
    then obtain r x1 where run: "run_samples env engine mode (pending samples (fst x) retry) x r x1" by blast
    show ?thesis
    proof (cases r)
      case (Inl e)
      then show ?thesis using cell_err [OF Inr] run by blast
    next
      case r: (Inr u)
      then have "run_samples env engine mode (pending samples (fst x) retry) x (Inr ()) x1" using run by (cases u) simp
      then show ?thesis using cell_ok [OF Inr] by blast
    qed
  qed
qed

section \<open>The properties at a concrete input\<close>

definition no_json :: "unit json_ops" where
  "no_json = \<lparr>json_parse = (\<lambda>_. None), json_get = (\<lambda>_ _. None), json_index = (\<lambda>_ _. None), json_pointer = (\<lambda>_ _. None),
     json_is_null = (\<lambda>_. True), json_as_str = (\<lambda>_. None), json_as_u64 = (\<lambda>_. None), json_text = (\<lambda>_. [])\<rparr>"

definition answers :: engine_run where
  "answers = \<lparr>run_calls = [\<lparr>call_at = 0, call_reading = Completed ''y'' Eos None None, call_io = Appended\<rparr>],
     run_end = (\<lambda>rs. if list_all (\<lambda>r. r = Inr ()) rs then Inr () else Inl ''row not written'')\<rparr>"

definition sample_rows :: "(unit, unit, unit) eval_rows option" where
  "sample_rows = Some (ChatRows [\<lparr>chat_id = ''i'', chat_messages = (), chat_kwargs = None\<rparr>])"

definition the_sample :: "(unit, unit, unit) sample" where
  "the_sample = \<lparr>sm_id = ''i'', sm_messages = ChatMessages (), sm_kwargs = None, sm_position = position_of 1 1 ''i''\<rparr>"

abbreviation sample_engine :: "(unit, unit, unit) engine" where
  "sample_engine \<equiv> \<lambda>_ run. run = answers"

lemma sample_engine_passes: "passes_all sample_engine"
  by (auto simp: passes_all_def passes_errors_def answers_def list_all_iff)

lemma sample_dataset: "dataset no_json sample_rows = Inr [the_sample]"
  by (simp add: dataset_def sample_rows_def the_sample_def)

lemma sample_send:
  "\<exists>s1. send_group sample_env [the_sample] True answers (cs, s) = (Inr [], remember (completed_row ''i'' ''y'' Eos None None) cs, s1)"
  by (simp add: send_group_def answers_def fresh_attempt_def record_reading_def Let_def append_reading_def append_row_def
      fs_append_def sample_env_def attempt_end_def the_sample_def)

lemma sample_run_samples:
  "\<exists>s1. run_samples sample_env sample_engine (Batch 1) [the_sample] (cs, s) (Inr ())
     (remember (completed_row ''i'' ''y'' Eos None None) cs, s1)"
proof -
  obtain s1 where s1: "send_group sample_env [the_sample] True answers (cs, s) = (Inr [], remember (completed_row ''i'' ''y'' Eos None None) cs, s1)"
    using sample_send by blast
  have "chunks 1 [the_sample] = [[the_sample]]" by (subst chunks.simps, simp, subst chunks.simps, simp)
  moreover have "batches sample_env sample_engine [[the_sample]] (cs, s) (Inr ()) (remember (completed_row ''i'' ''y'' Eos None None) cs, s1)"
    by (rule batch_ok [OF refl _ settled batches_done]) (use s1 in simp)
  ultimately show ?thesis unfolding run_samples_def by auto
qed

definition empty_session :: session where
  "empty_session = session_for [''evals''] ''d'' [] Map.empty"

lemma sample_sessions_ok: "session_ok empty_session" "session_ok sample_session"
  using sample_matches by (auto simp: matches_def empty_session_def session_ok_def session_for_def spent_def)

lemma sample_pending:
  "pending [the_sample] empty_session False = [the_sample]" "pending [the_sample] sample_session True = [the_sample]"
  by (simp_all add: pending_def empty_session_def sample_session_def session_for_def contains_def the_sample_def
      failure_split_def Let_def sample_log_def sample_row_def spent_def MAX_SAMPLE_ATTEMPTS_def)

lemma sample_cells:
  "\<exists>s1. run_cell sample_env no_json sample_engine (Batch 1) False sample_rows (empty_session, sample_fs)
     (Inr 1) (remember (completed_row ''i'' ''y'' Eos None None) empty_session, s1)"
  "\<exists>s1. run_cell sample_env no_json sample_engine (Batch 1) True sample_rows (sample_session, sample_fs)
     (Inr 1) (remember (completed_row ''i'' ''y'' Eos None None) sample_session, s1)"
proof -
  have one: "distinct_ids [the_sample] = 1" by (simp add: distinct_ids_def)
  show "\<exists>s1. run_cell sample_env no_json sample_engine (Batch 1) False sample_rows (empty_session, sample_fs)
     (Inr 1) (remember (completed_row ''i'' ''y'' Eos None None) empty_session, s1)"
    using sample_run_samples [of empty_session sample_fs] run_cell.cell_ok [OF sample_dataset, where retry = False, unfolded one]
      sample_pending(1) by (metis fst_conv)
  show "\<exists>s1. run_cell sample_env no_json sample_engine (Batch 1) True sample_rows (sample_session, sample_fs)
     (Inr 1) (remember (completed_row ''i'' ''y'' Eos None None) sample_session, s1)"
    using sample_run_samples [of sample_session sample_fs] run_cell.cell_ok [OF sample_dataset, where retry = True, unfolded one]
      sample_pending(2) by (metis fst_conv)
qed

theorem eval_one_row_per_sample_witness:
  "\<exists>result x1. eval sample_env no_json sample_engine (Batch 1) sample_rows (empty_session, sample_fs) (Inr result) x1
     \<and> set (map row_id result) = {''i''}"
proof -
  obtain x1 where "run_cell sample_env no_json sample_engine (Batch 1) False sample_rows (empty_session, sample_fs) (Inr 1) x1"
    using sample_cells(1) by blast
  then have ev: "eval sample_env no_json sample_engine (Batch 1) sample_rows (empty_session, sample_fs) (Inr (cs_rows (fst x1))) x1"
    unfolding eval_def by (intro exI [of _ "Inr 1"]) simp
  have "set (map row_id (cs_rows (fst x1))) = {''i''}"
    using eval_one_row_per_sample [OF ev sample_dataset sample_engine_passes] sample_sessions_ok(1)
    by (simp add: the_sample_def empty_session_def session_for_def)
  with ev show ?thesis by blast
qed

theorem eval_complete_answers_every_sample_witness:
  "\<exists>result x1. eval_complete sample_env None no_json sample_engine (Batch 1) sample_rows (sample_session, sample_fs) (Inr result) x1
     \<and> set (map row_id result) = {''i''} \<and> (\<forall>r\<in>set result. \<not> row_failed r)"
proof -
  let ?cs = "remember (completed_row ''i'' ''y'' Eos None None) sample_session"
  obtain s1 where run: "run_cell sample_env no_json sample_engine (Batch 1) True sample_rows (sample_session, sample_fs) (Inr 1) (?cs, s1)"
    using sample_cells(2) by blast
  have "ensure_complete None ?cs 1 = Inr ()"
    by (simp add: ensure_complete_def check_complete_def remember_def Let_def sample_session_def session_for_def sample_log_def
        sample_row_def completed_row_def)
  with run have ev: "eval_complete sample_env None no_json sample_engine (Batch 1) sample_rows (sample_session, sample_fs) (Inr (cs_rows ?cs)) (?cs, s1)"
    unfolding eval_complete_def by (intro exI [of _ "Inr 1"]) simp
  have "\<not> waives None" by (simp add: waives_def)
  then have "set (map row_id (cs_rows ?cs)) = {''i''}" "\<forall>r\<in>set (cs_rows ?cs). \<not> row_failed r"
    using eval_complete_answers_every_sample [OF ev sample_dataset _ sample_engine_passes] sample_sessions_ok(2)
    by (simp_all add: the_sample_def)
  with ev show ?thesis by blast
qed

theorem attempts_bounded_witness:
  "\<exists>r x1. run_cell sample_env no_json sample_engine (Batch 1) True sample_rows (sample_session, sample_fs) r x1
     \<and> spent (cs_attempts (fst x1)) ''i'' \<le> 3"
proof -
  obtain x1 where run: "run_cell sample_env no_json sample_engine (Batch 1) True sample_rows (sample_session, sample_fs) (Inr 1) x1"
    using sample_cells(2) by blast
  have "spent (cs_attempts sample_session) ''i'' = 1" by (simp add: sample_session_def session_for_def spent_def)
  then have "spent (cs_attempts (fst x1)) ''i'' \<le> 3"
    using attempts_bounded [OF run sample_engine_passes, of "''i''"] sample_sessions_ok(2) by (simp add: MAX_SAMPLE_ATTEMPTS_def)
  with run show ?thesis by blast
qed

theorem chunked_eval_answers_every_sample_witness:
  "\<exists>result x1. eval_complete_chunked sample_env (Some ''yes'') sample_engine (Batch 1) 1 (\<lambda>_. ''i'')
       (\<lambda>_ r. r = Inr [\<lparr>chat_id = ''i'', chat_messages = (), chat_kwargs = None\<rparr>]) (empty_session, sample_fs) (Inr result) x1
     \<and> set (map row_id result) = {''i''} \<and> (\<forall>r\<in>set result. \<not> row_failed r)"
proof -
  let ?id = "\<lambda>_ :: nat. ''i''" and ?cs = "remember (completed_row ''i'' ''y'' Eos None None) empty_session"
  let ?rows = "[\<lparr>chat_id = ''i'', chat_messages = (), chat_kwargs = None\<rparr>] :: (unit, unit) chat_row list"
  let ?fetch = "\<lambda>(_ :: nat) r. r = (Inr ?rows :: string + (unit, unit) chat_row list)"
  obtain s1 where run: "run_samples sample_env sample_engine (Batch 1) [the_sample] (empty_session, sample_fs) (Inr ()) (?cs, s1)"
    using sample_run_samples by blast
  have todo: "chunked_pending empty_session 1 ?id = [(0, ''i'')]"
    by (simp add: chunked_pending_def contains_def empty_session_def session_for_def)
  have "chunked_loop sample_env sample_engine (Batch 1) 1 ?id ?fetch {''i''} [(0, ''i'')] (empty_session, sample_fs) (Inr ()) (?cs, s1)"
  proof (rule chunk_ok [where rows = ?rows and todo' = "[the_sample]" and ?x1.0 = "(?cs, s1)"])
    show "check_chunk 1 ?id 0 ?rows = Inr ()" by (simp add: check_chunk_def)
    show "[the_sample] = filter (\<lambda>s. sm_id s \<in> {''i''}) (chat_samples ?rows 0 1)" by (simp add: the_sample_def)
    show "if [the_sample] = [] then (?cs, s1) = (empty_session, sample_fs)
        else run_samples sample_env sample_engine (Batch 1) [the_sample] (empty_session, sample_fs) (Inr ()) (?cs, s1)"
      using run by simp
    show "chunked_loop sample_env sample_engine (Batch 1) 1 ?id ?fetch {''i''}
        (dropWhile (\<lambda>(p, _). p < 0 + length ?rows) [(0, ''i'')]) (?cs, s1) (Inr ()) (?cs, s1)"
      by (simp add: chunks_done)
  qed simp
  moreover have "ensure_every_answer (Some ''yes'') ?cs 1 = Inr ()"
    by (simp add: ensure_every_answer_def check_complete_def remember_def Let_def empty_session_def session_for_def completed_row_def)
  ultimately have ev: "eval_complete_chunked sample_env (Some ''yes'') sample_engine (Batch 1) 1 ?id ?fetch (empty_session, sample_fs)
      (Inr (cs_rows ?cs)) (?cs, s1)"
    unfolding eval_complete_chunked_def by (intro exI [of _ "Inr ()"] exI [of _ "[(0, ''i'')]"]) (simp add: todo [simplified])
  have one: "0 < in_flight_count (Batch 1)" "inj_on ?id {..<1}" "?id ` {..<1} = {''i''}" "session_ok (fst (empty_session, sample_fs))"
    using sample_sessions_ok(1) by (auto simp: inj_on_def)
  have "set (map row_id (cs_rows ?cs)) = {''i''} \<and> (\<forall>r\<in>set (cs_rows ?cs). \<not> row_failed r)"
    using chunked_eval_answers_every_sample [OF ev sample_engine_passes one(1,2,4)] unfolding one(3) by blast
  then show ?thesis by (intro exI conjI) (rule ev, simp_all)
qed

theorem cell_returns_witness:
  "\<exists>r x1. run_cell sample_env no_json sample_engine (Parallel 2) True sample_rows (sample_session, sample_fs) r x1"
proof -
  have "answers_all sample_engine" "0 < in_flight_count (Parallel 2)" by (simp_all add: answers_all_def)
  from cell_returns [OF this] show ?thesis by blast
qed

end
