(* ===== verification/Spec2Isabelle.thy ===== *)
theory Spec2Isabelle
  imports Wait Retry Worker_Timing Quota Entry_Store Store_Scan Readiness Sse Gguf Worker_Loop Fetch Eval_Checkpoint Eval_Loop
begin

text \<open>
  A verification library for the pipette clients, the Rust workspace under \<open>src/\<close>: programs that
  claim benchmark jobs from a management server, fetch models and runtimes into a store of bounded
  size, wait until the device is fit to measure, run the job and report its result.

  \<^bold>\<open>The parts and how they interact.\<close> A worker (\<open>pipette-cli/src/commands/worker.rs\<close>) claims a job under
  a lease, writes a marker of the job in flight, keeps the lease alive from a second thread, runs the
  job and submits the result or a failure report. Running a job installs artifacts
  (\<open>pipette-artifacts\<close>): files are downloaded with retries and resumption (\<open>pipette-http\<close>), staged
  and published as store entries, and a quota sweep evicts entries that no process uses. A timed cell
  first passes the readiness gate (\<open>pipette-readiness\<close>). Answers arrive as server-sent events
  (\<open>pipette-ops/src/sse.rs\<close>). An eval cell sends every sample of a dataset and appends each row to a
  checkpoint that survives a kill (\<open>pipette-ops/src/measurement/eval.rs\<close>, \<open>eval_completions.rs\<close>).

  \<^bold>\<open>The theories.\<close>
  \<^item> \<open>Pipette_Prelude\<close>, \<open>Utf8\<close>, \<open>File_System\<close>: what the code uses of Rust and its standard library,
    that is durations, saturating integers, results, string routines, UTF-8, and a file system
    whose every operation may fail.
  \<^item> \<open>Wait\<close>: \<open>pipette-wait/src/lib.rs\<close>. Locale \<open>interruptible_sleep\<close> is the contract of a sleep that
    a stop flag ends; \<open>Wait\<close> and \<open>Worker_Timing\<close> interpret it on the two sleeps of the code.
  \<^item> \<open>Retry\<close>: \<open>pipette-http/src/retry.rs\<close> and \<open>range.rs\<close>. Locale \<open>backoff_schedule\<close> is interpreted on
    the backoff of the host and on that of the iOS proxy. The whole run of the retry loop is
    computed from the answers of a server.
  \<^item> \<open>Worker_Timing\<close>: the lease windows, the heartbeat period, the sleeps and backoffs of
    \<open>client/worker/timing.rs\<close> and of the iOS proxy's \<open>timing.rs\<close>.
  \<^item> \<open>Quota\<close>, \<open>Store_Scan\<close>: \<open>quota.rs\<close>, the plan of an eviction as a function of the entries, then the
    scan, the locks and the removal on the file system. Locale \<open>sweep_store\<close> is the contract
    between them; it is interpreted on the workspace's stores.
  \<^item> \<open>Entry_Store\<close>: \<open>entry.rs\<close>, staging, manifests, publishing by rename and locks, under any faults.
  \<^item> \<open>Readiness\<close>: \<open>configuration.rs\<close>, \<open>lib.rs\<close>, \<open>callbacks.rs\<close> and \<open>wait.rs\<close> of \<open>pipette-readiness\<close>.
  \<^item> \<open>Sse\<close>: the readers of a text and of a chat stream. \<open>Gguf\<close>: \<open>gguf_meta.rs\<close>, a reader of untrusted
    binary files, against a writer of well-formed ones.
  \<^item> \<open>Failure_Report\<close>: the errors a job ends with, whether they are final, and the text reported.
  \<^item> \<open>Lease_Protocol\<close>: claiming, keeping alive and submitting (\<open>client/worker/protocol.rs\<close>).
    \<open>In_Flight\<close>: the marker file and the interleaving of the run, its heartbeat and a teardown, as
    an inductive step relation. \<open>Worker_Loop\<close>: the claim loop over both. Its effects are recorded as
    a trace of events; locale \<open>world_relation\<close> carries a relation between worlds through every
    operation and is interpreted on the growth of that trace.
  \<^item> \<open>Resume\<close>, \<open>Fetch\<close>: \<open>resume.rs\<close>, \<open>digest.rs\<close>, \<open>progress.rs\<close>, and the fetch of one file from a vault,
    a public server or the host. Locale \<open>partial_inv\<close> carries an invariant of the partial file
    through an attempt; it is interpreted on the writer's invariant and, for a server that
    replaces its object, used with the set of versions served.
  \<^item> \<open>Eval_Checkpoint\<close>: the checkpoint file and its session. \<open>Eval_Loop\<close>: the run of a cell over any
    engine, with batches, and with a pool of workers that interleave call by call as an inductive
    step relation.

  \<^bold>\<open>Correspondence.\<close> A struct is a record, an enum a datatype, a function a definition with the name of
  the source where HOL has no such name. \<open>Result\<close> is a sum with the error on the left. A callback
  or a remote party is a function on a world that is passed through, or, where its choices matter,
  a relation over which every lemma quantifies. Operations of threads are steps of a relation. A
  \<open>HashMap\<close> whose order shows is a list with a parameter for the order.

  \<^bold>\<open>What the lemmas show.\<close>
  \<^item> Functional behaviour over all inputs: the retry loop, the submission, the claim retries, the
    heartbeat, the eviction plan, the cancellable sleep, the answer of a chat stream, the parser of
    lease windows.
  \<^item> Safety: the order of the protocol in every worker run and the bound on jobs; nothing reported
    after a lost lease; no entry in use evicted; manifests replaced whole; a fetched file is one
    version and has its digest; a redacted plan shows no token; an eval that must be complete
    answers every sample.
  \<^item> Invariants and types over interleavings: an orderly end is never taken for a reboot; a
    checkpoint session is well formed whatever was read or written.
  \<^item> Round trips: GGUF files, sensor names, the checkpoint across a kill at any byte of an append.
  \<^item> Bounds and termination: waits, attempts, probes, strings visited in a file, sweeps.

  \<^bold>\<open>Loops and bounds.\<close> Loops over data are structural or have a termination proof. Loops that end only
  when the outside answers (claiming, polling, heartbeats, the claim loop) are partial functions
  into \<open>option\<close> or run over the finite list of what the outside answers; where the code is meant
  to return, that it returns is proved. No fuel is used. Lengths of downloads are 64-bit words, and
  string and array counts of GGUF files are 64-bit values, because their overflow matters. The eval
  loop is a relation between its inputs and its outcomes: its theorems speak of every run, and
  \<open>cell_returns\<close> of \<open>Eval_Loop\<close> shows that no schedule runs forever or gets stuck.

  \<^bold>\<open>Parameters.\<close> \<open>serde_json\<close>, SHA-256, the HTTP client, the signed calls of the management client, the
  clock, the random identifiers, the engines and the probes are arguments. The hypotheses on them
  are named where they are used (for instance \<open>laws\<close> of \<open>Eval_Checkpoint\<close>: a rendered row is one
  line that parses back; \<open>passes_all\<close> of \<open>Eval_Loop\<close>: an attempt returns the error of a row it
  could not write), and each property that has one is applied at a concrete instance.

  \<^bold>\<open>Not modelled.\<close>
  \<^item> The engines (\<open>pipette-llamacpp\<close> apart from its GGUF reader, \<open>pipette-torch-oai\<close>, \<open>pipette-mlx\<close>,
    \<open>pipette-onnx-genai\<close>, \<open>pipette-openvino\<close>, \<open>pipette-ovms\<close>, \<open>pipette-trt-edgellm\<close>, \<open>pipette-coreai\<close>):
    they turn the plan types of a crate outside \<open>src/\<close> into command lines and requests.
  \<^item> The statistics of timed cells, on \<open>f64\<close> and the plan types.
  \<^item> Calls into the operating system: processes, signals, probes of memory, power and temperature,
    the SSH agent, the Windows service.
  \<^item> Signing and wire types of the management client, the archive decoders, the resolution of plans
    to files, and the digest of a run request, which is computed over the plan types.
  \<^item> The commands of the CLI other than the worker, the fleet controller, the Android bridge and the
    iOS proxy apart from its timing. They hold pure code (address parsers, shell quoting, the host
    semaphore, the server slots of \<open>eval_pool.rs\<close>) that could be added.
  \<^item> Of the modelled parts: the startup of the worker before its loop, the parse of the uptime file,
    the loop of the readiness gate on Windows, the progress log and the heartbeat
    line of an eval. Log lines are left out throughout.
\<close>

end
